(* ===== verification/Ltp_Prelude.thy ===== *)
theory Ltp_Prelude
  imports Main "HOL-Library.Word" "HOL-Library.Signed_Division"
begin

text \<open>
  Shared vocabulary of the development.

  \<^item> A C string (\<open>const char *\<close>) is the list of its characters before the
    terminating NUL; a pointer into a string is the suffix it points to, so that
    pointer difference is a difference of lengths and \<open>*p\<close> is \<open>deref p\<close>.
  \<^item> The integer conversions of C are written out: \<open>c_int\<close>, \<open>c_uint\<close>,
    \<open>c_long\<close> (64 bit) reduce an exact result to the width of the C type
    (two's complement for the signed ones), and \<open>c_div\<close>/\<open>c_mod\<close> truncate
    towards zero.
  \<^item> \<open>c_simps\<close> collects the facts that make these conversions disappear when the
    exact result is in range.
\<close>

named_theorems c_simps \<open>in-range conversions of C integers\<close>

section \<open>Characters and strings\<close>

abbreviation NUL :: char where "NUL \<equiv> CHR 0x00"

definition deref :: "string \<Rightarrow> char" where
  "deref s = (case s of [] \<Rightarrow> NUL | c # _ \<Rightarrow> c)"

lemma deref_simps [simp]: "deref [] = NUL" "deref (c # s) = c"
  by (simp_all add: deref_def)

definition char_between :: "char \<Rightarrow> char \<Rightarrow> char \<Rightarrow> bool" where
  "char_between lo hi c \<longleftrightarrow> of_char lo \<le> (of_char c :: nat) \<and> of_char c \<le> (of_char hi :: nat)"

text \<open>\<open>isspace\<close>, \<open>isdigit\<close> and \<open>isalnum\<close> of \<open>ctype.h\<close> in the C locale.\<close>

definition isspace :: "char \<Rightarrow> bool" where
  "isspace c \<longleftrightarrow> c = CHR '' '' \<or> char_between (CHR 0x09) (CHR 0x0D) c"

definition isdigit :: "char \<Rightarrow> bool" where
  "isdigit c \<longleftrightarrow> char_between (CHR ''0'') (CHR ''9'') c"

definition isalnum :: "char \<Rightarrow> bool" where
  "isalnum c \<longleftrightarrow> isdigit c \<or> char_between (CHR ''a'') (CHR ''z'') c \<or> char_between (CHR ''A'') (CHR ''Z'') c"

definition digit_val :: "char \<Rightarrow> int" where
  "digit_val c = of_char c - 48"

text \<open>\<open>fgets\<close> with a buffer of \<open>n\<close> bytes: the line it stores and what is left of the file.\<close>

definition fgets :: "nat \<Rightarrow> string \<Rightarrow> (string \<times> string) option" where
  "fgets n s =
     (if s = [] then None
      else let l = takeWhile (\<lambda>c. c \<noteq> CHR 0x0A) s; k = min (n - 1) (Suc (length l)) in Some (take k s, drop k s))"

lemma fgets_shorter: "fgets n s = Some (l, r) \<Longrightarrow> 1 < n \<Longrightarrow> length r < length s"
  by (cases s) (auto simp: fgets_def Let_def split: if_splits)

text \<open>\<open>strstr\<close>: the suffix at the first occurrence of a needle.\<close>

fun strstr :: "string \<Rightarrow> string \<Rightarrow> string option" where
  "strstr [] needle = (if needle = [] then Some [] else None)"
| "strstr (c # s) needle =
     (if take (length needle) (c # s) = needle then Some (c # s) else strstr s needle)"

text \<open>A char array read as a C string.\<close>

definition c_str :: "string \<Rightarrow> string" where
  "c_str s = takeWhile (\<lambda>c. c \<noteq> NUL) s"

lemma c_str_no_NUL: "NUL \<notin> set s \<Longrightarrow> c_str s = s"
  by (auto simp: c_str_def takeWhile_eq_all_conv)

text \<open>A message formatted into a buffer of \<open>n\<close> bytes, the NUL included.\<close>

definition vsnprintf :: "nat \<Rightarrow> string \<Rightarrow> string" where
  "vsnprintf n msg = take (n - 1) msg"

lemma vsnprintf_ne [simp]: "1 < n \<Longrightarrow> vsnprintf n (c # cs) \<noteq> []"
  by (simp add: vsnprintf_def take_Cons split: nat.split)

section \<open>Integer conversions\<close>

definition c_int :: "int \<Rightarrow> int" where "c_int x = signed_take_bit 31 x"

definition c_uint :: "int \<Rightarrow> int" where "c_uint x = take_bit 32 x"

definition c_long :: "int \<Rightarrow> int" where "c_long x = signed_take_bit 63 x"

definition c_ulong :: "int \<Rightarrow> int" where "c_ulong x = take_bit 64 x"

definition c_div :: "int \<Rightarrow> int \<Rightarrow> int" where "c_div a b = a sdiv b"

definition c_mod :: "int \<Rightarrow> int \<Rightarrow> int" where "c_mod a b = a smod b"

lemma c_int_id [c_simps]: "- 2147483648 \<le> x \<Longrightarrow> x < 2147483648 \<Longrightarrow> c_int x = x"
  by (simp add: c_int_def signed_take_bit_int_eq_self)

lemma c_uint_id [c_simps]: "0 \<le> x \<Longrightarrow> x < 4294967296 \<Longrightarrow> c_uint x = x"
  by (simp add: c_uint_def take_bit_int_eq_self)

lemma c_long_id [c_simps]:
  "- 9223372036854775808 \<le> x \<Longrightarrow> x < 9223372036854775808 \<Longrightarrow> c_long x = x"
  by (simp add: c_long_def signed_take_bit_int_eq_self)

lemma c_ulong_id [c_simps]: "0 \<le> x \<Longrightarrow> x < 18446744073709551616 \<Longrightarrow> c_ulong x = x"
  by (simp add: c_ulong_def take_bit_int_eq_self)

lemma c_uint_range: "0 \<le> c_uint x \<and> c_uint x < 4294967296"
  using take_bit_int_less_exp [of 32 x] by (simp add: c_uint_def)

lemma c_int_range: "- 2147483648 \<le> c_int x \<and> c_int x < 2147483648"
  using signed_take_bit_int_greater_eq_minus_exp [of 31 x] signed_take_bit_int_less_exp [of 31 x]
  by (simp add: c_int_def)

lemma c_div_nonneg [c_simps]: "0 \<le> a \<Longrightarrow> 0 \<le> b \<Longrightarrow> c_div a b = a div b"
  by (simp add: c_div_def signed_divide_int_def sgn_if)

lemma c_mod_nonneg [c_simps]: "0 \<le> a \<Longrightarrow> 0 \<le> b \<Longrightarrow> c_mod a b = a mod b"
  by (simp add: c_mod_def signed_modulo_int_def signed_divide_int_def sgn_if minus_div_mult_eq_mod)

lemma c_div_minus: "c_div (- a) b = - c_div a b"
  by (simp add: c_div_def signed_divide_int_def)

lemma c_mod_minus: "c_mod (- a) b = - c_mod a b"
  using c_div_minus [of a b] by (simp add: c_mod_def c_div_def signed_modulo_int_def)

lemma c_div_mod: "c_div a b * b + c_mod a b = a"
  by (simp add: c_div_def c_mod_def sdiv_mult_smod_eq)

section \<open>Decimal text\<close>

text \<open>What \<open>printf\<close> prints for \<open>%zu\<close>, \<open>%li\<close> and \<open>%03zu\<close>.\<close>

definition digit_char :: "nat \<Rightarrow> char" where
  "digit_char d = char_of (48 + d)"

fun dec_of_nat :: "nat \<Rightarrow> string" where
  "dec_of_nat n = (if n < 10 then [digit_char n] else dec_of_nat (n div 10) @ [digit_char (n mod 10)])"

declare dec_of_nat.simps [simp del]

definition dec_of_int :: "int \<Rightarrow> string" where
  "dec_of_int i = (if i < 0 then CHR ''-'' # dec_of_nat (nat (- i)) else dec_of_nat (nat i))"

definition dec_pad3 :: "nat \<Rightarrow> string" where
  "dec_pad3 n = (let t = dec_of_nat n in replicate (3 - length t) (CHR ''0'') @ t)"

lemma of_char_digit_char: "d < 10 \<Longrightarrow> of_char (digit_char d) = (48 + d :: nat)"
  by (simp add: digit_char_def of_char_of)

lemma isdigit_digit_char [simp]: "d < 10 \<Longrightarrow> isdigit (digit_char d)"
  using of_char_digit_char [of d] by (simp add: isdigit_def char_between_def)

lemma digit_val_digit_char [simp]: "d < 10 \<Longrightarrow> digit_val (digit_char d) = int d"
proof -
  assume "d < 10"
  then have "int (of_char (digit_char d)) = int (48 + d)"
    by (simp only: of_char_digit_char)
  then show ?thesis by (simp add: digit_val_def of_nat_of_char)
qed

lemma dec_of_nat_ne [simp]: "dec_of_nat n \<noteq> []"
  by (subst dec_of_nat.simps) simp

lemma dec_of_nat_digits: "list_all isdigit (dec_of_nat n)"
  by (induction n rule: dec_of_nat.induct) (subst dec_of_nat.simps, simp)

lemma digit_char_eq_0: "d < 10 \<Longrightarrow> digit_char d = CHR ''0'' \<longleftrightarrow> d = 0"
proof
  assume d: "d < 10" and "digit_char d = CHR ''0''"
  then have "48 + d = (of_char (CHR ''0'') :: nat)"
    using of_char_digit_char [of d] by simp
  then show "d = 0" by simp
qed (simp add: digit_char_def char_of_def bit_0)

text \<open>No leading zero: only the text of 0 starts with the digit 0.\<close>

lemma dec_of_nat_hd: "hd (dec_of_nat n) = CHR ''0'' \<longleftrightarrow> n = 0"
  by (induction n rule: dec_of_nat.induct) (subst dec_of_nat.simps, auto simp: digit_char_eq_0 hd_append)

text \<open>The value of a digit string, read from the left.\<close>

definition dec_val :: "string \<Rightarrow> int" where
  "dec_val ds = foldl (\<lambda>v c. v * 10 + digit_val c) 0 ds"

lemma dec_val_dec_of_nat: "dec_val (dec_of_nat n) = int n"
proof (induction n rule: dec_of_nat.induct)
  case (1 n)
  show ?case
  proof (cases "n < 10")
    case True
    then show ?thesis by (subst dec_of_nat.simps) (simp add: dec_val_def)
  next
    case False
    then have "dec_val (dec_of_nat (n div 10)) = int (n div 10)" by (rule 1)
    moreover have "int (n div 10) * 10 + int (n mod 10) = int n"
      by (metis div_mult_mod_eq of_nat_add of_nat_mult of_nat_numeral)
    ultimately show ?thesis
      using False by (subst dec_of_nat.simps) (simp add: dec_val_def)
  qed
qed

lemma dec_of_nat_short: "n < 10 ^ k \<Longrightarrow> 0 < k \<Longrightarrow> length (dec_of_nat n) \<le> k"
proof (induction n arbitrary: k rule: dec_of_nat.induct)
  case (1 n)
  show ?case
  proof (cases "n < 10")
    case True
    then show ?thesis using "1.prems" by (subst dec_of_nat.simps) simp
  next
    case False
    then obtain j where j: "k = Suc j" "0 < j" using "1.prems" by (cases k; cases "k - 1") auto
    then have "n div 10 < 10 ^ j" using "1.prems" by (simp add: less_mult_imp_div_less mult.commute)
    then show ?thesis using "1.IH" [OF False _ j(2)] False j by (subst dec_of_nat.simps) simp
  qed
qed

section \<open>Numbers in text\<close>

text \<open>\<open>strtoul()\<close> in base 10: the value and the rest, which is the whole string without digits.\<close>

definition sign_digits :: "string \<Rightarrow> bool \<times> string" where
  "sign_digits s = (let s = dropWhile isspace s in
     if deref s = CHR ''-'' then (True, drop 1 s) else if deref s = CHR ''+'' then (False, drop 1 s) else (False, s))"

definition strtoul :: "string \<Rightarrow> int \<times> string" where
  "strtoul s = (case sign_digits s of (neg, t) \<Rightarrow>
     let ds = takeWhile isdigit t; v = dec_val ds in
     if ds = [] then (0, s)
     else (if 18446744073709551615 < v then 18446744073709551615 else if neg then c_ulong (- v) else v, dropWhile isdigit t))"

lemma digit_facts: "isdigit c \<Longrightarrow> \<not> isspace c \<and> c \<noteq> CHR ''-'' \<and> c \<noteq> CHR ''+''"
  by (auto simp: isdigit_def isspace_def char_between_def)

lemma number_split:
  assumes "\<not> isdigit (deref rest)"
  shows "takeWhile isdigit (dec_of_nat n @ rest) = dec_of_nat n" "dropWhile isdigit (dec_of_nat n @ rest) = rest"
    "sign_digits (dec_of_nat n @ rest) = (False, dec_of_nat n @ rest)"
proof -
  have d: "\<forall>c \<in> set (dec_of_nat n). isdigit c" using dec_of_nat_digits [of n] by (simp add: list_all_iff)
  have r: "takeWhile isdigit rest = []" "dropWhile isdigit rest = rest" using assms by (cases rest; simp)+
  show "takeWhile isdigit (dec_of_nat n @ rest) = dec_of_nat n" "dropWhile isdigit (dec_of_nat n @ rest) = rest"
    using d r by (simp_all add: takeWhile_append2 dropWhile_append2)
  obtain c cs where c: "dec_of_nat n = c # cs" by (cases "dec_of_nat n") auto
  then show "sign_digits (dec_of_nat n @ rest) = (False, dec_of_nat n @ rest)"
    using d digit_facts [of c] by (simp add: sign_digits_def)
qed

lemma not_digit: "\<not> isdigit (CHR ''.'')" "\<not> isdigit (CHR ''-'')" "\<not> isdigit NUL" "\<not> isdigit (CHR '' '')"
  by (simp_all add: isdigit_def char_between_def)

text \<open>Hexadecimal digits, and the prefix \<open>0x\<close>, which counts only in front of one.\<close>

definition hex_digit :: "char \<Rightarrow> int option" where
  "hex_digit c = (if isdigit c then Some (digit_val c)
     else if char_between (CHR ''a'') (CHR ''f'') c then Some (of_char c - 87)
     else if char_between (CHR ''A'') (CHR ''F'') c then Some (of_char c - 55) else None)"

definition hex_prefix :: "string \<Rightarrow> string" where
  "hex_prefix t = (if take 2 t \<in> {''0x'', ''0X''} \<and> hex_digit (deref (drop 2 t)) \<noteq> None then drop 2 t else t)"

section \<open>Results\<close>

text \<open>
  \<open>tst_res()\<close> reports a message. \<open>tst_brk()\<close> reports a broken test (\<open>TBROK\<close>) or a missing feature
  (\<open>TCONF\<close>) and ends the test; the third failure is an access outside of an array.
\<close>

datatype ttype = TINFO | TWARN

type_synonym message = "ttype \<times> string"

datatype failure = Brk string | Conf string | Overrun

definition and_then :: "failure + 'a \<Rightarrow> ('a \<Rightarrow> failure + 'b) \<Rightarrow> failure + 'b" where
  "and_then r f = (case r of Inl e \<Rightarrow> Inl e | Inr x \<Rightarrow> f x)"

lemma and_then_simps [simp]: "and_then (Inl e) f = Inl e" "and_then (Inr x) f = f x"
  by (simp_all add: and_then_def)

end
