(* ===== verification/Timer.thy ===== *)
theory Timer
  imports Ltp_Prelude
begin

text \<open>
  The time arithmetic of \<open>include/tst_timer.h\<close>: conversions between seconds with a fraction and
  counts of nano-, micro- and milliseconds, sums, differences and comparison of times.

  The target is one where \<open>long\<close> has 64 bits. There the three members of the union in \<open>struct tst_ts\<close>
  have the same layout, so the union is one \<open>timespec\<close>. The type is one of the three enumerators, so
  the default branches of the functions on \<open>struct tst_ts\<close> are not reached; those of the functions on
  interval timers are, by the type for libc. Every sum and product is computed in
  \<open>long long\<close>, with its wrap-around. The one-line wrappers around system calls are not modelled.
\<close>

section \<open>Data\<close>

record timeval =
  tval_sec :: int
  tv_usec :: int

record timespec =
  tv_sec :: int
  tv_nsec :: int

datatype tst_ts_type = TST_LIBC_TIMESPEC | TST_KERN_OLD_TIMESPEC | TST_KERN_TIMESPEC

record tst_ts =
  ts_type :: tst_ts_type
  ts_ts :: timespec

record tst_its =
  its_type :: tst_ts_type
  it_interval :: timespec
  it_value :: timespec

text \<open>An initialiser that names the type only.\<close>

definition init_ts :: "tst_ts_type \<Rightarrow> tst_ts" where
  "init_ts ty = \<lparr>ts_type = ty, ts_ts = \<lparr>tv_sec = 0, tv_nsec = 0\<rparr>\<rparr>"

section \<open>struct timeval\<close>

definition tst_timeval_to_us :: "timeval \<Rightarrow> int" where
  "tst_timeval_to_us t = c_long (c_long (tval_sec t * 1000000) + tv_usec t)"

definition tst_timeval_to_ms :: "timeval \<Rightarrow> int" where
  "tst_timeval_to_ms t = c_long (c_long (tval_sec t * 1000) + c_div (c_long (tv_usec t + 500)) 1000)"

definition tst_ms_to_timeval :: "int \<Rightarrow> timeval" where
  "tst_ms_to_timeval ms = \<lparr>tval_sec = c_div ms 1000, tv_usec = c_mod ms 1000 * 1000\<rparr>"

definition tst_us_to_timeval :: "int \<Rightarrow> timeval" where
  "tst_us_to_timeval us = \<lparr>tval_sec = c_div us 1000000, tv_usec = c_mod us 1000000\<rparr>"

definition tst_timeval_diff :: "timeval \<Rightarrow> timeval \<Rightarrow> timeval" where
  "tst_timeval_diff t1 t2 =
     (let s = c_long (tval_sec t1 - tval_sec t2) in
      if tv_usec t1 < tv_usec t2
      then \<lparr>tval_sec = c_long (s - 1), tv_usec = c_long (1000000 - c_long (tv_usec t2 - tv_usec t1))\<rparr>
      else \<lparr>tval_sec = s, tv_usec = c_long (tv_usec t1 - tv_usec t2)\<rparr>)"

definition tst_timeval_diff_us :: "timeval \<Rightarrow> timeval \<Rightarrow> int" where
  "tst_timeval_diff_us t1 t2 = tst_timeval_to_us (tst_timeval_diff t1 t2)"

definition tst_timeval_diff_ms :: "timeval \<Rightarrow> timeval \<Rightarrow> int" where
  "tst_timeval_diff_ms t1 t2 = tst_timeval_to_ms (tst_timeval_diff t1 t2)"

section \<open>Access to the parts\<close>

text \<open>\<open>NULL\<close> is \<^term>\<open>None\<close>; a pointer to a member of the union is the member.\<close>

definition tst_ts_get :: "tst_ts option \<Rightarrow> timespec option" where
  "tst_ts_get t = (case t of None \<Rightarrow> None | Some t \<Rightarrow> Some (ts_ts t))"

definition invalid_type :: "tst_ts_type \<Rightarrow> failure + 'a" where
  "invalid_type ty = Inl (Brk (''Invalid type: '' @ (case ty of TST_LIBC_TIMESPEC \<Rightarrow> ''0''
     | TST_KERN_OLD_TIMESPEC \<Rightarrow> ''1'' | TST_KERN_TIMESPEC \<Rightarrow> ''2'')))"

definition tst_its_get :: "tst_its option \<Rightarrow> failure + (timespec \<times> timespec) option" where
  "tst_its_get t = (case t of None \<Rightarrow> Inr None
     | Some t \<Rightarrow> (if its_type t = TST_LIBC_TIMESPEC then invalid_type (its_type t) else Inr (Some (it_interval t, it_value t))))"

definition tst_ts_get_sec :: "tst_ts \<Rightarrow> int" where
  "tst_ts_get_sec t = tv_sec (ts_ts t)"

definition tst_ts_get_nsec :: "tst_ts \<Rightarrow> int" where
  "tst_ts_get_nsec t = tv_nsec (ts_ts t)"

definition tst_ts_set_sec :: "tst_ts \<Rightarrow> int \<Rightarrow> tst_ts" where
  "tst_ts_set_sec t s = t\<lparr>ts_ts := (ts_ts t)\<lparr>tv_sec := s\<rparr>\<rparr>"

definition tst_ts_set_nsec :: "tst_ts \<Rightarrow> int \<Rightarrow> tst_ts" where
  "tst_ts_set_nsec t n = t\<lparr>ts_ts := (ts_ts t)\<lparr>tv_nsec := n\<rparr>\<rparr>"

text \<open>An interval timer has no libc variant: with that type every access ends the test.\<close>

definition its_read :: "(tst_its \<Rightarrow> int) \<Rightarrow> tst_its \<Rightarrow> failure + int" where
  "its_read f its = (if its_type its = TST_LIBC_TIMESPEC then invalid_type (its_type its) else Inr (f its))"

definition its_write :: "(tst_its \<Rightarrow> tst_its) \<Rightarrow> tst_its \<Rightarrow> failure + tst_its" where
  "its_write f its = (if its_type its = TST_LIBC_TIMESPEC then invalid_type (its_type its) else Inr (f its))"

definition tst_its_get_interval_sec :: "tst_its \<Rightarrow> failure + int" where
  "tst_its_get_interval_sec = its_read (\<lambda>its. tv_sec (it_interval its))"

definition tst_its_get_interval_nsec :: "tst_its \<Rightarrow> failure + int" where
  "tst_its_get_interval_nsec = its_read (\<lambda>its. tv_nsec (it_interval its))"

definition tst_its_set_interval_sec :: "int \<Rightarrow> tst_its \<Rightarrow> failure + tst_its" where
  "tst_its_set_interval_sec s = its_write (\<lambda>its. its\<lparr>it_interval := (it_interval its)\<lparr>tv_sec := s\<rparr>\<rparr>)"

definition tst_its_set_interval_nsec :: "int \<Rightarrow> tst_its \<Rightarrow> failure + tst_its" where
  "tst_its_set_interval_nsec n = its_write (\<lambda>its. its\<lparr>it_interval := (it_interval its)\<lparr>tv_nsec := n\<rparr>\<rparr>)"

definition tst_its_get_value_sec :: "tst_its \<Rightarrow> failure + int" where
  "tst_its_get_value_sec = its_read (\<lambda>its. tv_sec (it_value its))"

definition tst_its_get_value_nsec :: "tst_its \<Rightarrow> failure + int" where
  "tst_its_get_value_nsec = its_read (\<lambda>its. tv_nsec (it_value its))"

definition tst_its_set_value_sec :: "int \<Rightarrow> tst_its \<Rightarrow> failure + tst_its" where
  "tst_its_set_value_sec s = its_write (\<lambda>its. its\<lparr>it_value := (it_value its)\<lparr>tv_sec := s\<rparr>\<rparr>)"

definition tst_its_set_value_nsec :: "int \<Rightarrow> tst_its \<Rightarrow> failure + tst_its" where
  "tst_its_set_value_nsec n = its_write (\<lambda>its. its\<lparr>it_value := (it_value its)\<lparr>tv_nsec := n\<rparr>\<rparr>)"

section \<open>Conversions\<close>

definition tst_ts_valid :: "tst_ts \<Rightarrow> int" where
  "tst_ts_valid t = (let nsec = tst_ts_get_nsec t in
     if nsec < 0 \<or> 1000000000 \<le> nsec then -2
     else if tst_ts_get_sec t = 0 \<and> tst_ts_get_nsec t = 0 then -1
     else 0)"

definition tst_ts_from_timespec :: "timespec \<Rightarrow> tst_ts" where
  "tst_ts_from_timespec t = \<lparr>ts_type = TST_LIBC_TIMESPEC, ts_ts = \<lparr>tv_sec = tv_sec t, tv_nsec = tv_nsec t\<rparr>\<rparr>"

definition tst_ts_to_timespec :: "tst_ts \<Rightarrow> timespec" where
  "tst_ts_to_timespec t = ts_ts t"

definition tst_ts_to_ns :: "tst_ts \<Rightarrow> int" where
  "tst_ts_to_ns t = c_long (c_long (tst_ts_get_sec t * 1000000000) + tst_ts_get_nsec t)"

definition tst_ts_to_us :: "tst_ts \<Rightarrow> int" where
  "tst_ts_to_us t = c_long (c_long (tst_ts_get_sec t * 1000000) + c_div (c_long (tst_ts_get_nsec t + 500)) 1000)"

definition tst_timespec_to_us :: "timespec \<Rightarrow> int" where
  "tst_timespec_to_us t = tst_ts_to_us (tst_ts_from_timespec t)"

definition tst_ts_to_ms :: "tst_ts \<Rightarrow> int" where
  "tst_ts_to_ms t = c_long (c_long (tst_ts_get_sec t * 1000) + c_div (c_long (tst_ts_get_nsec t + 500000)) 1000000)"

definition tst_timespec_to_ms :: "timespec \<Rightarrow> int" where
  "tst_timespec_to_ms t = tst_ts_to_ms (tst_ts_from_timespec t)"

definition tst_ts_from_ns :: "tst_ts_type \<Rightarrow> int \<Rightarrow> tst_ts" where
  "tst_ts_from_ns ty ns = tst_ts_set_nsec (tst_ts_set_sec (init_ts ty) (c_div ns 1000000000)) (c_mod ns 1000000000)"

definition tst_ts_from_us :: "tst_ts_type \<Rightarrow> int \<Rightarrow> tst_ts" where
  "tst_ts_from_us ty us = tst_ts_set_nsec (tst_ts_set_sec (init_ts ty) (c_div us 1000000)) (c_mod us 1000000 * 1000)"

definition tst_timespec_from_us :: "int \<Rightarrow> timespec" where
  "tst_timespec_from_us us = tst_ts_to_timespec (tst_ts_from_us TST_LIBC_TIMESPEC us)"

definition tst_ts_from_ms :: "tst_ts_type \<Rightarrow> int \<Rightarrow> tst_ts" where
  "tst_ts_from_ms ty ms = tst_ts_set_nsec (tst_ts_set_sec (init_ts ty) (c_div ms 1000)) (c_mod ms 1000 * 1000000)"

definition tst_timespec_from_ms :: "int \<Rightarrow> timespec" where
  "tst_timespec_from_ms ms = tst_ts_to_timespec (tst_ts_from_ms TST_LIBC_TIMESPEC ms)"

definition tst_its_set_interval_from_us :: "tst_its \<Rightarrow> int \<Rightarrow> failure + tst_its" where
  "tst_its_set_interval_from_us its usec = (let tp = tst_timespec_from_us usec in
     and_then (tst_its_set_interval_sec (tv_sec tp) its) (tst_its_set_interval_nsec (tv_nsec tp)))"

definition tst_its_set_value_from_us :: "tst_its \<Rightarrow> int \<Rightarrow> failure + tst_its" where
  "tst_its_set_value_from_us its usec = (let tp = tst_timespec_from_us usec in
     and_then (tst_its_set_value_sec (tv_sec tp) its) (tst_its_set_value_nsec (tv_nsec tp)))"

definition tst_its_set_interval_from_ts :: "tst_its \<Rightarrow> tst_ts \<Rightarrow> failure + tst_its" where
  "tst_its_set_interval_from_ts its t =
     and_then (tst_its_set_interval_sec (tst_ts_get_sec t) its) (tst_its_set_interval_nsec (tst_ts_get_nsec t))"

definition tst_its_set_value_from_ts :: "tst_its \<Rightarrow> tst_ts \<Rightarrow> failure + tst_its" where
  "tst_its_set_value_from_ts its t =
     and_then (tst_its_set_value_sec (tst_ts_get_sec t) its) (tst_its_set_value_nsec (tst_ts_get_nsec t))"

section \<open>Comparison and arithmetic\<close>

definition tst_ts_lt :: "tst_ts \<Rightarrow> tst_ts \<Rightarrow> bool" where
  "tst_ts_lt t1 t2 = (if tst_ts_get_sec t1 = tst_ts_get_sec t2 then tst_ts_get_nsec t1 < tst_ts_get_nsec t2
     else tst_ts_get_sec t1 < tst_ts_get_sec t2)"

definition tst_timespec_lt :: "timespec \<Rightarrow> timespec \<Rightarrow> bool" where
  "tst_timespec_lt ts1 ts2 = tst_ts_lt (tst_ts_from_timespec ts1) (tst_ts_from_timespec ts2)"

definition tst_ts_normalize :: "tst_ts \<Rightarrow> tst_ts" where
  "tst_ts_normalize t =
     (let s = tst_ts_get_sec t; nsec = tst_ts_get_nsec t;
          t = (if 1000000000 \<le> nsec then tst_ts_set_nsec (tst_ts_set_sec t (c_long (s + 1))) (nsec - 1000000000) else t) in
      if nsec < 0 then tst_ts_set_nsec (tst_ts_set_sec t (c_long (s - 1))) (nsec + 1000000000) else t)"

definition tst_ts_add_us :: "tst_ts \<Rightarrow> int \<Rightarrow> tst_ts" where
  "tst_ts_add_us t us = tst_ts_normalize
     (tst_ts_set_nsec (tst_ts_set_sec (init_ts (ts_type t)) (c_long (tst_ts_get_sec t + c_div us 1000000)))
       (c_long (tst_ts_get_nsec t + c_mod us 1000000 * 1000)))"

definition tst_timespec_add_us :: "timespec \<Rightarrow> int \<Rightarrow> timespec" where
  "tst_timespec_add_us t us = tst_ts_to_timespec (tst_ts_add_us (tst_ts_from_timespec t) us)"

definition tst_ts_sub_us :: "tst_ts \<Rightarrow> int \<Rightarrow> tst_ts" where
  "tst_ts_sub_us t us = tst_ts_normalize
     (tst_ts_set_nsec (tst_ts_set_sec (init_ts (ts_type t)) (c_long (tst_ts_get_sec t - c_div us 1000000)))
       (c_long (tst_ts_get_nsec t - c_mod us 1000000 * 1000)))"

definition tst_timespec_sub_us :: "timespec \<Rightarrow> int \<Rightarrow> timespec" where
  "tst_timespec_sub_us t us = tst_ts_to_timespec (tst_ts_sub_us (tst_ts_from_timespec t) us)"

definition tst_ts_add :: "tst_ts \<Rightarrow> tst_ts \<Rightarrow> tst_ts" where
  "tst_ts_add t1 t2 = tst_ts_normalize
     (tst_ts_set_nsec (tst_ts_set_sec (init_ts (ts_type t1)) (c_long (tst_ts_get_sec t1 + tst_ts_get_sec t2)))
       (c_long (tst_ts_get_nsec t1 + tst_ts_get_nsec t2)))"

definition tst_timespec_add :: "timespec \<Rightarrow> timespec \<Rightarrow> timespec" where
  "tst_timespec_add ts1 ts2 = tst_ts_to_timespec (tst_ts_add (tst_ts_from_timespec ts1) (tst_ts_from_timespec ts2))"

definition tst_ts_diff :: "tst_ts \<Rightarrow> tst_ts \<Rightarrow> tst_ts" where
  "tst_ts_diff t1 t2 = tst_ts_normalize
     (tst_ts_set_nsec (tst_ts_set_sec (init_ts (ts_type t1)) (c_long (tst_ts_get_sec t1 - tst_ts_get_sec t2)))
       (c_long (tst_ts_get_nsec t1 - tst_ts_get_nsec t2)))"

definition tst_timespec_diff :: "timespec \<Rightarrow> timespec \<Rightarrow> timespec" where
  "tst_timespec_diff ts1 ts2 = tst_ts_to_timespec (tst_ts_diff (tst_ts_from_timespec ts1) (tst_ts_from_timespec ts2))"

definition tst_ts_diff_ns :: "tst_ts \<Rightarrow> tst_ts \<Rightarrow> int" where
  "tst_ts_diff_ns t1 t2 = tst_ts_to_ns (tst_ts_diff t1 t2)"

definition tst_timespec_diff_ns :: "timespec \<Rightarrow> timespec \<Rightarrow> int" where
  "tst_timespec_diff_ns ts1 ts2 = tst_ts_diff_ns (tst_ts_from_timespec ts1) (tst_ts_from_timespec ts2)"

definition tst_ts_diff_us :: "tst_ts \<Rightarrow> tst_ts \<Rightarrow> int" where
  "tst_ts_diff_us t1 t2 = tst_ts_to_us (tst_ts_diff t1 t2)"

definition tst_timespec_diff_us :: "timespec \<Rightarrow> timespec \<Rightarrow> int" where
  "tst_timespec_diff_us ts1 ts2 = tst_ts_diff_us (tst_ts_from_timespec ts1) (tst_ts_from_timespec ts2)"

definition tst_ts_diff_ms :: "tst_ts \<Rightarrow> tst_ts \<Rightarrow> int" where
  "tst_ts_diff_ms t1 t2 = tst_ts_to_ms (tst_ts_diff t1 t2)"

definition tst_timespec_diff_ms :: "timespec \<Rightarrow> timespec \<Rightarrow> int" where
  "tst_timespec_diff_ms ts1 ts2 = tst_ts_diff_ms (tst_ts_from_timespec ts1) (tst_ts_from_timespec ts2)"

definition tst_ts_abs_diff :: "tst_ts \<Rightarrow> tst_ts \<Rightarrow> tst_ts" where
  "tst_ts_abs_diff t1 t2 = (if tst_ts_lt t1 t2 then tst_ts_diff t2 t1 else tst_ts_diff t1 t2)"

definition tst_ts_abs_diff_us :: "tst_ts \<Rightarrow> tst_ts \<Rightarrow> int" where
  "tst_ts_abs_diff_us t1 t2 = tst_ts_to_us (tst_ts_abs_diff t1 t2)"

definition tst_timespec_abs_diff_us :: "timespec \<Rightarrow> timespec \<Rightarrow> int" where
  "tst_timespec_abs_diff_us ts1 ts2 = tst_ts_abs_diff_us (tst_ts_from_timespec ts1) (tst_ts_from_timespec ts2)"

definition tst_ts_abs_diff_ms :: "tst_ts \<Rightarrow> tst_ts \<Rightarrow> int" where
  "tst_ts_abs_diff_ms t1 t2 = tst_ts_to_ms (tst_ts_abs_diff t1 t2)"

section \<open>Times as counts of nanoseconds\<close>

text \<open>
  The specification: a time is its number of nanoseconds. A time is well-formed when its fraction is
  normalised and the count fits into a \<open>long long\<close>, which holds for about 292 years.
\<close>

definition ns_of :: "timespec \<Rightarrow> int" where
  "ns_of t = tv_sec t * 1000000000 + tv_nsec t"

definition NS_LIMIT :: int where "NS_LIMIT = 9223372035000000000"

definition time_ok :: "timespec \<Rightarrow> bool" where
  "time_ok t \<longleftrightarrow> 0 \<le> tv_nsec t \<and> tv_nsec t < 1000000000 \<and> \<bar>ns_of t\<bar> \<le> NS_LIMIT"

lemmas ts_access = tst_ts_get_sec_def tst_ts_get_nsec_def tst_ts_set_sec_def tst_ts_set_nsec_def init_ts_def

text \<open>What the functions on times promise to the code that measures with them.\<close>

locale clock_arith =
  fixes ns :: "'t \<Rightarrow> int" and ok :: "'t \<Rightarrow> bool" and add diff :: "'t \<Rightarrow> 't \<Rightarrow> 't"
    and lt :: "'t \<Rightarrow> 't \<Rightarrow> bool" and limit :: int
  assumes ok_limit: "ok a \<Longrightarrow> \<bar>ns a\<bar> \<le> limit"
    and ns_inj: "ok a \<Longrightarrow> ok b \<Longrightarrow> ns a = ns b \<Longrightarrow> a = b"
    and add_ns: "ok a \<Longrightarrow> ok b \<Longrightarrow> \<bar>ns a + ns b\<bar> \<le> limit \<Longrightarrow> ok (add a b) \<and> ns (add a b) = ns a + ns b"
    and diff_ns: "ok a \<Longrightarrow> ok b \<Longrightarrow> \<bar>ns a - ns b\<bar> \<le> limit \<Longrightarrow> ok (diff a b) \<and> ns (diff a b) = ns a - ns b"
    and lt_ns: "ok a \<Longrightarrow> ok b \<Longrightarrow> lt a b \<longleftrightarrow> ns a < ns b"
begin

lemma shift_ns:
  assumes "ok r" "ok e" "ok b" "\<bar>ns e - ns b\<bar> \<le> limit" "\<bar>ns r + (ns e - ns b)\<bar> \<le> limit"
  shows "ok (add r (diff e b)) \<and> ns (add r (diff e b)) = ns r + (ns e - ns b)"
  using diff_ns [OF assms(2-4)] add_ns [OF assms(1)] assms(5) by simp

lemma diff_add_cancel:
  assumes "ok a" "ok b" "\<bar>ns a - ns b\<bar> \<le> limit"
  shows "add b (diff a b) = a"
  using shift_ns [OF assms(2,1,2,3)] assms ok_limit [of a] ns_inj by simp

lemma lt_trichotomy: "ok a \<Longrightarrow> ok b \<Longrightarrow> \<not> lt a b \<Longrightarrow> \<not> lt b a \<Longrightarrow> a = b"
  using lt_ns ns_inj by (meson not_less_iff_gr_or_eq)

lemma abs_diff_ns:
  assumes "ok a" "ok b" "\<bar>ns a - ns b\<bar> \<le> limit"
  shows "ok (if lt a b then diff b a else diff a b) \<and> ns (if lt a b then diff b a else diff a b) = \<bar>ns a - ns b\<bar>"
  using diff_ns [of a b] diff_ns [of b a] assms lt_ns [of a b] by (auto simp: abs_minus_commute)

end

lemma time_ok_sec:
  assumes "time_ok t"
  shows "- 9223372035 - 1 \<le> tv_sec t" "tv_sec t \<le> 9223372035"
  using assms unfolding time_ok_def ns_of_def NS_LIMIT_def by linarith+

lemma normalize_ns:
  assumes "- 1000000000 < n" "n < 2 * 1000000000" "\<bar>s * 1000000000 + n\<bar> \<le> NS_LIMIT"
  shows "ts_type (tst_ts_normalize \<lparr>ts_type = ty, ts_ts = \<lparr>tv_sec = s, tv_nsec = n\<rparr>\<rparr>) = ty
    \<and> time_ok (ts_ts (tst_ts_normalize \<lparr>ts_type = ty, ts_ts = \<lparr>tv_sec = s, tv_nsec = n\<rparr>\<rparr>))
    \<and> ns_of (ts_ts (tst_ts_normalize \<lparr>ts_type = ty, ts_ts = \<lparr>tv_sec = s, tv_nsec = n\<rparr>\<rparr>)) = s * 1000000000 + n"
proof -
  have "- 10000000000 < s" "s < 10000000000" using assms unfolding NS_LIMIT_def by linarith+
  then show ?thesis
    using assms by (simp add: tst_ts_normalize_def Let_def ts_access time_ok_def ns_of_def c_simps algebra_simps)
qed

text \<open>A result of an operation on \<open>t\<close> that stands for a number of nanoseconds.\<close>

definition time_result :: "tst_ts \<Rightarrow> int \<Rightarrow> tst_ts \<Rightarrow> bool" where
  "time_result t v r \<longleftrightarrow> ts_type r = ts_type t \<and> time_ok (ts_ts r) \<and> ns_of (ts_ts r) = v"

text \<open>The four operations build a time with the type of the first operand and normalise it.\<close>

lemma combine_ns:
  assumes "- 1000000000 < n" "n < 2 * 1000000000" "\<bar>s * 1000000000 + n\<bar> \<le> NS_LIMIT"
    and "r = tst_ts_normalize (tst_ts_set_nsec (tst_ts_set_sec (init_ts ty) (c_long s)) (c_long n))"
  shows "ts_type r = ty \<and> time_ok (ts_ts r) \<and> ns_of (ts_ts r) = s * 1000000000 + n"
proof -
  have "c_long s = s" "c_long n = n" using assms(1-3) unfolding NS_LIMIT_def by (intro c_long_id; linarith)+
  then show ?thesis using normalize_ns [OF assms(1-3), of ty] assms(4) by (simp add: ts_access)
qed

lemma add_ns_of:
  assumes "time_ok (ts_ts a)" "time_ok (ts_ts b)" "\<bar>ns_of (ts_ts a) + ns_of (ts_ts b)\<bar> \<le> NS_LIMIT"
  shows "time_result a (ns_of (ts_ts a) + ns_of (ts_ts b)) (tst_ts_add a b)"
  using combine_ns [of "tv_nsec (ts_ts a) + tv_nsec (ts_ts b)" "tv_sec (ts_ts a) + tv_sec (ts_ts b)" "tst_ts_add a b" "ts_type a"] assms
  by (simp add: tst_ts_add_def time_ok_def ns_of_def time_result_def algebra_simps tst_ts_get_sec_def tst_ts_get_nsec_def)

lemma diff_ns_of:
  assumes "time_ok (ts_ts a)" "time_ok (ts_ts b)" "\<bar>ns_of (ts_ts a) - ns_of (ts_ts b)\<bar> \<le> NS_LIMIT"
  shows "time_result a (ns_of (ts_ts a) - ns_of (ts_ts b)) (tst_ts_diff a b)"
  using combine_ns [of "tv_nsec (ts_ts a) - tv_nsec (ts_ts b)" "tv_sec (ts_ts a) - tv_sec (ts_ts b)" "tst_ts_diff a b" "ts_type a"] assms
  by (simp add: tst_ts_diff_def time_ok_def ns_of_def time_result_def algebra_simps tst_ts_get_sec_def tst_ts_get_nsec_def)

lemma ns_of_inj: "time_ok s \<Longrightarrow> time_ok t \<Longrightarrow> ns_of s = ns_of t \<Longrightarrow> s = t"
proof -
  assume "time_ok s" "time_ok t" "ns_of s = ns_of t"
  note eqs = this [unfolded time_ok_def ns_of_def]
  have sec: "tv_sec s = tv_sec t" using eqs by linarith
  with eqs have "tv_nsec s = tv_nsec t" by simp
  with sec show "s = t" by (simp add: timespec.equality)
qed

lemma lt_ns_of: "time_ok (ts_ts a) \<Longrightarrow> time_ok (ts_ts b) \<Longrightarrow> tst_ts_lt a b \<longleftrightarrow> ns_of (ts_ts a) < ns_of (ts_ts b)"
  unfolding tst_ts_lt_def tst_ts_get_sec_def tst_ts_get_nsec_def time_ok_def ns_of_def by (simp split: if_split; linarith)

lemmas timespec_defs = tst_timespec_add_def tst_timespec_diff_def tst_timespec_lt_def tst_ts_to_timespec_def

lemma from_timespec [simp]: "ts_ts (tst_ts_from_timespec t) = t" "ts_type (tst_ts_from_timespec t) = TST_LIBC_TIMESPEC"
  by (simp_all add: tst_ts_from_timespec_def)

interpretation tsp: clock_arith ns_of time_ok tst_timespec_add tst_timespec_diff tst_timespec_lt NS_LIMIT
proof
  fix a b :: timespec
  assume ok: "time_ok a" "time_ok b"
  let ?a = "tst_ts_from_timespec a" and ?b = "tst_ts_from_timespec b"
  show "time_ok (tst_timespec_add a b) \<and> ns_of (tst_timespec_add a b) = ns_of a + ns_of b" if "\<bar>ns_of a + ns_of b\<bar> \<le> NS_LIMIT"
    using add_ns_of [of ?a ?b] ok that by (simp add: timespec_defs time_result_def)
  show "time_ok (tst_timespec_diff a b) \<and> ns_of (tst_timespec_diff a b) = ns_of a - ns_of b" if "\<bar>ns_of a - ns_of b\<bar> \<le> NS_LIMIT"
    using diff_ns_of [of ?a ?b] ok that by (simp add: timespec_defs time_result_def)
  show "tst_timespec_lt a b \<longleftrightarrow> ns_of a < ns_of b"
    using lt_ns_of [of ?a ?b] ok by (simp add: timespec_defs)
qed (auto simp: time_ok_def intro: ns_of_inj [unfolded time_ok_def])

interpretation tts: clock_arith "\<lambda>t. ns_of (ts_ts t)" "\<lambda>t. ts_type t = ty \<and> time_ok (ts_ts t)" tst_ts_add tst_ts_diff tst_ts_lt NS_LIMIT
  for ty
proof
  fix a b :: tst_ts
  assume ok: "ts_type a = ty \<and> time_ok (ts_ts a)" "ts_type b = ty \<and> time_ok (ts_ts b)"
  show "(ts_type (tst_ts_add a b) = ty \<and> time_ok (ts_ts (tst_ts_add a b)))
      \<and> ns_of (ts_ts (tst_ts_add a b)) = ns_of (ts_ts a) + ns_of (ts_ts b)" if "\<bar>ns_of (ts_ts a) + ns_of (ts_ts b)\<bar> \<le> NS_LIMIT"
    using add_ns_of [of a b] ok that by (simp add: time_result_def)
  show "(ts_type (tst_ts_diff a b) = ty \<and> time_ok (ts_ts (tst_ts_diff a b)))
      \<and> ns_of (ts_ts (tst_ts_diff a b)) = ns_of (ts_ts a) - ns_of (ts_ts b)" if "\<bar>ns_of (ts_ts a) - ns_of (ts_ts b)\<bar> \<le> NS_LIMIT"
    using diff_ns_of [of a b] ok that by (simp add: time_result_def)
  show "a = b" if "ns_of (ts_ts a) = ns_of (ts_ts b)"
    using ns_of_inj [of "ts_ts a" "ts_ts b"] ok that by (simp add: tst_ts.equality)
qed (auto simp: time_ok_def lt_ns_of)

text \<open>Microseconds are added as whole seconds and a rest, both with the sign of the count.\<close>

lemma us_parts: "c_div us 1000000 * 1000000000 + c_mod us 1000000 * 1000 = us * 1000"
  "- 1000000 < c_mod us 1000000" "c_mod us 1000000 < 1000000"
proof -
  show "c_div us 1000000 * 1000000000 + c_mod us 1000000 * 1000 = us * 1000"
    using c_div_mod [of us 1000000] by linarith
  show "- 1000000 < c_mod us 1000000" "c_mod us 1000000 < 1000000"
  proof -
    have r: "c_mod x 1000000 < 1000000" "0 \<le> c_mod x 1000000" if "0 \<le> x" for x :: int
      using that by (simp_all add: c_mod_nonneg)
    show "- 1000000 < c_mod us 1000000" using r [of us] r [of "- us"] c_mod_minus [of us 1000000] by linarith
    show "c_mod us 1000000 < 1000000" using r [of us] r [of "- us"] c_mod_minus [of us 1000000] by linarith
  qed
qed

lemma add_us_ns_of:
  assumes "time_ok (ts_ts a)" "\<bar>ns_of (ts_ts a) + us * 1000\<bar> \<le> NS_LIMIT"
  shows "time_result a (ns_of (ts_ts a) + us * 1000) (tst_ts_add_us a us)"
proof -
  let ?s = "tv_sec (ts_ts a) + c_div us 1000000" and ?n = "tv_nsec (ts_ts a) + c_mod us 1000000 * 1000"
  have v: "?s * 1000000000 + ?n = ns_of (ts_ts a) + us * 1000" using us_parts(1) [of us] by (simp add: ns_of_def algebra_simps)
  have n: "- 1000000000 < ?n" "?n < 2 * 1000000000"
    using assms(1) us_parts(2,3) [of us] unfolding time_ok_def by linarith+
  from combine_ns [OF n] v assms(2) show ?thesis by (simp add: time_result_def tst_ts_add_us_def tst_ts_get_sec_def tst_ts_get_nsec_def)
qed

lemma sub_us_ns_of:
  assumes "time_ok (ts_ts a)" "\<bar>ns_of (ts_ts a) - us * 1000\<bar> \<le> NS_LIMIT"
  shows "time_result a (ns_of (ts_ts a) - us * 1000) (tst_ts_sub_us a us)"
proof -
  have "tst_ts_sub_us a us = tst_ts_add_us a (- us)"
    by (simp add: tst_ts_sub_us_def tst_ts_add_us_def c_div_minus c_mod_minus)
  then show ?thesis using add_us_ns_of [of a "- us"] assms by simp
qed

text \<open>C28: Sums and differences of times, and sums and differences of a time and a number of
  microseconds of either sign, are exact, normalised and have the type of the first operand, as long
  as the result fits.\<close>
theorem ts_arithmetic:
  assumes "time_ok (ts_ts a)" "time_ok (ts_ts b)"
  shows "(\<bar>ns_of (ts_ts a) + ns_of (ts_ts b)\<bar> \<le> NS_LIMIT \<longrightarrow> time_result a (ns_of (ts_ts a) + ns_of (ts_ts b)) (tst_ts_add a b))
    \<and> (\<bar>ns_of (ts_ts a) - ns_of (ts_ts b)\<bar> \<le> NS_LIMIT \<longrightarrow> time_result a (ns_of (ts_ts a) - ns_of (ts_ts b)) (tst_ts_diff a b))
    \<and> (\<bar>ns_of (ts_ts a) + us * 1000\<bar> \<le> NS_LIMIT \<longrightarrow> time_result a (ns_of (ts_ts a) + us * 1000) (tst_ts_add_us a us))
    \<and> (\<bar>ns_of (ts_ts a) - us * 1000\<bar> \<le> NS_LIMIT \<longrightarrow> time_result a (ns_of (ts_ts a) - us * 1000) (tst_ts_sub_us a us))"
  using assms by (simp add: add_ns_of diff_ns_of add_us_ns_of sub_us_ns_of)

text \<open>One second and a half minus two seconds, in the type of the first.\<close>

theorem ts_arithmetic_witness:
  "time_result \<lparr>ts_type = TST_KERN_TIMESPEC, ts_ts = \<lparr>tv_sec = 1, tv_nsec = 500000000\<rparr>\<rparr> (- 500000000)
     (tst_ts_diff \<lparr>ts_type = TST_KERN_TIMESPEC, ts_ts = \<lparr>tv_sec = 1, tv_nsec = 500000000\<rparr>\<rparr>
       \<lparr>ts_type = TST_LIBC_TIMESPEC, ts_ts = \<lparr>tv_sec = 2, tv_nsec = 0\<rparr>\<rparr>)"
  using ts_arithmetic [of "\<lparr>ts_type = TST_KERN_TIMESPEC, ts_ts = \<lparr>tv_sec = 1, tv_nsec = 500000000\<rparr>\<rparr>"
      "\<lparr>ts_type = TST_LIBC_TIMESPEC, ts_ts = \<lparr>tv_sec = 2, tv_nsec = 0\<rparr>\<rparr>" 0]
  by (simp add: time_ok_def ns_of_def NS_LIMIT_def)

section \<open>Measuring\<close>

lemma to_ns_eq: "time_ok (ts_ts t) \<Longrightarrow> tst_ts_to_ns t = ns_of (ts_ts t)"
  using time_ok_sec [of "ts_ts t"]
  by (simp add: tst_ts_to_ns_def tst_ts_get_sec_def tst_ts_get_nsec_def time_ok_def ns_of_def NS_LIMIT_def c_simps)

lemma to_us_eq: "time_ok (ts_ts t) \<Longrightarrow> tst_ts_to_us t = (ns_of (ts_ts t) + 500) div 1000"
proof -
  assume t: "time_ok (ts_ts t)"
  let ?s = "tv_sec (ts_ts t)" and ?n = "tv_nsec (ts_ts t)"
  have "0 \<le> ?n" "?n < 1000000000" using t by (simp_all add: time_ok_def)
  moreover from this have "0 \<le> (?n + 500) div 1000" "(?n + 500) div 1000 \<le> 1000000" by linarith+
  ultimately have "tst_ts_to_us t = ?s * 1000000 + (?n + 500) div 1000"
    using time_ok_sec [OF t] by (simp add: tst_ts_to_us_def tst_ts_get_sec_def tst_ts_get_nsec_def c_simps)
  also have "\<dots> = (?n + 500 + 1000 * (?s * 1000000)) div 1000" by simp
  finally show ?thesis by (simp add: ns_of_def algebra_simps)
qed

lemma to_ms_eq: "time_ok (ts_ts t) \<Longrightarrow> tst_ts_to_ms t = (ns_of (ts_ts t) + 500000) div 1000000"
proof -
  assume t: "time_ok (ts_ts t)"
  let ?s = "tv_sec (ts_ts t)" and ?n = "tv_nsec (ts_ts t)"
  have "0 \<le> ?n" "?n < 1000000000" using t by (simp_all add: time_ok_def)
  moreover from this have "0 \<le> (?n + 500000) div 1000000" "(?n + 500000) div 1000000 \<le> 1000" by linarith+
  ultimately have "tst_ts_to_ms t = ?s * 1000 + (?n + 500000) div 1000000"
    using time_ok_sec [OF t] by (simp add: tst_ts_to_ms_def tst_ts_get_sec_def tst_ts_get_nsec_def c_simps)
  also have "\<dots> = (?n + 500000 + 1000000 * (?s * 1000)) div 1000000" by simp
  finally show ?thesis by (simp add: ns_of_def algebra_simps)
qed

lemma abs_diff_ns_of:
  assumes "time_ok (ts_ts a)" "time_ok (ts_ts b)" "\<bar>ns_of (ts_ts a) - ns_of (ts_ts b)\<bar> \<le> NS_LIMIT"
  shows "time_ok (ts_ts (tst_ts_abs_diff a b)) \<and> ns_of (ts_ts (tst_ts_abs_diff a b)) = \<bar>ns_of (ts_ts a) - ns_of (ts_ts b)\<bar>"
  using diff_ns_of [OF assms] diff_ns_of [OF assms(2,1)] assms(3) lt_ns_of [OF assms(1,2)]
  by (auto simp: tst_ts_abs_diff_def time_result_def abs_minus_commute)

text \<open>The comparison is the order of the counts of nanoseconds, and differences are measured to
  the nearest unit, halves upwards: exactly in nanoseconds, within half a unit in micro- and
  milliseconds, also for negative differences and for absolute ones.\<close>
theorem ts_measure:
  assumes "time_ok (ts_ts a)" "time_ok (ts_ts b)" "\<bar>ns_of (ts_ts a) - ns_of (ts_ts b)\<bar> \<le> NS_LIMIT"
  defines "d \<equiv> ns_of (ts_ts a) - ns_of (ts_ts b)"
  shows "tst_ts_lt a b = (d < 0) \<and> tst_ts_diff_ns a b = d
    \<and> tst_ts_diff_us a b = (d + 500) div 1000 \<and> tst_ts_diff_ms a b = (d + 500000) div 1000000
    \<and> tst_ts_abs_diff_us a b = (\<bar>d\<bar> + 500) div 1000 \<and> tst_ts_abs_diff_ms a b = (\<bar>d\<bar> + 500000) div 1000000"
  using diff_ns_of [OF assms(1-3)] abs_diff_ns_of [OF assms(1-3)] lt_ns_of [OF assms(1,2)] unfolding d_def
  by (simp add: time_result_def tst_ts_diff_ns_def tst_ts_diff_us_def tst_ts_diff_ms_def tst_ts_abs_diff_us_def
      tst_ts_abs_diff_ms_def to_ns_eq to_us_eq to_ms_eq)

theorem ts_measure_witness:
  "tst_ts_diff_us (tst_ts_from_timespec \<lparr>tv_sec = 1, tv_nsec = 400\<rparr>) (tst_ts_from_timespec \<lparr>tv_sec = 1, tv_nsec = 1900\<rparr>) = - 1
   \<and> tst_ts_abs_diff_us (tst_ts_from_timespec \<lparr>tv_sec = 1, tv_nsec = 400\<rparr>) (tst_ts_from_timespec \<lparr>tv_sec = 1, tv_nsec = 1900\<rparr>) = 2"
  using ts_measure [of "tst_ts_from_timespec \<lparr>tv_sec = 1, tv_nsec = 400\<rparr>" "tst_ts_from_timespec \<lparr>tv_sec = 1, tv_nsec = 1900\<rparr>"]
  by (simp add: time_ok_def ns_of_def NS_LIMIT_def)

section \<open>Round trips\<close>

lemma c_div_neg: "0 \<le> a \<Longrightarrow> 0 < b \<Longrightarrow> c_div (- a) b = - (a div b)"
  by (simp add: c_div_minus c_div_nonneg)

text \<open>A count of small units, split at \<open>1 s = m\<close> units of \<open>k\<close> nanoseconds and put together with rounding.\<close>

lemma split_round:
  fixes k m x :: int
  assumes "0 < m" "0 < k" "even k"
  shows "c_div x m * m + c_div (c_mod x m * k + k div 2) k = (if x < 0 \<and> x mod m \<noteq> 0 then x + 1 else x)"
proof (cases "x < 0")
  case False
  then show ?thesis using assms by (simp add: c_simps div_mult_self3 algebra_simps)
next
  case True
  define q r where "q = (- x) div m" and "r = (- x) mod m"
  have x: "x = - (q * m + r)" "0 \<le> r" "r < m" using assms by (simp_all add: q_def r_def)
  have c: "c_div x m = - q" "c_mod x m = - r"
    using True assms c_div_minus [of "- x" m] c_mod_minus [of "- x" m] by (simp_all add: c_simps q_def r_def)
  have z: "x mod m = 0 \<longleftrightarrow> r = 0" using assms by (simp add: r_def mod_eq_0_iff_dvd)
  show ?thesis
  proof (cases "r = 0")
    case True
    then show ?thesis using c x z assms by (simp add: c_simps)
  next
    case False
    then have "0 \<le> (r - 1) * k" using x(2) assms(2) by simp
    moreover obtain h where h: "k = 2 * h" "0 < h" using assms(2,3) by auto
    ultimately have "c_div (- ((r - 1) * k + h)) k = - (((r - 1) * k + h) div k)" using assms(2) by (intro c_div_neg) auto
    also have "((r - 1) * k + h) div k = r - 1" using h by simp
    finally have "c_div (c_mod x m * k + k div 2) k = 1 - r" using c(2) h by (simp add: algebra_simps)
    moreover have "c_div x m * m = x + r" using c(1) x(1) by simp
    moreover have "x mod m \<noteq> 0" using z False by simp
    ultimately show ?thesis using True by simp
  qed
qed

lemma c_mod_bound: "0 < m \<Longrightarrow> \<bar>c_mod x m\<bar> < m"
proof -
  assume m: "0 < m"
  have r: "0 \<le> c_mod y m \<and> c_mod y m < m" if "0 \<le> y" for y using m that by (simp add: c_mod_nonneg)
  show ?thesis using r [of x] r [of "- x"] c_mod_minus [of x m] by (cases "0 \<le> x") auto
qed

lemma c_div_bound: "0 < m \<Longrightarrow> \<bar>c_div x m * m\<bar> \<le> \<bar>x\<bar>"
proof -
  assume m: "0 < m"
  have r: "0 \<le> c_div y m * m \<and> c_div y m * m \<le> y" if "0 \<le> y" for y :: int
    using m that div_mult_mod_eq [of y m] pos_mod_sign [OF m, of y] by (simp add: c_div_nonneg pos_imp_zdiv_nonneg_iff; linarith)
  show ?thesis using r [of x] r [of "- x"] c_div_minus [of x m] by (cases "0 \<le> x") auto
qed

text \<open>The conversion through \<open>struct tst_ts\<close> computes the split and the rounding without overflow.\<close>

lemma through_ts:
  fixes k m x :: int
  assumes "0 < m" "0 < k" "even k" "m * k = 1000000000" "\<bar>x\<bar> \<le> NS_LIMIT"
  shows "c_long (c_long (c_div x m * m) + c_div (c_long (c_mod x m * k + k div 2)) k)
    = (if x < 0 \<and> x mod m \<noteq> 0 then x + 1 else x)"
proof -
  have mk: "\<bar>c_mod x m * k\<bar> \<le> 1000000000"
    using mult_strict_right_mono [OF c_mod_bound [OF assms(1), of x] assms(2)] assms(2,4) by (simp add: abs_mult)
  have "k \<le> 1000000000" using assms(1,2,4) mult_right_mono [of 1 m k] by simp
  then have e: "c_long (c_mod x m * k + k div 2) = c_mod x m * k + k div 2" using mk assms(2) by (intro c_long_id; linarith)
  have d: "c_long (c_div x m * m) = c_div x m * m"
    using c_div_bound [OF assms(1), of x] assms(5) unfolding NS_LIMIT_def by (intro c_long_id; linarith)
  show ?thesis
    unfolding d e split_round [OF assms(1-3)] using assms(5) unfolding NS_LIMIT_def by (intro c_long_id; simp split: if_split; linarith)
qed

text \<open>C29: A count of nanoseconds survives the conversion to a time and back, and so does a
  non-negative count of micro- or milliseconds. A negative one with a fraction of a second comes back
  too large by one, since the rounding looks at a negative fraction, and the time is not normalised.\<close>
theorem ts_roundtrip:
  assumes "\<bar>n\<bar> \<le> NS_LIMIT"
  shows "tst_ts_to_ns (tst_ts_from_ns ty n) = n
    \<and> tst_ts_to_us (tst_ts_from_us ty n) = (if n < 0 \<and> n mod 1000000 \<noteq> 0 then n + 1 else n)
    \<and> tst_ts_to_ms (tst_ts_from_ms ty n) = (if n < 0 \<and> n mod 1000 \<noteq> 0 then n + 1 else n)
    \<and> (tst_ts_valid (tst_ts_from_us ty n) = -2 \<longleftrightarrow> n < 0 \<and> n mod 1000000 \<noteq> 0)"
proof (intro conjI)
  have "c_long (c_div n 1000000000 * 1000000000) = c_div n 1000000000 * 1000000000"
    using c_div_bound [of 1000000000 n] assms unfolding NS_LIMIT_def by (intro c_long_id) auto
  moreover have "c_long n = n" using assms unfolding NS_LIMIT_def by (intro c_long_id) auto
  ultimately show "tst_ts_to_ns (tst_ts_from_ns ty n) = n"
    using c_div_mod [of n 1000000000] by (simp add: tst_ts_to_ns_def tst_ts_from_ns_def ts_access)
  show "tst_ts_to_us (tst_ts_from_us ty n) = (if n < 0 \<and> n mod 1000000 \<noteq> 0 then n + 1 else n)"
    using through_ts [of 1000000 1000 n] assms by (simp add: tst_ts_to_us_def tst_ts_from_us_def ts_access)
  show "tst_ts_to_ms (tst_ts_from_ms ty n) = (if n < 0 \<and> n mod 1000 \<noteq> 0 then n + 1 else n)"
    using through_ts [of 1000 1000000 n] assms by (simp add: tst_ts_to_ms_def tst_ts_from_ms_def ts_access)
  show "tst_ts_valid (tst_ts_from_us ty n) = -2 \<longleftrightarrow> n < 0 \<and> n mod 1000000 \<noteq> 0"
  proof (cases "n < 0")
    case True
    have "c_mod n 1000000 = - ((- n) mod 1000000)" using c_mod_minus [of "- n" 1000000] True by (simp add: c_mod_nonneg)
    then have "c_mod n 1000000 < 0 \<longleftrightarrow> n mod 1000000 \<noteq> 0"
      by (simp add: mod_eq_0_iff_dvd less_le)
    then show ?thesis using True c_mod_bound [of 1000000 n] by (auto simp: tst_ts_valid_def tst_ts_from_us_def ts_access Let_def)
  next
    case False
    then show ?thesis using c_mod_bound [of 1000000 n]
      by (auto simp: tst_ts_valid_def tst_ts_from_us_def ts_access Let_def c_mod_nonneg)
  qed
qed

theorem ts_roundtrip_witness:
  "tst_ts_to_us (tst_ts_from_us TST_KERN_TIMESPEC 1500001) = 1500001
   \<and> tst_ts_to_us (tst_ts_from_us TST_KERN_TIMESPEC (- 1)) = 0"
  using ts_roundtrip [of 1500001 TST_KERN_TIMESPEC] ts_roundtrip [of "- 1" TST_KERN_TIMESPEC] by (simp add: NS_LIMIT_def)

section \<open>struct timeval and interval timers\<close>

definition us_of :: "timeval \<Rightarrow> int" where
  "us_of t = tval_sec t * 1000000 + tv_usec t"

definition timeval_ok :: "timeval \<Rightarrow> bool" where
  "timeval_ok t \<longleftrightarrow> 0 \<le> tv_usec t \<and> tv_usec t < 1000000 \<and> \<bar>us_of t\<bar> \<le> 9000000000000000"

lemma timeval_diff_exact:
  assumes "timeval_ok a" "timeval_ok b"
  shows "us_of (tst_timeval_diff a b) = us_of a - us_of b" "tst_timeval_diff_us a b = us_of a - us_of b"
    "tst_timeval_diff_ms a b = (us_of a - us_of b + 500) div 1000"
proof -
  let ?d = "tst_timeval_diff a b"
  have b: "\<bar>tval_sec a\<bar> \<le> 9000000001" "\<bar>tval_sec b\<bar> \<le> 9000000001" "0 \<le> tv_usec a" "tv_usec a < 1000000" "0 \<le> tv_usec b" "tv_usec b < 1000000"
    using assms unfolding timeval_ok_def us_of_def by linarith+
  then have d: "us_of ?d = us_of a - us_of b" "0 \<le> tv_usec ?d" "tv_usec ?d < 1000000" "\<bar>tval_sec ?d\<bar> \<le> 18000000003"
    by (auto simp: tst_timeval_diff_def Let_def us_of_def c_simps)
  then show "us_of (tst_timeval_diff a b) = us_of a - us_of b" "tst_timeval_diff_us a b = us_of a - us_of b"
    by (simp_all add: tst_timeval_diff_us_def tst_timeval_to_us_def us_of_def c_simps)
  have "0 \<le> (tv_usec ?d + 500) div 1000" "(tv_usec ?d + 500) div 1000 \<le> 1000" using d(2,3) by linarith+
  then have "tst_timeval_to_ms ?d = tval_sec ?d * 1000 + (tv_usec ?d + 500) div 1000"
    using d(2-4) by (simp add: tst_timeval_to_ms_def c_simps)
  also have "\<dots> = (tv_usec ?d + 500 + 1000 * (tval_sec ?d * 1000)) div 1000" by simp
  finally show "tst_timeval_diff_ms a b = (us_of a - us_of b + 500) div 1000"
    unfolding d(1) [symmetric] by (simp add: tst_timeval_diff_ms_def us_of_def algebra_simps)
qed

text \<open>Setting an interval timer changes one of its two times; the libc type is refused.\<close>

lemma its_set_from_ts:
  "tst_its_set_interval_from_ts its t = (if its_type its = TST_LIBC_TIMESPEC then Inl (Brk ''Invalid type: 0'')
     else Inr (its\<lparr>it_interval := ts_ts t\<rparr>))"
  "tst_its_set_value_from_ts its t = (if its_type its = TST_LIBC_TIMESPEC then Inl (Brk ''Invalid type: 0'')
     else Inr (its\<lparr>it_value := ts_ts t\<rparr>))"
  by (simp_all add: tst_its_set_interval_from_ts_def tst_its_set_value_from_ts_def tst_its_set_interval_sec_def
      tst_its_set_interval_nsec_def tst_its_set_value_sec_def tst_its_set_value_nsec_def its_write_def
      invalid_type_def tst_ts_get_sec_def tst_ts_get_nsec_def)

lemma its_value_read_back:
  assumes "its_type its \<noteq> TST_LIBC_TIMESPEC" "0 \<le> us" "us \<le> NS_LIMIT"
  shows "\<exists>its'. tst_its_set_value_from_us its us = Inr its'
    \<and> tst_its_get_value_sec its' = Inr (us div 1000000) \<and> tst_its_get_value_nsec its' = Inr (us mod 1000000 * 1000)"
  using assms by (simp add: tst_its_set_value_from_us_def tst_its_set_value_sec_def tst_its_set_value_nsec_def its_write_def
      tst_its_get_value_sec_def tst_its_get_value_nsec_def its_read_def tst_timespec_from_us_def tst_ts_from_us_def
      tst_ts_to_timespec_def ts_access Let_def c_simps)

end
