(* ===== verification/Rtctime.thy ===== *)
theory Rtctime
  imports Ltp_Prelude
begin

text \<open>
  The calendar conversions of \<open>lib/tst_rtctime.c\<close>: seconds since 1970 to a date and back. The unsigned
  and signed 32-bit computations of the source are written out.

  The main result is that the two functions are inverse to each other for every second until the
  number of days leaves the range of an \<open>int\<close>.
\<close>

section \<open>The functions\<close>

record rtc_time =
  tm_sec :: int
  tm_min :: int
  tm_hour :: int
  tm_mday :: int
  tm_mon :: int
  tm_year :: int
  tm_wday :: int
  tm_yday :: int
  tm_isdst :: int

definition LEAPS_THRU_END_OF :: "int \<Rightarrow> int" where
  "LEAPS_THRU_END_OF y = c_uint (c_uint (y div 4 - y div 100) + y div 400)"

definition rtc_days_in_month :: "int list" where
  "rtc_days_in_month = [31, 28, 31, 30, 31, 30, 31, 31, 30, 31, 30, 31]"

definition is_leap_year :: "int \<Rightarrow> bool" where
  "is_leap_year year \<longleftrightarrow> year mod 4 = 0 \<and> year mod 100 \<noteq> 0 \<or> year mod 400 = 0"

definition tst_mktime :: "int \<Rightarrow> int \<Rightarrow> int \<Rightarrow> int \<Rightarrow> int \<Rightarrow> int \<Rightarrow> int" where
  "tst_mktime year0 mon0 day hour minute sec =
     (let mon = c_uint (mon0 - 2);
          (mon, year) = (if c_int mon \<le> 0 then (c_uint (mon + 12), c_uint (year0 - 1)) else (mon, year0));
          days = c_uint (c_uint (c_uint (c_uint (year div 4 - year div 100) + year div 400) + c_uint (367 * mon) div 12) + day)
      in c_long (c_long (c_long (c_long (days + c_uint (year * 365) - 719499) * 24 + hour) * 60 + minute) * 60 + sec))"

definition rtc_month_days :: "nat \<Rightarrow> int \<Rightarrow> int" where
  "rtc_month_days month year = rtc_days_in_month ! month + (if is_leap_year year \<and> month = 1 then 1 else 0)"

text \<open>The loop that goes back to the year of the day. It ends since the number of days grows.\<close>

function year_loop :: "int \<Rightarrow> int \<Rightarrow> int \<times> int" where
  "year_loop year days =
     (if days < 0 then let year = c_uint (year - 1) in year_loop year (days + 365 + (if is_leap_year year then 1 else 0))
      else (year, days))"
  by pat_completeness auto
termination by (relation "measure (\<lambda>(y, d). nat (- d))") (auto simp: Let_def)

function month_loop :: "nat \<Rightarrow> int \<Rightarrow> int \<Rightarrow> nat \<times> int" where
  "month_loop month days year =
     (if month < 11 then let newdays = days - rtc_month_days month year in
        if newdays < 0 then (month, days) else month_loop (Suc month) newdays year
      else (month, days))"
  by pat_completeness auto
termination by (relation "measure (\<lambda>(m, d, y). 11 - m)") auto

definition tst_rtc_time_to_tm :: "int \<Rightarrow> rtc_time" where
  "tst_rtc_time_to_tm time =
     (let days = c_int (c_div time 86400);
          secs = c_uint (c_mod time 86400);
          wday = c_mod (c_int (days + 4)) 7;
          year = c_uint (1970 + c_div days 365);
          days = c_int (c_uint (days - c_uint (c_uint (c_uint (c_uint (year - 1970) * 365)
            + LEAPS_THRU_END_OF (c_uint (year - 1))) - LEAPS_THRU_END_OF 1969)));
          (year, days) = year_loop year days;
          (month, mdays) = month_loop 0 days year;
          hour = c_int (secs div 3600);
          secs = c_uint (secs - c_uint (hour * 3600));
          minute = c_int (secs div 60)
      in \<lparr>tm_sec = c_int (c_uint (secs - c_uint (minute * 60))), tm_min = minute, tm_hour = hour,
          tm_mday = c_int (mdays + 1), tm_mon = int month, tm_year = c_int (c_uint (year - 1900)),
          tm_wday = wday, tm_yday = c_int (days + 1), tm_isdst = 0\<rparr>)"

definition tst_rtc_tm_to_time :: "rtc_time \<Rightarrow> int" where
  "tst_rtc_tm_to_time tm = tst_mktime (c_uint (c_uint (tm_year tm) + 1900)) (c_uint (c_int (tm_mon tm + 1)))
     (c_uint (tm_mday tm)) (c_uint (tm_hour tm)) (c_uint (tm_min tm)) (c_uint (tm_sec tm))"

declare year_loop.simps [simp del] month_loop.simps [simp del]

section \<open>Days and years\<close>

text \<open>The specification: the number of the first day of a year, and of a month in its year.\<close>

definition leaps :: "int \<Rightarrow> int" where
  "leaps y = y div 4 - y div 100 + y div 400"

definition year_days :: "int \<Rightarrow> int" where
  "year_days y = (if is_leap_year y then 366 else 365)"

definition year_start :: "int \<Rightarrow> int" where
  "year_start y = 365 * (y - 1970) + leaps (y - 1) - 477"

definition month_start :: "nat \<Rightarrow> int \<Rightarrow> int" where
  "month_start m y = (\<Sum>i<m. rtc_month_days i y)"

lemma c_int_c_uint: "c_int (c_uint x) = c_int x"
  by (simp add: c_int_def c_uint_def signed_take_bit_take_bit)

lemma div_step: "0 < k \<Longrightarrow> y div k = (y - 1) div k + (if y mod k = 0 then 1 else 0)" for k y :: int
proof -
  assume k: "0 < k"
  define q r where "q = y div k" and "r = y mod k"
  have y: "y = q * k + r" "0 \<le> r" "r < k" using k by (simp_all add: q_def r_def)
  show ?thesis
  proof (cases "r = 0")
    case True
    then have "(y - 1) div k = q - 1" using y k by (intro int_div_pos_eq [of _ _ _ "k - 1"]) (simp_all add: algebra_simps)
    then show ?thesis using True by (simp add: q_def r_def)
  next
    case False
    then have "(y - 1) div k = q" using y k by (intro int_div_pos_eq [of _ _ _ "r - 1"]) (simp_all add: algebra_simps)
    then show ?thesis using False by (simp add: q_def r_def)
  qed
qed

lemma leap_count:
  "(b \<Longrightarrow> a) \<Longrightarrow> (c \<Longrightarrow> b) \<Longrightarrow> (if a \<and> \<not> b \<or> c then 1 else 0 :: int) = (if a then 1 else 0) - (if b then 1 else 0) + (if c then 1 else 0)"
  by auto

lemma add_steps: "p = p' + i \<Longrightarrow> q = q' + j \<Longrightarrow> r = r' + k \<Longrightarrow> l = i - j + k \<Longrightarrow> p - q + r = p' - q' + r' + l"
  for p q r i j k l :: int
  by simp

lemma leaps_step: "leaps y = leaps (y - 1) + (if is_leap_year y then 1 else 0)"
proof -
  have "y mod 100 = 0 \<Longrightarrow> y mod 4 = 0" "y mod 400 = 0 \<Longrightarrow> y mod 100 = 0"
    using dvd_trans [of 4 100 y] dvd_trans [of 100 400 y] unfolding mod_eq_0_iff_dvd by simp_all
  note count = leap_count [OF this]
  show ?thesis unfolding leaps_def is_leap_year_def
    by (rule add_steps [OF div_step div_step div_step count]) simp_all
qed

lemma year_start_step: "year_start y = year_start (y - 1) + year_days (y - 1)"
  using leaps_step [of "y - 1"] by (simp add: year_start_def year_days_def)

lemma quarter_bounds:
  "c \<le> b \<Longrightarrow> d \<le> c \<Longrightarrow> 0 \<le> d \<Longrightarrow> b \<le> a \<Longrightarrow> 0 \<le> b - c \<and> b - c \<le> a \<and> 0 \<le> b - c + d \<and> b - c + d \<le> a" for a b c d :: int
  by auto

lemma leaps_bounds: "0 \<le> y \<Longrightarrow> 0 \<le> y div 4 - y div 100 \<and> y div 4 - y div 100 \<le> y \<and> 0 \<le> leaps y \<and> leaps y \<le> y"
proof -
  assume y: "0 \<le> y"
  have "y div 100 \<le> y div 4" "y div 400 \<le> y div 100" "0 \<le> y div 400" using y by (simp_all add: zdiv_mono2)
  moreover have "y div 4 \<le> y" using zdiv_mono2 [of y 1 4] y by simp
  ultimately show ?thesis unfolding leaps_def by (rule quarter_bounds)
qed

lemma leaps_word: "0 \<le> y \<Longrightarrow> y < 4294967296 \<Longrightarrow> c_uint (c_uint (y div 4 - y div 100) + y div 400) = leaps y"
proof -
  assume y: "0 \<le> y" "y < 4294967296"
  have "c_uint (y div 4 - y div 100) = y div 4 - y div 100"
    using leaps_bounds [OF y(1)] y(2) by (intro c_uint_id) (auto intro: le_less_trans)
  moreover have "c_uint (leaps y) = leaps y"
    using leaps_bounds [OF y(1)] y(2) by (intro c_uint_id) (auto intro: le_less_trans)
  ultimately show ?thesis by (simp only: leaps_def)
qed

lemma year_start_1970: "year_start 1970 = 0"
  by (simp add: year_start_def leaps_def)

lemma year_loop_spec:
  assumes "1970 \<le> y" "y < 4294967296" "0 \<le> year_start y + d" "d < year_days y" "year_loop y d = (y', d')"
  shows "year_start y' + d' = year_start y + d \<and> 0 \<le> d' \<and> d' < year_days y' \<and> 1970 \<le> y' \<and> y' \<le> y"
  using assms
proof (induction y d rule: year_loop.induct)
  case (1 y d)
  show ?case
  proof (cases "d < 0")
    case True
    then have y: "1970 \<le> y - 1" using "1.prems"(1,3) year_start_1970 by (cases "y = 1970") auto
    have c: "c_uint (y - 1) = y - 1" using y "1.prems"(2) by (intro c_uint_id) auto
    have s: "year_start (y - 1) + (d + year_days (y - 1)) = year_start y + d" using year_start_step [of y] by simp
    have l: "year_loop (y - 1) (d + year_days (y - 1)) = (y', d')"
      using "1.prems"(5) True c by (subst (asm) year_loop.simps) (simp add: Let_def year_days_def add.commute split: if_splits)
    have e: "d + 365 + (if is_leap_year (y - 1) then 1 else 0) = d + year_days (y - 1)" by (simp add: year_days_def)
    show ?thesis using "1.IH" [OF True refl, unfolded c e] l y s True "1.prems"(2,3) by simp
  next
    case False
    then show ?thesis using "1.prems" by (subst (asm) year_loop.simps) auto
  qed
qed

lemma month_days_pos: "m < 12 \<Longrightarrow> 28 \<le> rtc_month_days m y"
  by (auto simp: rtc_month_days_def rtc_days_in_month_def nth_Cons numeral_eq_Suc less_Suc_eq split: nat.splits)

lemma month_loop_spec:
  assumes "m \<le> 11" "0 \<le> d" "month_loop m d y = (m', d')"
  shows "month_start m' y + d' = month_start m y + d \<and> m' \<le> 11 \<and> 0 \<le> d' \<and> (m' < 11 \<longrightarrow> d' < rtc_month_days m' y)"
  using assms
proof (induction m d y rule: month_loop.induct)
  case (1 m d y)
  show ?case
  proof (cases "m < 11 \<and> rtc_month_days m y \<le> d")
    case True
    then have "month_loop (Suc m) (d - rtc_month_days m y) y = (m', d')"
      using "1.prems"(3) by (subst (asm) month_loop.simps) simp
    then show ?thesis using "1.IH" True by (simp add: month_start_def)
  next
    case False
    then show ?thesis using "1.prems" by (subst (asm) month_loop.simps) (auto simp: Let_def split: if_splits)
  qed
qed

lemma month_start_eq:
  "m < 12 \<Longrightarrow> month_start m y = [0, 31, 59, 90, 120, 151, 181, 212, 243, 273, 304, 334] ! m + (if 2 \<le> m \<and> is_leap_year y then 1 else 0)"
  by (auto simp: month_start_def rtc_month_days_def rtc_days_in_month_def numeral_eq_Suc less_Suc_eq)

lemma year_days_months: "year_days y = month_start 11 y + rtc_month_days 11 y"
  by (simp add: month_start_eq year_days_def rtc_month_days_def rtc_days_in_month_def)

lemma month_day_exists:
  assumes "0 \<le> d" "d < year_days y" "month_loop 0 d y = (m, e)"
  shows "m < 12 \<and> 0 \<le> e \<and> e < rtc_month_days m y \<and> month_start m y + e = d"
proof -
  have "month_start 0 y = 0" by (simp add: month_start_def)
  then have s: "month_start m y + e = d" "m \<le> 11" "0 \<le> e" "m < 11 \<longrightarrow> e < rtc_month_days m y"
    using month_loop_spec [OF _ assms(1,3)] by simp_all
  have "e < rtc_month_days m y"
  proof (cases "m = 11")
    case True
    then show ?thesis using s(1) assms(2) year_days_months [of y] by (simp only:)
  next
    case False
    then show ?thesis using s(2,4) by simp
  qed
  then show ?thesis using s by simp
qed

section \<open>From seconds to a date and back\<close>

text \<open>The last second for which the number of days, and the day of the week, fit into an \<open>int\<close>.\<close>

definition TIME_LIMIT :: int where "TIME_LIMIT = 2147483644 * 86400"

text \<open>A valid date of day \<open>D\<close> since 1970.\<close>

definition date_of :: "int \<Rightarrow> int \<Rightarrow> nat \<Rightarrow> int \<Rightarrow> bool" where
  "date_of D y m d \<longleftrightarrow> 1970 \<le> y \<and> y \<le> 5900000 \<and> m < 12 \<and> 0 \<le> d \<and> d < rtc_month_days m y
     \<and> year_start y + month_start m y + d = D"

lemma leaps_from_1969:
  assumes "0 \<le> q"
  shows "477 \<le> leaps (1969 + q)" "leaps (1969 + q) \<le> 477 + q"
proof -
  have "leaps (1969 + int n) - 477 \<in> {0..int n}" for n
  proof (induction n)
    case (Suc n)
    then show ?case using leaps_step [of "1969 + int (Suc n)"] by (auto split: if_splits)
  qed (simp add: leaps_def)
  from this [of "nat q"] show "477 \<le> leaps (1969 + q)" "leaps (1969 + q) \<le> 477 + q" using assms by simp_all
qed

lemma year_start_nonneg: "1970 \<le> y \<Longrightarrow> 0 \<le> year_start y"
  using leaps_from_1969 [of "y - 1970"] by (simp add: year_start_def)

lemma first_guess:
  assumes "0 \<le> D" "D < 2147483644" "y = 1970 + D div 365"
  shows "1970 \<le> y" "y \<le> 5900000" "0 \<le> D - year_start y + year_start y" "D - year_start y < 365"
    "c_int (c_uint (D - c_uint (c_uint (c_uint (c_uint (y - 1970) * 365) + leaps (y - 1)) - 477))) = D - year_start y"
proof -
  define q r where "q = D div 365" and "r = D mod 365"
  have D: "D = q * 365 + r" "0 \<le> r" "r < 365" by (simp_all add: q_def r_def)
  have y: "y = 1970 + q" using assms(3) by (simp add: q_def)
  have q: "0 \<le> q" "q \<le> 5883516" using D assms(1,2) by linarith+
  note l = leaps_bounds [of "y - 1"]
  have ls: "477 \<le> leaps (y - 1)" "leaps (y - 1) \<le> 477 + q" using leaps_from_1969 [OF q(1)] y by simp_all
  show "1970 \<le> y" "y \<le> 5900000" using y q by simp_all
  show "0 \<le> D - year_start y + year_start y" using assms(1) by simp
  have s: "year_start y = q * 365 + leaps (y - 1) - 477" using y by (simp add: year_start_def)
  show "D - year_start y < 365" using s D ls by simp
  have "c_uint (y - 1970) = q" using y q by (simp add: c_simps)
  moreover have "c_uint (q * 365) = q * 365" using q by (simp add: c_simps)
  moreover have "c_uint (q * 365 + leaps (y - 1)) = q * 365 + leaps (y - 1)" using q ls by (simp add: c_simps)
  moreover have "c_uint (q * 365 + leaps (y - 1) - 477) = year_start y" using q ls s by (simp add: c_simps)
  moreover have "c_int (c_uint (D - year_start y)) = c_int (D - year_start y)"
    by (rule c_int_c_uint)
  moreover have "c_int (D - year_start y) = D - year_start y" using s D ls q by (simp add: c_simps)
  ultimately show "c_int (c_uint (D - c_uint (c_uint (c_uint (c_uint (y - 1970) * 365) + leaps (y - 1)) - 477))) = D - year_start y"
    by simp
qed

lemma clock_parts:
  assumes "0 \<le> S" "S < 86400"
  shows "c_int (S div 3600) = S div 3600" "c_uint (S - c_uint (S div 3600 * 3600)) = S mod 3600"
    "c_int (S mod 3600 div 60) = S mod 3600 div 60"
    "c_int (c_uint (S mod 3600 - c_uint (S mod 3600 div 60 * 60))) = S mod 3600 mod 60"
proof -
  define h r m s where "h = S div 3600" and "r = S mod 3600" and "m = r div 60" and "s = r mod 60"
  have S: "S = h * 3600 + r" "0 \<le> r" "r < 3600" "r = m * 60 + s" "0 \<le> s" "s < 60"
    by (simp_all add: h_def r_def m_def s_def)
  have b: "0 \<le> h" "h < 24" "0 \<le> m" "m < 60" using S assms by linarith+
  show "c_int (S div 3600) = S div 3600" unfolding h_def [symmetric] using b by (simp add: c_simps)
  show "c_uint (S - c_uint (S div 3600 * 3600)) = S mod 3600"
    unfolding h_def [symmetric] r_def [symmetric] using b S(1-3) by (simp add: c_simps)
  show "c_int (S mod 3600 div 60) = S mod 3600 div 60"
    unfolding r_def [symmetric] m_def [symmetric] using b by (simp add: c_simps)
  show "c_int (c_uint (S mod 3600 - c_uint (S mod 3600 div 60 * 60))) = S mod 3600 mod 60"
    unfolding r_def [symmetric] m_def [symmetric] s_def [symmetric] using b S(4-6) by (simp add: c_simps)
qed

lemma month_start_nonneg: "m < 12 \<Longrightarrow> 0 \<le> month_start m y"
  unfolding month_start_def using month_days_pos by (intro sum_nonneg) (force intro: order_trans [of 0 28])

lemma LEAPS_eq: "0 \<le> y \<Longrightarrow> y < 4294967296 \<Longrightarrow> LEAPS_THRU_END_OF y = leaps y"
  by (simp add: LEAPS_THRU_END_OF_def leaps_word)

lemma days_to_date:
  assumes "0 \<le> D" "D < 2147483644" "year_loop (1970 + D div 365) (D - year_start (1970 + D div 365)) = (y, e)" "month_loop 0 e y = (m, d)"
  shows "date_of D y m d" "e = month_start m y + d" "e < 366" "d \<le> e"
proof -
  let ?y0 = "1970 + D div 365"
  note g = first_guess [OF assms(1,2) refl]
  have "D - year_start ?y0 < year_days ?y0" using g(4) by (simp add: year_days_def)
  then have ye: "year_start y + e = D" "0 \<le> e" "e < year_days y" "1970 \<le> y" "y \<le> ?y0"
    using year_loop_spec [OF g(1) _ _ _ assms(3)] g(2) assms(1) by simp_all
  have md: "m < 12" "0 \<le> d" "d < rtc_month_days m y" "month_start m y + d = e"
    using month_day_exists [OF ye(2,3) assms(4)] by simp_all
  show "date_of D y m d" using ye md g(2) by (simp add: date_of_def)
  show "e = month_start m y + d" "d \<le> e" using md month_start_nonneg [OF md(1), of y] by simp_all
  show "e < 366" using ye(3) by (simp add: year_days_def split: if_splits)
qed

lemma day_number:
  assumes "0 \<le> time" "time < TIME_LIMIT"
  shows "0 \<le> time div 86400" "time div 86400 < 2147483644" "0 \<le> time mod 86400" "time mod 86400 < 86400"
proof -
  define q r where "q = time div 86400" and "r = time mod 86400"
  have "time = q * 86400 + r" "0 \<le> r" "r < 86400" by (simp_all add: q_def r_def)
  then show "0 \<le> time div 86400" "time div 86400 < 2147483644" "0 \<le> time mod 86400" "time mod 86400 < 86400"
    using assms unfolding TIME_LIMIT_def q_def [symmetric] r_def [symmetric] by linarith+
qed

definition tm_of :: "int \<Rightarrow> int \<Rightarrow> nat \<Rightarrow> int \<Rightarrow> int \<Rightarrow> rtc_time" where
  "tm_of D y m d S = \<lparr>tm_sec = S mod 3600 mod 60, tm_min = S mod 3600 div 60, tm_hour = S div 3600,
     tm_mday = d + 1, tm_mon = int m, tm_year = y - 1900, tm_wday = (D + 4) mod 7,
     tm_yday = month_start m y + d + 1, tm_isdst = 0\<rparr>"

lemma time_to_tm_date:
  assumes "0 \<le> time" "time < TIME_LIMIT"
  shows "\<exists>y m d. date_of (time div 86400) y m d
    \<and> tst_rtc_time_to_tm time = tm_of (time div 86400) y m d (time mod 86400)"
proof -
  define D S where "D = time div 86400" and "S = time mod 86400"
  note D = day_number [OF assms, folded D_def S_def]
  let ?y0 = "1970 + D div 365"
  note g = first_guess [OF D(1,2) refl]
  obtain y e where yl: "year_loop ?y0 (D - year_start ?y0) = (y, e)" by (cases "year_loop ?y0 (D - year_start ?y0)") auto
  obtain m d where ml: "month_loop 0 e y = (m, d)" by (cases "month_loop 0 e y") auto
  note date = days_to_date [OF D(1,2) yl ml]
  have c1: "c_int (c_div time 86400) = D" "c_uint (c_mod time 86400) = S"
    using assms(1) D by (simp_all add: c_div_nonneg c_mod_nonneg c_int_id c_uint_id D_def [symmetric] S_def [symmetric])
  have c2: "c_uint (1970 + c_div D 365) = ?y0" "c_uint (?y0 - 1) = ?y0 - 1" "c_int (D + 4) = D + 4" "c_mod (D + 4) 7 = (D + 4) mod 7"
    using D g(1,2) by (simp_all add: c_div_nonneg c_mod_nonneg c_int_id c_uint_id)
  have L: "LEAPS_THRU_END_OF (?y0 - 1) = leaps (?y0 - 1)" "LEAPS_THRU_END_OF 1969 = 477"
    using g(1,2) by (simp_all add: LEAPS_eq) (simp add: leaps_def)
  have c3: "c_int (c_uint (y - 1900)) = y - 1900" "c_int (d + 1) = d + 1" "c_int (e + 1) = e + 1"
    using date by (simp_all add: date_of_def c_int_id c_uint_id)
  have "tst_rtc_time_to_tm time = tm_of D y m d S"
    unfolding tst_rtc_time_to_tm_def Let_def c1 c2 L g(5) yl ml prod.case clock_parts [OF D(3,4)] c3
    by (simp add: tm_of_def date(2))
  then show ?thesis using date(1) D_def S_def by blast
qed

text \<open>The months counted from March, and the days before them.\<close>

lemma shifted_month:
  assumes "m < 12"
  shows "(if c_int (c_uint (int m + 1 - 2)) \<le> 0 then (c_uint (c_uint (int m + 1 - 2) + 12), c_uint (y - 1)) else (c_uint (int m + 1 - 2), y))
    = (if m < 2 then int m + 11 else int m - 1, if m < 2 then c_uint (y - 1) else y)"
proof (cases "m < 2")
  case True
  then have "c_int (c_uint (int m + 1 - 2)) = int m - 1" by (simp add: c_int_c_uint c_int_id)
  moreover have "c_uint (c_uint (int m + 1 - 2) + 12) = int m + 11"
  proof -
    have "c_uint (c_uint (int m + 1 - 2) + 12) = c_uint (int m + 11)" by (simp add: c_uint_def take_bit_eq_mod mod_simps add.commute)
    then show ?thesis using True by (simp add: c_uint_id)
  qed
  ultimately show ?thesis using True by simp
next
  case False
  then show ?thesis using assms by (simp add: c_uint_id c_int_id)
qed

lemma days_before_month:
  assumes "m < 12"
  shows "367 * (if m < 2 then int m + 11 else int m - 1) div 12 =
    month_start m y + (if m < 2 then 336 else - 29 - (if is_leap_year y then 1 else 0))"
  using assms month_start_eq [OF assms, of y]
  by (elim less_SucE [of _ 11, simplified] less_SucE; simp add: numeral_eq_Suc less_Suc_eq; auto)

lemma month_days_31: "m < 12 \<Longrightarrow> d < rtc_month_days m y \<Longrightarrow> d < 31"
  by (auto simp: rtc_month_days_def rtc_days_in_month_def nth_Cons numeral_eq_Suc less_Suc_eq split: nat.splits if_splits)

lemma mktime_date:
  assumes "date_of D y m d" "D < 2147483644" "0 \<le> h" "h < 24" "0 \<le> mi" "mi < 60" "0 \<le> s" "s < 60"
  shows "tst_mktime y (int m + 1) (d + 1) h mi s = ((D * 24 + h) * 60 + mi) * 60 + s"
proof -
  let ?mon = "if m < 2 then int m + 11 else int m - 1" and ?y = "if m < 2 then y - 1 else y"
  have y: "1970 \<le> y" "y \<le> 5900000" and m: "m < 12" and d: "0 \<le> d" "d < rtc_month_days m y"
    and D: "year_start y + month_start m y + d = D" using assms(1) by (simp_all add: date_of_def)
  have d31: "d < 31" using m d(2) by (rule month_days_31)
  have cy: "c_uint (y - 1) = y - 1" using y by (simp add: c_uint_id)
  have l: "c_uint (c_uint (?y div 4 - ?y div 100) + ?y div 400) = leaps ?y" using y by (intro leaps_word) auto
  have lb: "0 \<le> leaps ?y" "leaps ?y \<le> ?y" using leaps_bounds [of ?y] y by auto
  define k where "k = 367 * ?mon div 12"
  have k: "k = month_start m y + (if m < 2 then 336 else - 29 - (if is_leap_year y then 1 else 0))"
    unfolding k_def by (rule days_before_month [OF m])
  have kb: "0 \<le> k" "k < 1000" unfolding k_def using m by (auto intro!: pos_imp_zdiv_nonneg_iff [THEN iffD2])
  have c: "c_uint (367 * ?mon) = 367 * ?mon" using m by (simp add: c_uint_id)
  have c2: "c_uint (leaps ?y + k) = leaps ?y + k" "c_uint (leaps ?y + k + (d + 1)) = leaps ?y + k + (d + 1)"
    "c_uint (?y * 365) = ?y * 365" using lb kb d31 d(1) y by (intro c_uint_id; simp split: if_splits)+
  have eD: "leaps ?y + k + (d + 1) + ?y * 365 - 719499 = D"
    using k D leaps_step [of y] by (simp add: year_start_def algebra_simps split: if_splits)
  have "0 \<le> D" using D d(1) month_start_nonneg [OF m, of y] year_start_nonneg [OF y(1)] by simp
  then have cl: "c_long D = D" "c_long (D * 24 + h) = D * 24 + h" "c_long ((D * 24 + h) * 60 + mi) = (D * 24 + h) * 60 + mi"
    "c_long (((D * 24 + h) * 60 + mi) * 60 + s) = ((D * 24 + h) * 60 + mi) * 60 + s"
    using assms(2-8) by (intro c_long_id; simp)+
  show ?thesis
    unfolding tst_mktime_def Let_def
    unfolding shifted_month [OF m] prod.case
    unfolding cy l c k_def [symmetric] c2 eD cl by (rule refl)
qed

lemma tm_to_time_date:
  assumes "date_of D y m d" "D < 2147483644" "0 \<le> S" "S < 86400"
  shows "tst_rtc_tm_to_time (tm_of D y m d S) = D * 86400 + S"
proof -
  define h r mi s where "h = S div 3600" and "r = S mod 3600" and "mi = r div 60" and "s = r mod 60"
  have S: "S = h * 3600 + r" "r = mi * 60 + s" "0 \<le> r" "r < 3600" "0 \<le> s" "s < 60"
    by (simp_all add: h_def r_def mi_def s_def)
  have b: "0 \<le> h" "h < 24" "0 \<le> mi" "mi < 60" using S assms(3,4) by linarith+
  have y: "1970 \<le> y" "y \<le> 5900000" "m < 12" "0 \<le> d" "d < rtc_month_days m y" using assms(1) by (simp_all add: date_of_def)
  have "d < 31" using y(3,5) by (rule month_days_31)
  then have "c_uint (c_uint (y - 1900) + 1900) = y" "c_uint (c_int (int m + 1)) = int m + 1" "c_uint (d + 1) = d + 1"
    "c_uint h = h" "c_uint mi = mi" "c_uint s = s"
    using y b S(5,6) by (simp_all add: c_uint_id c_int_id)
  then have "tst_rtc_tm_to_time (tm_of D y m d S) = tst_mktime y (int m + 1) (d + 1) h mi s"
    unfolding tst_rtc_tm_to_time_def tm_of_def by (simp only: rtc_time.simps h_def r_def mi_def s_def)
  also have "\<dots> = ((D * 24 + h) * 60 + mi) * 60 + s" by (rule mktime_date [OF assms(1,2) b S(5,6)])
  finally show ?thesis using S(1,2) by simp
qed

section \<open>The date of a day is unique\<close>

lemma month_start_mono: "m \<le> m' \<Longrightarrow> m' \<le> 12 \<Longrightarrow> month_start m y \<le> month_start m' y"
  unfolding month_start_def using month_days_pos by (intro sum_mono2) (force intro: order_trans [of 0 28])+

lemma month_start_Suc: "month_start (Suc m) y = month_start m y + rtc_month_days m y"
  by (simp add: month_start_def)

lemma year_start_mono: "y \<le> y' \<Longrightarrow> year_start y \<le> year_start y'"
proof (induction y' rule: int_ge_induct)
  case (step i)
  then show ?case using year_start_step [of "i + 1"] by (simp add: year_days_def split: if_splits)
qed simp

lemma date_in_year: "date_of D y m d \<Longrightarrow> year_start y \<le> D \<and> D < year_start (y + 1)"
  using month_start_nonneg [of m y] month_start_mono [of "Suc m" "12" y] year_days_months [of y]
    month_start_Suc [of m y] month_start_Suc [of 11 y] year_start_step [of "y + 1"]
  by (simp add: date_of_def)

lemma date_unique:
  assumes "date_of D y m d" "date_of D y' m' d'"
  shows "y' = y \<and> m' = m \<and> d' = d"
proof -
  have y: "y' = y"
    using date_in_year [OF assms(1)] date_in_year [OF assms(2)] year_start_mono [of "y + 1" y'] year_start_mono [of "y' + 1" y]
    by (cases y y' rule: linorder_cases) auto
  have d: "month_start m y + d = month_start m' y + d'" "m < 12" "m' < 12" "0 \<le> d" "0 \<le> d'" "d < rtc_month_days m y" "d' < rtc_month_days m' y"
    using assms y by (simp_all add: date_of_def)
  have "m' = m"
    using d month_start_mono [of "Suc m" m' y] month_start_mono [of "Suc m'" m y] month_start_Suc [of m y] month_start_Suc [of m' y]
    by (cases m m' rule: linorder_cases) auto
  then show ?thesis using y d(1) by simp
qed

lemma rtc_inverse:
  assumes "0 \<le> time" "time < TIME_LIMIT"
  shows "tst_rtc_tm_to_time (tst_rtc_time_to_tm time) = time"
  using time_to_tm_date [OF assms] tm_to_time_date day_number [OF assms] by force

text \<open>C12: Seconds and dates: the date of a second is valid, with the right weekday and day in the
  year, it is the only date of its day, and converting it back gives the second. So the two functions
  are inverse to each other until the number of days leaves the range of an \<open>int\<close>.\<close>
theorem rtc_roundtrip:
  assumes "0 \<le> time" "time < TIME_LIMIT"
  shows "tst_rtc_tm_to_time (tst_rtc_time_to_tm time) = time
    \<and> (\<exists>y m d. tst_rtc_time_to_tm time = tm_of (time div 86400) y m d (time mod 86400)
        \<and> (\<forall>y' m' d'. date_of (time div 86400) y' m' d' \<longleftrightarrow> y' = y \<and> m' = m \<and> d' = d))"
proof -
  define D S where "D = time div 86400" and "S = time mod 86400"
  obtain y m d where date: "date_of D y m d" and tm: "tst_rtc_time_to_tm time = tm_of D y m d S"
    using time_to_tm_date [OF assms] unfolding D_def S_def by blast
  show ?thesis using rtc_inverse [OF assms] date_unique [OF date] date tm unfolding D_def S_def by blast
qed

text \<open>29 February 2000, 12:34:56, a Tuesday.\<close>

theorem rtc_roundtrip_witness:
  "tst_rtc_tm_to_time (tst_rtc_time_to_tm 951827696) = 951827696
   \<and> tst_rtc_time_to_tm 951827696 = tm_of 11016 2000 1 28 45296"
proof -
  have "is_leap_year 2000" by (simp add: is_leap_year_def)
  then have "date_of 11016 2000 1 28"
    by (simp add: date_of_def month_start_def rtc_month_days_def rtc_days_in_month_def year_start_def leaps_def)
  then show ?thesis using rtc_roundtrip [of 951827696] by (auto simp: TIME_LIMIT_def)
qed

end
