(* ===== verification/Bool_Expr.thy ===== *)
theory Bool_Expr
  imports Ltp_Prelude "HOL-Library.Multiset" "HOL-Library.Sublist"
begin

text \<open>
  The boolean expressions of the test library (\<open>lib/tst_bool_expr.c\<close>): tokenizer,
  shunting-yard conversion to postfix with its on-the-fly syntax check, error report
  and the stack evaluator, in the order of the C file.

  The lemmas show that the tokenizer loses nothing but blanks, that the shunting yard
  accepts exactly the token sequences of a left-associative expression grammar and
  returns the postfix form of their syntax tree, that neither of its arrays can be
  overrun, and that the evaluator computes the value of the syntax tree (or the
  documented \<open>-1\<close>).
\<close>

section \<open>Data\<close>

datatype tst_op = TST_OP_NOT | TST_OP_AND | TST_OP_OR | TST_OP_VAR | TST_OP_LPAR | TST_OP_RPAR

text \<open>
  \<open>priv\<close> is a \<open>const void *\<close>: it is set to NULL by the tokenizer, to an error
  message by the shunting yard and to a variable (here: its index in the array of the
  variables) by \<open>lib/tst_kconfig.c\<close>. The \<open>next\<close> links of the tokens are the order
  of the list \<open>rpn\<close>.
\<close>

datatype tok_priv = Priv_NULL | Priv_err string | Priv_var nat

record tst_expr_tok =
  tok_op :: tst_op
  tok :: string
  tok_len :: nat
  priv :: tok_priv

record tst_expr =
  rpn :: "tst_expr_tok list"
  buf :: "tst_expr_tok list"

text \<open>The characters of a token.\<close>

definition tok_str :: "tst_expr_tok \<Rightarrow> string" where
  "tok_str t = take (tok_len t) (tok t)"

section \<open>Tokenizer\<close>

definition char_to_op :: "char \<Rightarrow> tst_op" where
  "char_to_op c =
     (if c = CHR ''('' then TST_OP_LPAR
      else if c = CHR '')'' then TST_OP_RPAR
      else if c = CHR ''&'' then TST_OP_AND
      else if c = CHR ''|'' then TST_OP_OR
      else if c = CHR ''!'' then TST_OP_NOT
      else TST_OP_VAR)"

text \<open>
  \<open>last\<close> is NULL (\<open>None\<close>) in the counting pass; otherwise it is the list of the tokens
  stored so far. The result is the number of tokens (0 or 1) and the new \<open>last\<close>.
\<close>

definition new_tok :: "tst_expr_tok list option \<Rightarrow> string \<Rightarrow> nat \<Rightarrow> nat \<times> tst_expr_tok list option" where
  "new_tok lst t len =
     (if len = 0 then (0, lst)
      else case lst of
             None \<Rightarrow> (1, None)
           | Some ts \<Rightarrow> (1, Some (ts @ [\<lparr>tok_op = char_to_op (deref t), tok = t, tok_len = len,
                                         priv = Priv_NULL\<rparr>])))"

fun skip_quote :: "string \<Rightarrow> string" where
  "skip_quote [] = []"
| "skip_quote (c # s) = (if c = CHR 0x22 then s else skip_quote s)"

lemma skip_quote_length [termination_simp]: "length (skip_quote s) < Suc (length s)"
  by (induction s) auto

text \<open>The \<open>case\<close> labels of the tokenizer.\<close>

definition op_char :: "char \<Rightarrow> bool" where
  "op_char c \<longleftrightarrow> c \<in> {CHR ''('', CHR '')'', CHR ''!'', CHR ''&'', CHR ''|''}"

definition blank_char :: "char \<Rightarrow> bool" where
  "blank_char c \<longleftrightarrow> c \<in> {CHR 0x09, CHR '' ''}"

text \<open>\<open>&expr[j]\<close> is the first argument, \<open>&expr[i]\<close> the second.\<close>

fun tokenize_loop :: "string \<Rightarrow> string \<Rightarrow> tst_expr_tok list option \<Rightarrow> nat \<Rightarrow> nat \<times> tst_expr_tok list option" where
  "tokenize_loop w [] lst cnt =
     (let (n, lst) = new_tok lst w (length w) in (cnt + n, lst))"
| "tokenize_loop w (c # s) lst cnt =
     (if op_char c then
        (let (n1, lst) = new_tok lst w (length w - length (c # s));
             (n2, lst) = new_tok lst (c # s) 1
         in tokenize_loop s s lst (cnt + n1 + n2))
      else if blank_char c then
        (let (n, lst) = new_tok lst w (length w - length (c # s))
         in tokenize_loop s s lst (cnt + n))
      else if c = CHR 0x22 then tokenize_loop w (skip_quote s) lst cnt
      else tokenize_loop w s lst cnt)"

definition tokenize :: "string \<Rightarrow> tst_expr_tok list option \<Rightarrow> nat \<times> tst_expr_tok list option" where
  "tokenize expr lst = tokenize_loop expr expr lst 0"

section \<open>Printing\<close>

fun tst_bool_expr_print :: "tst_expr_tok list \<Rightarrow> string" where
  "tst_bool_expr_print [] = []"
| "tst_bool_expr_print (i # is) = tok_str i @ (if is \<noteq> [] then '' '' else []) @ tst_bool_expr_print is"

definition print_spaces :: "nat \<Rightarrow> string" where
  "print_spaces spaces = replicate spaces (CHR '' '')"

fun first_priv :: "tst_expr_tok list \<Rightarrow> tst_expr_tok option" where
  "first_priv [] = None"
| "first_priv (t # ts) = (if priv t \<noteq> Priv_NULL then Some t else first_priv ts)"

text \<open>
  The text written to \<open>stderr\<close>. \<open>expr->buf->tok\<close> is printed up to the end of the
  expression; the caller has set the \<open>priv\<close> of one token to a message, so the search
  succeeds (\<open>None\<close> would be a read behind the array).
\<close>

definition tst_bool_expr_err :: "tst_expr_tok list \<Rightarrow> string option" where
  "tst_bool_expr_err ts =
     (case ts of [] \<Rightarrow> None
      | t0 # _ \<Rightarrow>
        (case first_priv ts of
           Some t \<Rightarrow>
             (case priv t of
                Priv_err err \<Rightarrow>
                  (let spaces = length (tok t0) - length (tok t); err_len = length err in
                   Some (tok t0 @ [CHR 0x0A] @ print_spaces spaces @ ''^'' @ [CHR 0x0A] @
                         (if err_len < spaces then print_spaces (spaces - err_len + 1) else []) @
                         err @ [CHR 0x0A]))
              | _ \<Rightarrow> None)
         | None \<Rightarrow> None))"

section \<open>Shunting yard\<close>

text \<open>A stack is the list of its elements, the top first; an empty pop is NULL (\<open>None\<close>).\<close>

definition stack_push :: "'a list \<Rightarrow> 'a \<Rightarrow> 'a list" where
  "stack_push stack op = op # stack"

definition stack_empty :: "'a list \<Rightarrow> bool" where
  "stack_empty stack \<longleftrightarrow> stack = []"

definition stack_pop :: "'a list \<Rightarrow> ('a \<times> 'a list) option" where
  "stack_pop stack = (if stack_empty stack then None else Some (hd stack, tl stack))"

text \<open>\<open>TST_OP_NONE\<close> is \<open>None\<close>.\<close>

definition stack_peek_op :: "tst_expr_tok list \<Rightarrow> tst_op option" where
  "stack_peek_op stack = (if stack_empty stack then None else Some (tok_op (hd stack)))"

definition check_one :: "tst_op option \<Rightarrow> bool" where
  "check_one op =
     (case op of
        Some TST_OP_AND \<Rightarrow> False
      | Some TST_OP_OR \<Rightarrow> False
      | Some TST_OP_NOT \<Rightarrow> False
      | None \<Rightarrow> False
      | Some TST_OP_LPAR \<Rightarrow> False
      | _ \<Rightarrow> True)"

definition check_two :: "tst_op option \<Rightarrow> bool" where
  "check_two op =
     (case op of
        Some TST_OP_VAR \<Rightarrow> True
      | Some TST_OP_RPAR \<Rightarrow> True
      | _ \<Rightarrow> False)"

text \<open>The state of the loop; \<open>out\<close> is the list of the tokens output so far, in order.\<close>

record sy_state =
  op_stack :: "tst_expr_tok list"
  out :: "tst_expr_tok list"
  prev_op :: "tst_op option"

type_synonym sy_err = "tst_expr_tok \<times> string"

fun pop_nots :: "tst_expr_tok list \<Rightarrow> tst_expr_tok list \<Rightarrow> tst_expr_tok list \<times> tst_expr_tok list" where
  "pop_nots [] ou = ([], ou)"
| "pop_nots (t # stack) ou =
     (if tok_op t = TST_OP_NOT then pop_nots stack (ou @ [t]) else (t # stack, ou))"

fun pop_to_lpar :: "tst_expr_tok list \<Rightarrow> tst_expr_tok list \<Rightarrow> (tst_expr_tok list \<times> tst_expr_tok list) option" where
  "pop_to_lpar [] ou = None"
| "pop_to_lpar (t # stack) ou =
     (if tok_op t = TST_OP_LPAR then Some (stack, ou) else pop_to_lpar stack (ou @ [t]))"

definition sy_step :: "tst_expr_tok \<Rightarrow> sy_state \<Rightarrow> sy_err + sy_state" where
  "sy_step i s =
     (case tok_op i of
        TST_OP_VAR \<Rightarrow>
          (if check_one (prev_op s) then Inl (i, ''Expected operation'')
           else let (st, ou) = pop_nots (op_stack s) (out s @ [i])
                in Inr \<lparr>op_stack = st, out = ou, prev_op = Some (tok_op i)\<rparr>)
      | TST_OP_LPAR \<Rightarrow>
          (if check_one (prev_op s) then Inl (i, ''Expected operation'')
           else Inr (s\<lparr>op_stack := stack_push (op_stack s) i, prev_op := Some (tok_op i)\<rparr>))
      | TST_OP_RPAR \<Rightarrow>
          (if \<not> check_two (prev_op s) then Inl (i, ''Expected variable or )'')
           else case pop_to_lpar (op_stack s) (out s) of
                  None \<Rightarrow> Inl (i, ''Missing ('')
                | Some (st, ou) \<Rightarrow>
                    (let (st, ou) = pop_nots st ou
                     in Inr \<lparr>op_stack = st, out = ou, prev_op = Some (tok_op i)\<rparr>))
      | TST_OP_NOT \<Rightarrow>
          (if check_one (prev_op s) then Inl (i, ''Expected operation'')
           else Inr (s\<lparr>op_stack := stack_push (op_stack s) i, prev_op := Some (tok_op i)\<rparr>))
      | _ \<Rightarrow>
          (if \<not> check_two (prev_op s) then Inl (i, ''Expected variable or ('')
           else let (st, ou) =
                      (if stack_peek_op (op_stack s) \<in> {Some TST_OP_AND, Some TST_OP_OR}
                       then (case stack_pop (op_stack s) of
                               Some (t, st) \<Rightarrow> (st, out s @ [t])
                             | None \<Rightarrow> (op_stack s, out s))
                       else (op_stack s, out s))
                in Inr \<lparr>op_stack = stack_push st i, out = ou, prev_op = Some (tok_op i)\<rparr>))"

fun sy_run :: "tst_expr_tok list \<Rightarrow> sy_state \<Rightarrow> sy_err + sy_state" where
  "sy_run [] s = Inr s"
| "sy_run (i # is) s = (case sy_step i s of Inl e \<Rightarrow> Inl e | Inr s' \<Rightarrow> sy_run is s')"

fun pop_remaining :: "tst_expr_tok list \<Rightarrow> tst_expr_tok list \<Rightarrow> sy_err + tst_expr_tok list" where
  "pop_remaining [] ou = Inr ou"
| "pop_remaining (i # stack) ou =
     (if tok_op i = TST_OP_LPAR then Inl (i, ''Missing )'')
      else pop_remaining stack (ou @ [i]))"

definition sy_init :: sy_state where
  "sy_init = \<lparr>op_stack = [], out = [], prev_op = None\<rparr>"

definition shunting_yard :: "tst_expr_tok list \<Rightarrow> sy_err + tst_expr_tok list" where
  "shunting_yard ts =
     (case sy_run ts sy_init of
        Inl e \<Rightarrow> Inl e
      | Inr s \<Rightarrow>
          (if \<not> check_two (Some (tok_op (last ts)))
           then Inl (last ts, ''Unfinished expression'')
           else pop_remaining (op_stack s) (out s)))"

section \<open>Parsing and evaluation\<close>

text \<open>\<open>i->priv = err\<close> for the token the shunting yard complains about.\<close>

definition set_err :: "tst_expr_tok list \<Rightarrow> sy_err \<Rightarrow> tst_expr_tok list" where
  "set_err ts e = map (\<lambda>t. if tok t = tok (fst e) then t\<lparr>priv := Priv_err (snd e)\<rparr> else t) ts"

text \<open>
  The result is the text written to \<open>stderr\<close> and the expression (\<open>None\<close> for NULL);
  \<open>alloc\<close> says whether \<open>malloc\<close> succeeds.
\<close>

definition tst_bool_expr_parse :: "bool \<Rightarrow> string \<Rightarrow> string \<times> tst_expr option" where
  "tst_bool_expr_parse alloc expr =
     (let tok_cnt = fst (tokenize expr None) in
      if tok_cnt = 0 then ([], None)
      else if \<not> alloc then ([], None)
      else let ts = the (snd (tokenize expr (Some []))) in
           case shunting_yard ts of
             Inl e \<Rightarrow> (case tst_bool_expr_err (set_err ts e) of Some m \<Rightarrow> m | None \<Rightarrow> [], None)
           | Inr r \<Rightarrow> ([], Some \<lparr>rpn = r, buf = ts\<rparr>))"

definition MAX_STACK :: nat where "MAX_STACK = 16"

definition c_bool :: "bool \<Rightarrow> int" where "c_bool b = (if b then 1 else 0)"

text \<open>
  The stack is the list of \<open>stack[pos], ..., stack[0]\<close>. \<open>None\<close> is an access outside
  of the initialised part of the array.
\<close>

fun eval_loop :: "(tst_expr_tok \<Rightarrow> int) \<Rightarrow> tst_expr_tok list \<Rightarrow> int list \<Rightarrow> int option" where
  "eval_loop mp [] stack = (if stack = [] then None else Some (last stack))"
| "eval_loop mp (i # is) stack =
     (case tok_op i of
        TST_OP_NOT \<Rightarrow>
          (case stack of x # st \<Rightarrow> eval_loop mp is (c_bool (x = 0) # st) | _ \<Rightarrow> None)
      | TST_OP_OR \<Rightarrow>
          (case stack of x # y # st \<Rightarrow> eval_loop mp is (c_bool (x \<noteq> 0 \<or> y \<noteq> 0) # st) | _ \<Rightarrow> None)
      | TST_OP_AND \<Rightarrow>
          (case stack of x # y # st \<Rightarrow> eval_loop mp is (c_bool (x \<noteq> 0 \<and> y \<noteq> 0) # st) | _ \<Rightarrow> None)
      | TST_OP_VAR \<Rightarrow>
          (if length stack \<ge> MAX_STACK then Some (-1)
           else let v = mp i in if v = -1 then Some (-1) else eval_loop mp is (v # stack))
      | _ \<Rightarrow> eval_loop mp is stack)"

definition tst_bool_expr_eval :: "tst_expr \<Rightarrow> (tst_expr_tok \<Rightarrow> int) \<Rightarrow> int option" where
  "tst_bool_expr_eval expr mp = eval_loop mp (rpn expr) []"


section \<open>The grammar of the expressions\<close>

datatype bexpr = BVar tst_expr_tok | BNot tst_expr_tok bexpr | BBin tst_expr_tok bexpr bexpr

definition is_binop :: "tst_expr_tok \<Rightarrow> bool" where
  "is_binop t \<longleftrightarrow> tok_op t = TST_OP_AND \<or> tok_op t = TST_OP_OR"

definition is_not :: "tst_expr_tok \<Rightarrow> bool" where
  "is_not t \<longleftrightarrow> tok_op t = TST_OP_NOT"

inductive derives_U :: "tst_expr_tok list \<Rightarrow> bexpr \<Rightarrow> bool"
  and derives_E :: "tst_expr_tok list \<Rightarrow> bexpr \<Rightarrow> bool" where
  U_var: "tok_op v = TST_OP_VAR \<Longrightarrow> derives_U [v] (BVar v)"
| U_not: "is_not n \<Longrightarrow> derives_U us u \<Longrightarrow> derives_U (n # us) (BNot n u)"
| U_par: "tok_op l = TST_OP_LPAR \<Longrightarrow> tok_op r = TST_OP_RPAR \<Longrightarrow> derives_E es e
          \<Longrightarrow> derives_U (l # es @ [r]) e"
| E_unary: "derives_U us u \<Longrightarrow> derives_E us u"
| E_bin: "derives_E ls l \<Longrightarrow> is_binop b \<Longrightarrow> derives_U us u \<Longrightarrow> derives_E (ls @ b # us) (BBin b l u)"

fun postfix :: "bexpr \<Rightarrow> tst_expr_tok list" where
  "postfix (BVar v) = [v]"
| "postfix (BNot n e) = postfix e @ [n]"
| "postfix (BBin b l r) = postfix l @ postfix r @ [b]"

section \<open>The shunting yard accepts the grammar\<close>

lemma check_one_two: "check_one p = check_two p"
  by (auto simp: check_one_def check_two_def split: option.splits tst_op.splits)

lemma pop_nots_eq: "pop_nots st ou = (dropWhile is_not st, ou @ takeWhile is_not st)"
  by (induction st arbitrary: ou) (auto simp: is_not_def)

lemma sy_run_append:
  "sy_run (xs @ ys) s = (case sy_run xs s of Inl e \<Rightarrow> Inl e | Inr s' \<Rightarrow> sy_run ys s')"
  by (induction xs arbitrary: s) (auto split: sum.splits)

lemma sy_step_prev: "sy_step i s = Inr s' \<Longrightarrow> prev_op s' = Some (tok_op i)"
  by (cases "tok_op i")
     (auto simp: sy_step_def pop_nots_eq split: if_split_asm option.split_asm prod.split_asm)

lemma sy_run_prev: "sy_run ts s = Inr s' \<Longrightarrow> ts \<noteq> [] \<Longrightarrow> prev_op s' = Some (tok_op (last ts))"
proof (induction ts arbitrary: s)
  case (Cons i ts)
  then obtain s1 where "sy_step i s = Inr s1" "sy_run ts s1 = Inr s'"
    by (simp split: sum.split_asm)
  then show ?case
    using Cons.IH [of s1] sy_step_prev by (cases ts) auto
qed simp

text \<open>What one step does, by the kind of the token; \<open>operand_next\<close> is the state in
  which the syntax check admits an operand.\<close>

abbreviation operand_next :: "sy_state \<Rightarrow> bool" where
  "operand_next s \<equiv> \<not> check_two (prev_op s)"

definition flat_top :: "tst_expr_tok list \<Rightarrow> bool" where
  "flat_top st \<longleftrightarrow> st = [] \<or> tok_op (hd st) = TST_OP_LPAR"

lemma sy_step_var:
  "tok_op i = TST_OP_VAR \<Longrightarrow> operand_next s \<Longrightarrow>
   sy_step i s = Inr \<lparr>op_stack = dropWhile is_not (op_stack s),
                      out = out s @ i # takeWhile is_not (op_stack s), prev_op = Some TST_OP_VAR\<rparr>"
  by (simp add: sy_step_def check_one_two pop_nots_eq)

lemma sy_step_prefix:
  "tok_op i = TST_OP_LPAR \<or> is_not i \<Longrightarrow> operand_next s \<Longrightarrow>
   sy_step i s = Inr \<lparr>op_stack = i # op_stack s, out = out s, prev_op = Some (tok_op i)\<rparr>"
  by (cases s) (auto simp: sy_step_def check_one_two stack_push_def is_not_def)

lemma sy_step_rpar:
  "tok_op i = TST_OP_RPAR \<Longrightarrow> check_two (prev_op s) \<Longrightarrow> pop_to_lpar (op_stack s) (out s) = Some (st, ou) \<Longrightarrow>
   sy_step i s = Inr \<lparr>op_stack = dropWhile is_not st, out = ou @ takeWhile is_not st,
                      prev_op = Some TST_OP_RPAR\<rparr>"
  by (simp add: sy_step_def pop_nots_eq)

lemma sy_step_binop:
  "is_binop i \<Longrightarrow> check_two (prev_op s) \<Longrightarrow>
   sy_step i s = Inr (if op_stack s \<noteq> [] \<and> is_binop (hd (op_stack s))
     then \<lparr>op_stack = i # tl (op_stack s), out = out s @ [hd (op_stack s)], prev_op = Some (tok_op i)\<rparr>
     else \<lparr>op_stack = i # op_stack s, out = out s, prev_op = Some (tok_op i)\<rparr>)"
  by (cases "op_stack s")
     (auto simp: sy_step_def is_binop_def stack_push_def stack_pop_def stack_peek_op_def stack_empty_def)

lemmas sy_steps = sy_step_var sy_step_prefix sy_step_rpar sy_step_binop

text \<open>The two shapes of the state after a complete (sub)expression.\<close>

definition pending :: "tst_expr_tok list \<Rightarrow> tst_expr_tok list \<Rightarrow> tst_expr_tok list \<Rightarrow> sy_state \<Rightarrow> bool" where
  "pending st ou rp s \<longleftrightarrow>
     op_stack s = st \<and> out s = ou @ rp \<or>
     (\<exists>b. is_binop b \<and> op_stack s = b # st \<and> out s @ [b] = ou @ rp)"

lemma derives_nonempty:
  "derives_U us u \<Longrightarrow> us \<noteq> []" "derives_E es e \<Longrightarrow> es \<noteq> []"
  by (induction rule: derives_U_derives_E.inducts) auto

lemma derives_last:
  "derives_U us u \<Longrightarrow> check_two (Some (tok_op (last us)))"
  "derives_E es e \<Longrightarrow> check_two (Some (tok_op (last es)))"
  by (induction rule: derives_U_derives_E.inducts) (auto simp: check_two_def dest: derives_nonempty)

lemma pending_pop_lpar:
  "pending (l # st) ou rp s \<Longrightarrow> tok_op l = TST_OP_LPAR \<Longrightarrow> pop_to_lpar (op_stack s) (out s) = Some (st, ou @ rp)"
  by (auto simp: pending_def is_binop_def)

lemma sy_run_derives:
  shows "derives_U us u \<Longrightarrow> operand_next s \<Longrightarrow>
      sy_run us s = Inr \<lparr>op_stack = dropWhile is_not (op_stack s),
        out = out s @ postfix u @ takeWhile is_not (op_stack s), prev_op = Some (tok_op (last us))\<rparr>"
    and "derives_E es e \<Longrightarrow> operand_next s \<Longrightarrow> flat_top (op_stack s) \<Longrightarrow>
      \<exists>s'. sy_run es s = Inr s' \<and> pending (op_stack s) (out s) (postfix e) s'"
proof (induction arbitrary: s and s rule: derives_U_derives_E.inducts)
  case (U_var v)
  then show ?case by (simp add: sy_step_var)
next
  case (U_not n us u)
  then show ?case
    by (simp add: sy_step_prefix derives_nonempty check_two_def is_not_def)
next
  case (U_par l r es e)
  let ?s = "\<lparr>op_stack = l # op_stack s, out = out s, prev_op = Some TST_OP_LPAR\<rparr>"
  obtain s' where s': "sy_run es ?s = Inr s'" "pending (l # op_stack s) (out s) (postfix e) s'"
    using U_par.IH [of ?s] U_par.hyps by (auto simp: flat_top_def check_two_def)
  have "check_two (prev_op s')"
    using sy_run_prev [OF s'(1)] derives_last(2) [OF U_par.hyps(3)] derives_nonempty(2) [OF U_par.hyps(3)]
    by simp
  then have "sy_step r s' = Inr \<lparr>op_stack = dropWhile is_not (op_stack s),
      out = out s @ postfix e @ takeWhile is_not (op_stack s), prev_op = Some TST_OP_RPAR\<rparr>"
    using U_par.hyps pending_pop_lpar [OF s'(2)] by (simp add: sy_step_rpar)
  then show ?case
    using U_par s' by (simp add: sy_step_prefix sy_run_append)
next
  case (E_unary us u)
  have "takeWhile is_not (op_stack s) = []" "dropWhile is_not (op_stack s) = op_stack s"
    using E_unary.prems by (cases "op_stack s"; auto simp: flat_top_def is_not_def)+
  then show ?case
    using E_unary by (simp add: pending_def)
next
  case (E_bin ls l b us u)
  obtain s1 where s1: "sy_run ls s = Inr s1" "pending (op_stack s) (out s) (postfix l) s1"
    using E_bin.IH(1) E_bin.prems by blast
  have two: "check_two (prev_op s1)"
    using sy_run_prev [OF s1(1)] derives_last(2) [OF E_bin.hyps(1)] derives_nonempty(2) [OF E_bin.hyps(1)]
    by simp
  have "sy_step b s1 = Inr \<lparr>op_stack = b # op_stack s, out = out s @ postfix l, prev_op = Some (tok_op b)\<rparr>"
    using s1(2) two E_bin.hyps E_bin.prems
    by (auto simp: sy_step_binop pending_def flat_top_def is_binop_def neq_Nil_conv)
  moreover have "\<not> is_not b" "\<not> check_two (Some (tok_op b))"
    using E_bin.hyps by (auto simp: is_not_def is_binop_def check_two_def)
  ultimately show ?case
    using s1(1) E_bin.IH(2) E_bin.hyps(2) by (simp add: sy_run_append pending_def)
qed

lemma shunting_yard_complete:
  assumes "derives_E ts e"
  shows "shunting_yard ts = Inr (postfix e)"
proof -
  obtain s where s: "sy_run ts sy_init = Inr s" "pending [] [] (postfix e) s"
    using sy_run_derives(2) [OF assms, of sy_init]
    by (auto simp: sy_init_def flat_top_def check_two_def)
  moreover have "pop_remaining (op_stack s) (out s) = Inr (postfix e)"
    using s(2) by (auto simp: pending_def is_binop_def)
  ultimately show ?thesis
    using derives_last(2) [OF assms] by (simp add: shunting_yard_def)
qed


section \<open>The shunting yard accepts nothing else\<close>

inductive ctx_base :: "tst_expr_tok list \<Rightarrow> tst_expr_tok list \<Rightarrow> tst_expr_tok list \<Rightarrow> bool"
  and ctx_operand :: "tst_expr_tok list \<Rightarrow> tst_expr_tok list \<Rightarrow> tst_expr_tok list \<Rightarrow> bool" where
  base_start: "ctx_base [] [] []"
| base_lpar: "ctx_operand ps st ou \<Longrightarrow> tok_op l = TST_OP_LPAR \<Longrightarrow> ctx_base (ps @ [l]) (l # st) ou"
| operand_base: "ctx_base ps st ou \<Longrightarrow> ctx_operand ps st ou"
| operand_binop: "ctx_base ps st ou \<Longrightarrow> derives_E ls l \<Longrightarrow> is_binop b
    \<Longrightarrow> ctx_operand (ps @ ls @ [b]) (b # st) (ou @ postfix l)"
| operand_not: "ctx_operand ps st ou \<Longrightarrow> is_not n \<Longrightarrow> ctx_operand (ps @ [n]) (n # st) ou"

inductive ctx_full :: "tst_expr_tok list \<Rightarrow> tst_expr_tok list \<Rightarrow> tst_expr_tok list \<Rightarrow> bool" where
  full_flat: "ctx_base ps st ou \<Longrightarrow> derives_E es e \<Longrightarrow> ctx_full (ps @ es) st (ou @ postfix e)"
| full_binop: "ctx_base ps st ou \<Longrightarrow> derives_E ls l \<Longrightarrow> is_binop b \<Longrightarrow> derives_U us u
    \<Longrightarrow> ctx_full (ps @ ls @ b # us) (b # st) (ou @ postfix l @ postfix u)"

definition sy_inv :: "tst_expr_tok list \<Rightarrow> sy_state \<Rightarrow> bool" where
  "sy_inv ps s \<longleftrightarrow>
     (if check_two (prev_op s) then ctx_full ps (op_stack s) (out s)
      else ctx_operand ps (op_stack s) (out s))"

lemma ctx_base_flat: "ctx_base ps st ou \<Longrightarrow> flat_top st"
  by (erule ctx_base.cases) (auto simp: flat_top_def)

lemma ctx_base_nots:
  "ctx_base ps st ou \<Longrightarrow> dropWhile is_not st = st \<and> takeWhile is_not st = []"
  by (drule ctx_base_flat) (cases st; auto simp: flat_top_def is_not_def)

lemma ctx_operand_unary:
  "ctx_base ps st ou \<Longrightarrow> True"
  "ctx_operand ps st ou \<Longrightarrow> derives_U us u \<Longrightarrow>
     ctx_full (ps @ us) (dropWhile is_not st) (ou @ postfix u @ takeWhile is_not st)"
proof (induction arbitrary: and us u rule: ctx_base_ctx_operand.inducts)
  case (operand_base ps st ou)
  then show ?case
    using ctx_base_nots [OF operand_base.hyps] by (auto intro: full_flat E_unary)
next
  case (operand_binop ps st ou ls l b)
  moreover have "\<not> is_not b"
    using operand_binop.hyps by (auto simp: is_binop_def is_not_def)
  ultimately show ?case
    using full_binop [of ps st ou ls l b us u] by simp
next
  case (operand_not ps st ou n)
  then show ?case
    using operand_not.IH [of "n # us" "BNot n u"] by (simp add: U_not)
qed auto

lemma ctx_full_binop:
  assumes "ctx_full ps st ou" "is_binop b"
  shows "ctx_operand (ps @ [b])
    (if st \<noteq> [] \<and> is_binop (hd st) then b # tl st else b # st)
    (if st \<noteq> [] \<and> is_binop (hd st) then ou @ [hd st] else ou)"
  using assms
proof cases
  case (full_flat ps0 ou0 es e)
  have "\<not> (st \<noteq> [] \<and> is_binop (hd st))"
    using ctx_base_flat [OF full_flat(3)] by (auto simp: flat_top_def is_binop_def)
  then show ?thesis
    using full_flat assms(2) operand_binop by auto
next
  case (full_binop ps0 st0 ou0 ls l b0 us u)
  have "derives_E (ls @ b0 # us) (BBin b0 l u)"
    using full_binop by (blast intro: E_bin)
  from operand_binop [OF full_binop(4) this assms(2)] show ?thesis
    using full_binop by simp
qed

lemma ctx_full_rpar:
  assumes "ctx_full ps st ou" "pop_to_lpar st ou = Some (st', ou')" "tok_op r = TST_OP_RPAR"
  shows "ctx_full (ps @ [r]) (dropWhile is_not st') (ou' @ takeWhile is_not st')"
proof -
  have *: "ctx_full ((ps0 @ es) @ [r]) (dropWhile is_not st') (ou' @ takeWhile is_not st')"
    if "ctx_base ps0 st0 ou0" "derives_E es e" "pop_to_lpar st0 (ou0 @ postfix e) = Some (st', ou')"
    for ps0 st0 ou0 es e
    using that(1)
  proof cases
    case base_start
    then show ?thesis using that(3) by simp
  next
    case (base_lpar ps1 st1 l)
    have "derives_U (l # es @ [r]) e"
      using base_lpar(4) assms(3) that(2) by (rule U_par)
    from ctx_operand_unary(2) [OF base_lpar(3) this] show ?thesis
      using base_lpar that(3) by auto
  qed
  from assms(1) show ?thesis
  proof cases
    case (full_flat ps0 ou0 es e)
    then show ?thesis using * assms(2) by simp
  next
    case (full_binop ps0 st0 ou0 ls l b us u)
    then have "derives_E (ls @ b # us) (BBin b l u)" by (blast intro: E_bin)
    with * [OF full_binop(4) this] full_binop assms(2) show ?thesis
      by (auto simp: is_binop_def)
  qed
qed

lemma sy_step_inv:
  assumes "sy_inv ps s" "sy_step i s = Inr s'"
  shows "sy_inv (ps @ [i]) s'"
proof (cases "tok_op i")
  case TST_OP_VAR
  then have "operand_next s"
    using assms(2) by (auto simp: sy_step_def check_one_two)
  then show ?thesis
    using assms TST_OP_VAR ctx_operand_unary(2) [of ps "op_stack s" "out s" "[i]" "BVar i"]
    by (auto simp: sy_inv_def sy_step_var U_var check_two_def)
next
  case TST_OP_LPAR
  then have "operand_next s"
    using assms(2) by (auto simp: sy_step_def check_one_two)
  then show ?thesis
    using assms TST_OP_LPAR
    by (auto simp: sy_inv_def sy_step_prefix check_two_def intro: operand_base [OF base_lpar])
next
  case TST_OP_NOT
  then have "operand_next s" "is_not i"
    using assms(2) by (auto simp: sy_step_def check_one_two is_not_def)
  then show ?thesis
    using assms TST_OP_NOT
    by (auto simp: sy_inv_def sy_step_prefix check_two_def intro: operand_not)
next
  case TST_OP_RPAR
  then have two: "check_two (prev_op s)"
    using assms(2) by (auto simp: sy_step_def split: if_split_asm)
  with TST_OP_RPAR obtain st ou where po: "pop_to_lpar (op_stack s) (out s) = Some (st, ou)"
    using assms(2) by (auto simp: sy_step_def split: option.split_asm)
  then show ?thesis
    using assms TST_OP_RPAR two ctx_full_rpar [OF _ po, of ps i]
    by (auto simp: sy_inv_def sy_step_rpar check_two_def)
next
  case TST_OP_AND
  then have two: "check_two (prev_op s)"
    using assms(2) by (auto simp: sy_step_def split: if_split_asm)
  then show ?thesis
    using assms TST_OP_AND ctx_full_binop [of ps "op_stack s" "out s" i]
    by (auto simp: sy_inv_def sy_step_binop is_binop_def check_two_def)
next
  case TST_OP_OR
  then have two: "check_two (prev_op s)"
    using assms(2) by (auto simp: sy_step_def split: if_split_asm)
  then show ?thesis
    using assms TST_OP_OR ctx_full_binop [of ps "op_stack s" "out s" i]
    by (auto simp: sy_inv_def sy_step_binop is_binop_def check_two_def)
qed

lemma sy_run_inv: "sy_run ts s = Inr s' \<Longrightarrow> sy_inv ps s \<Longrightarrow> sy_inv (ps @ ts) s'"
proof (induction ts arbitrary: ps s)
  case (Cons i ts)
  then obtain s1 where "sy_step i s = Inr s1" "sy_run ts s1 = Inr s'"
    by (simp split: sum.split_asm)
  then show ?case
    using Cons.IH [of s1 "ps @ [i]"] Cons.prems(2) sy_step_inv by auto
qed simp

lemma pop_remaining_Inr:
  "pop_remaining st ou = Inr rp \<Longrightarrow> rp = ou @ st \<and> (\<forall>t \<in> set st. tok_op t \<noteq> TST_OP_LPAR)"
  by (induction st arbitrary: ou) (fastforce split: if_split_asm)+

lemma ctx_base_unnested:
  "ctx_base ps st ou \<Longrightarrow> \<forall>t \<in> set st. tok_op t \<noteq> TST_OP_LPAR \<Longrightarrow> ps = [] \<and> st = [] \<and> ou = []"
  by (erule ctx_base.cases) auto

lemma shunting_yard_sound:
  assumes "shunting_yard ts = Inr rp" "ts \<noteq> []"
  shows "\<exists>e. derives_E ts e \<and> rp = postfix e"
proof -
  obtain s where s: "sy_run ts sy_init = Inr s" "check_two (Some (tok_op (last ts)))"
      "pop_remaining (op_stack s) (out s) = Inr rp"
    using assms(1) by (auto simp: shunting_yard_def split: sum.split_asm if_split_asm)
  have "sy_inv [] sy_init"
    by (auto simp: sy_inv_def sy_init_def check_two_def intro: operand_base base_start)
  then have "ctx_full ts (op_stack s) (out s)"
    using sy_run_inv [OF s(1)] sy_run_prev [OF s(1) assms(2)] s(2) by (force simp: sy_inv_def)
  then show ?thesis
  proof cases
    case (full_flat ps ou es e)
    then show ?thesis
      using pop_remaining_Inr [OF s(3)] ctx_base_unnested [OF full_flat(3)] by auto
  next
    case (full_binop ps st ou ls l b us u)
    then have "derives_E (ls @ b # us) (BBin b l u)" by (blast intro: E_bin)
    then show ?thesis
      using full_binop pop_remaining_Inr [OF s(3)] ctx_base_unnested [OF full_binop(4)] by auto
  qed
qed

lemma shunting_yard_iff:
  "ts \<noteq> [] \<Longrightarrow> shunting_yard ts = Inr rp \<longleftrightarrow> (\<exists>e. derives_E ts e \<and> rp = postfix e)"
  using shunting_yard_sound shunting_yard_complete by blast

section \<open>Array bounds and links\<close>

lemma pop_to_lpar_length:
  "pop_to_lpar st ou = Some (st', ou') \<Longrightarrow> Suc (length st' + length ou') = length st + length ou"
  by (induction st arbitrary: ou) (fastforce split: if_split_asm)+

lemma pop_nots_length:
  "pop_nots st ou = (st', ou') \<Longrightarrow> length st' + length ou' = length st + length ou"
  by (induction st arbitrary: ou) (fastforce split: if_split_asm)+

lemma sy_step_size:
  assumes "sy_step i s = Inr s'"
  shows "length (op_stack s') + length (out s') \<le> Suc (length (op_stack s) + length (out s))"
  using assms
  by (cases "tok_op i")
     (auto simp: sy_step_def stack_push_def stack_pop_def stack_empty_def stack_peek_op_def
      split: if_split_asm option.split_asm prod.split_asm
      dest!: pop_to_lpar_length pop_nots_length)

lemma sy_run_size:
  "sy_run ts s = Inr s' \<Longrightarrow>
   length (op_stack s') + length (out s') \<le> length ts + length (op_stack s) + length (out s)"
proof (induction ts arbitrary: s)
  case (Cons i ts)
  then obtain s1 where "sy_step i s = Inr s1" "sy_run ts s1 = Inr s'"
    by (simp split: sum.split_asm)
  then show ?case
    using Cons.IH [of s1] sy_step_size [of i s s1] by simp
qed simp

definition is_paren :: "tst_expr_tok \<Rightarrow> bool" where
  "is_paren t \<longleftrightarrow> tok_op t = TST_OP_LPAR \<or> tok_op t = TST_OP_RPAR"

lemma postfix_mset:
  "derives_U us u \<Longrightarrow> mset (postfix u) = filter_mset (\<lambda>t. \<not> is_paren t) (mset us)"
  "derives_E es e \<Longrightarrow> mset (postfix e) = filter_mset (\<lambda>t. \<not> is_paren t) (mset es)"
  by (induction rule: derives_U_derives_E.inducts)
     (auto simp: is_paren_def is_not_def is_binop_def)

section \<open>Evaluation\<close>

text \<open>The stack the evaluator needs, the variables it reads and the value it computes.\<close>

fun bexpr_depth :: "bexpr \<Rightarrow> nat" where
  "bexpr_depth (BVar v) = 1"
| "bexpr_depth (BNot n e) = bexpr_depth e"
| "bexpr_depth (BBin b l r) = max (bexpr_depth l) (Suc (bexpr_depth r))"

fun bvars :: "bexpr \<Rightarrow> tst_expr_tok list" where
  "bvars (BVar v) = [v]"
| "bvars (BNot n e) = bvars e"
| "bvars (BBin b l r) = bvars l @ bvars r"

fun beval :: "(tst_expr_tok \<Rightarrow> int) \<Rightarrow> bexpr \<Rightarrow> int" where
  "beval mp (BVar v) = mp v"
| "beval mp (BNot n e) = c_bool (beval mp e = 0)"
| "beval mp (BBin b l r) =
     c_bool (if tok_op b = TST_OP_AND then beval mp l \<noteq> 0 \<and> beval mp r \<noteq> 0
             else beval mp l \<noteq> 0 \<or> beval mp r \<noteq> 0)"

text \<open>The expressions the grammar derives: operators at operator nodes.\<close>

fun wf_bexpr :: "bexpr \<Rightarrow> bool" where
  "wf_bexpr (BVar v) = (tok_op v = TST_OP_VAR)"
| "wf_bexpr (BNot n e) = (is_not n \<and> wf_bexpr e)"
| "wf_bexpr (BBin b l r) = (is_binop b \<and> wf_bexpr l \<and> wf_bexpr r)"

lemma derives_wf: "derives_U us u \<Longrightarrow> wf_bexpr u" "derives_E es e \<Longrightarrow> wf_bexpr e"
  by (induction rule: derives_U_derives_E.inducts) auto

definition undefined_var :: "(tst_expr_tok \<Rightarrow> int) \<Rightarrow> bexpr \<Rightarrow> bool" where
  "undefined_var mp e \<longleftrightarrow> (\<exists>v \<in> set (bvars e). mp v = -1)"

lemma eval_loop_postfix:
  "wf_bexpr e \<Longrightarrow>
   eval_loop mp (postfix e @ rest) st =
     (if bexpr_depth e + length st > MAX_STACK \<or> undefined_var mp e then Some (-1)
      else eval_loop mp rest (beval mp e # st))"
proof (induction e arbitrary: rest st)
  case (BVar v)
  then show ?case by (auto simp: undefined_var_def Let_def)
next
  case (BNot n e)
  then show ?case by (auto simp: undefined_var_def is_not_def)
next
  case (BBin b l r)
  then show ?case
    by (auto simp: undefined_var_def is_binop_def less_max_iff_disj conj_commute disj_commute)
qed

lemma tst_bool_expr_eval_postfix:
  "wf_bexpr e \<Longrightarrow> rpn x = postfix e \<Longrightarrow>
   tst_bool_expr_eval x mp =
     Some (if bexpr_depth e > MAX_STACK \<or> undefined_var mp e then -1 else beval mp e)"
  using eval_loop_postfix [of e mp "[]" "[]"] by (simp add: tst_bool_expr_eval_def)


section \<open>The tokenizer\<close>

definition mk_tok :: "string \<Rightarrow> nat \<Rightarrow> tst_expr_tok list" where
  "mk_tok t n = (if n = 0 then [] else [\<lparr>tok_op = char_to_op (deref t), tok = t, tok_len = n, priv = Priv_NULL\<rparr>])"

fun scan :: "string \<Rightarrow> string \<Rightarrow> tst_expr_tok list" where
  "scan w [] = mk_tok w (length w)"
| "scan w (c # s) =
     (if op_char c then mk_tok w (length w - length (c # s)) @ mk_tok (c # s) 1 @ scan s s
      else if blank_char c then mk_tok w (length w - length (c # s)) @ scan s s
      else if c = CHR 0x22 then scan w (skip_quote s)
      else scan w s)"

lemma new_tok_eq:
  "new_tok None t n = (length (mk_tok t n), None)"
  "new_tok (Some ts) t n = (length (mk_tok t n), Some (ts @ mk_tok t n))"
  by (simp_all add: new_tok_def mk_tok_def)

lemma tokenize_loop_count: "tokenize_loop w s None cnt = (cnt + length (scan w s), None)"
  by (induction w s arbitrary: cnt rule: scan.induct) (simp_all add: new_tok_eq)

lemma tokenize_loop_store:
  "tokenize_loop w s (Some ts) cnt = (cnt + length (scan w s), Some (ts @ scan w s))"
  by (induction w s arbitrary: ts cnt rule: scan.induct) (simp_all add: new_tok_eq)

text \<open>The tokens the second pass stores in the array, and their number in the first pass.\<close>

definition tokens :: "string \<Rightarrow> tst_expr_tok list" where
  "tokens expr = scan expr expr"

lemma tokenize_eq:
  "tokenize expr None = (length (tokens expr), None)"
  "tokenize expr (Some []) = (length (tokens expr), Some (tokens expr))"
  by (simp_all add: tokenize_def tokens_def tokenize_loop_count tokenize_loop_store)

fun strip_blanks :: "string \<Rightarrow> string" where
  "strip_blanks [] = []"
| "strip_blanks (c # s) =
     (if blank_char c then strip_blanks s
      else if c = CHR 0x22
      then c # take (length s - length (skip_quote s)) s @ strip_blanks (skip_quote s)
      else c # strip_blanks s)"

lemma skip_quote_split: "take (length s - length (skip_quote s)) s @ skip_quote s = s"
proof (induction s)
  case (Cons c s)
  have "length (skip_quote s) \<le> length s"
    using skip_quote_length [of s] by simp
  then show ?case
    using Cons by (simp add: Suc_diff_le)
qed simp

lemma mk_tok_str: "map tok_str (mk_tok w n) = (if n = 0 then [] else [take n w])"
  by (simp add: mk_tok_def tok_str_def)

lemma quote_not_special [simp]: "\<not> blank_char (CHR 0x22)" "\<not> op_char (CHR 0x22)"
  by (simp_all add: blank_char_def op_char_def)

lemma op_not_blank: "op_char c \<Longrightarrow> \<not> blank_char c \<and> c \<noteq> CHR 0x22"
  by (auto simp: blank_char_def op_char_def)

lemma scan_lossless: "concat (map tok_str (scan (p @ s) s)) = p @ strip_blanks s"
proof (induction s arbitrary: p rule: strip_blanks.induct)
  case 1
  then show ?case by (simp add: mk_tok_str)
next
  case (2 c s)
  let ?q = "take (length s - length (skip_quote s)) s"
  have quote: "concat (map tok_str (scan (p @ c # s) (skip_quote s))) =
      p @ c # ?q @ strip_blanks (skip_quote s)" if "c = CHR 0x22"
    using 2(2) [of "p @ c # ?q"] that by (simp add: skip_quote_split)
  show ?case
    using 2(1,3) [of "[]"] 2(3) [of "p @ [c]"] quote op_not_blank [of c] by (auto simp: mk_tok_str)
qed

lemma tokens_lossless: "concat (map tok_str (tokens expr)) = strip_blanks expr"
  using scan_lossless [of "[]" expr] by (simp add: tokens_def)

text \<open>Tokens are non-empty, in bounds, in order and do not overlap.\<close>

definition tok_ok :: "string \<Rightarrow> tst_expr_tok \<Rightarrow> bool" where
  "tok_ok expr t \<longleftrightarrow> suffix (tok t) expr \<and> 0 < tok_len t \<and> tok_len t \<le> length (tok t) \<and>
     tok_op t = char_to_op (hd (tok t)) \<and> priv t = Priv_NULL"

lemma mk_tok_ok: "suffix w expr \<Longrightarrow> n \<le> length w \<Longrightarrow> t \<in> set (mk_tok w n) \<Longrightarrow> tok_ok expr t"
  by (cases w) (auto simp: mk_tok_def tok_ok_def split: if_splits)

lemma suffix_skip_quote: "suffix (skip_quote s) s"
  by (metis skip_quote_split suffixI)

lemma scan_ok:
  "suffix w expr \<Longrightarrow> suffix s w \<Longrightarrow> \<forall>t \<in> set (scan w s). tok_ok expr t"
proof (induction w s rule: scan.induct)
  case (1 w)
  then show ?case using mk_tok_ok by auto
next
  case (2 w c s)
  have s: "suffix s w" "suffix s expr" "suffix (c # s) expr"
    using 2(5,6) by (meson suffix_ConsD suffix_order.trans)+
  moreover have "suffix (skip_quote s) w"
    using s(1) suffix_skip_quote suffix_order.trans by blast
  ultimately show ?case
    using 2 mk_tok_ok [OF 2(5), of "length w - length (c # s)"] mk_tok_ok [OF s(3), of 1]
    by (auto simp del: One_nat_def)
qed

definition tok_before :: "tst_expr_tok \<Rightarrow> tst_expr_tok \<Rightarrow> bool" where
  "tok_before a b \<longleftrightarrow> length (tok b) + tok_len a \<le> length (tok a)"

lemma scan_bound: "t \<in> set (scan w s) \<Longrightarrow> length s \<le> length w \<Longrightarrow> length (tok t) \<le> length w"
proof (induction w s rule: scan.induct)
  case (2 w c s)
  then show ?case
    using skip_quote_length [of s] by (fastforce simp: mk_tok_def split: if_split_asm)
qed (auto simp: mk_tok_def split: if_split_asm)

lemma scan_order: "length s \<le> length w \<Longrightarrow> sorted_wrt tok_before (scan w s)"
proof (induction w s rule: scan.induct)
  case (2 w c s)
  have "\<forall>t \<in> set (scan s s). length (tok t) \<le> length s"
    using scan_bound by blast
  then show ?case
    using 2 skip_quote_length [of s] by (auto simp: mk_tok_def tok_before_def sorted_wrt_append)
qed (simp add: mk_tok_def)

lemma tokens_ok: "\<forall>t \<in> set (tokens expr). tok_ok expr t"
  using scan_ok [of expr expr expr] by (simp add: tokens_def)

lemma tokens_order: "sorted_wrt tok_before (tokens expr)"
  by (simp add: tokens_def scan_order)

lemma tokens_distinct_start: "distinct (map tok (tokens expr))"
proof -
  have "sorted_wrt tok_before ts \<Longrightarrow> \<forall>t \<in> set ts. 0 < tok_len t \<Longrightarrow> distinct (map tok ts)" for ts
    by (induction ts) (auto simp: tok_before_def)
  then show ?thesis
    using tokens_order tokens_ok by (auto simp: tok_ok_def)
qed

section \<open>Printing and tokenizing again\<close>

fun quotes_closed :: "string \<Rightarrow> bool" where
  "quotes_closed [] = True"
| "quotes_closed (c # s) =
     (if c = CHR 0x22 then CHR 0x22 \<in> set s \<and> quotes_closed (skip_quote s) else quotes_closed s)"

fun word_ok :: "string \<Rightarrow> bool" where
  "word_ok [] = True"
| "word_ok (c # s) =
     (if c = CHR 0x22 then CHR 0x22 \<in> set s \<and> word_ok (skip_quote s)
      else \<not> op_char c \<and> \<not> blank_char c \<and> word_ok s)"

definition text_ok :: "string \<Rightarrow> bool" where
  "text_ok w \<longleftrightarrow> w \<noteq> [] \<and> (word_ok w \<or> (\<exists>c. w = [c] \<and> op_char c))"

lemma skip_quote_append: "CHR 0x22 \<in> set s \<Longrightarrow> skip_quote (s @ r) = skip_quote s @ r"
  by (induction s) auto

lemma word_ok_append: "word_ok p \<Longrightarrow> word_ok q \<Longrightarrow> word_ok (p @ q)"
  by (induction p rule: word_ok.induct) (auto simp: skip_quote_append)

lemma word_ok_quoted:
  "CHR 0x22 \<in> set s \<Longrightarrow> word_ok (CHR 0x22 # take (length s - length (skip_quote s)) s)"
proof -
  assume q: "CHR 0x22 \<in> set s"
  let ?p = "take (length s - length (skip_quote s)) s"
  have "CHR 0x22 \<in> set ?p \<and> skip_quote ?p = []"
    using q
  proof (induction s)
    case (Cons c s)
    have "length (skip_quote s) \<le> length s"
      using skip_quote_length [of s] by simp
    then show ?case
      using Cons by (auto simp: Suc_diff_le)
  qed simp
  then show ?thesis by simp
qed

lemma scan_word: "word_ok p \<Longrightarrow> scan w (p @ s) = scan w s"
  by (induction p rule: word_ok.induct) (auto simp: skip_quote_append)

lemma scan_text_ok:
  "word_ok p \<Longrightarrow> quotes_closed s \<Longrightarrow> t \<in> set (scan (p @ s) s) \<Longrightarrow> text_ok (tok_str t)"
proof (induction s arbitrary: p rule: quotes_closed.induct)
  case 1
  then show ?case
    by (auto simp: mk_tok_def tok_str_def text_ok_def split: if_split_asm)
next
  case (2 c s)
  let ?q = "c # take (length s - length (skip_quote s)) s"
  consider (quote) "c = CHR 0x22" | (op) "op_char c" "c \<noteq> CHR 0x22" | (blank) "blank_char c" "\<not> op_char c" "c \<noteq> CHR 0x22"
    | (plain) "\<not> op_char c" "\<not> blank_char c" "c \<noteq> CHR 0x22"
    by blast
  then show ?case
  proof cases
    case quote
    then have "word_ok (p @ ?q)"
      using 2(3,4) word_ok_append [OF _ word_ok_quoted [of s], of p] by (simp del: word_ok.simps)
    then show ?thesis
      using 2(1) [of "p @ ?q"] 2(4,5) quote by (simp add: skip_quote_split)
  next
    case op
    then show ?thesis
      using 2(2) [of "[]"] 2(3-5) by (auto simp: mk_tok_def tok_str_def text_ok_def split: if_split_asm)
  next
    case blank
    then show ?thesis
      using 2(2) [of "[]"] 2(3-5) by (auto simp: mk_tok_def tok_str_def text_ok_def split: if_split_asm)
  next
    case plain
    then show ?thesis
      using 2(2) [of "p @ [c]"] 2(3-5) by (simp add: word_ok_append)
  qed
qed

lemma scan_text_space:
  "text_ok p \<Longrightarrow> map tok_str (scan (p @ CHR '' '' # r) (p @ CHR '' '' # r)) = p # map tok_str (scan r r)"
  by (auto simp: text_ok_def scan_word mk_tok_str blank_char_def op_char_def)

lemma scan_text_end: "text_ok p \<Longrightarrow> map tok_str (scan p p) = [p]"
  using scan_word [of p p "[]"] by (auto simp: text_ok_def mk_tok_str)

lemma print_tokens:
  "\<forall>t \<in> set ts. text_ok (tok_str t) \<Longrightarrow> map tok_str (tokens (tst_bool_expr_print ts)) = map tok_str ts"
proof (induction ts)
  case Nil
  then show ?case by (simp add: tokens_def mk_tok_def)
next
  case (Cons t ts)
  then show ?case
    by (cases ts) (simp_all add: tokens_def scan_text_end scan_text_space)
qed


section \<open>Error reports\<close>

lemma sy_step_error: "sy_step i s = Inl (t, m) \<Longrightarrow> t = i"
  by (cases "tok_op i") (auto simp: sy_step_def Let_def split: if_split_asm option.split_asm prod.split_asm)

lemma sy_run_error: "sy_run ts s = Inl (t, m) \<Longrightarrow> t \<in> set ts"
proof (induction ts arbitrary: s)
  case (Cons i ts)
  then show ?case
    by (cases "sy_step i s") (auto dest: sy_step_error)
qed simp

lemma pop_to_lpar_set: "pop_to_lpar st ou = Some (st', ou') \<Longrightarrow> set st' \<subseteq> set st"
  by (induction st arbitrary: ou) (fastforce split: if_split_asm)+

lemma pop_nots_set: "pop_nots st ou = (st', ou') \<Longrightarrow> set st' \<subseteq> set st"
  by (auto simp: pop_nots_eq dest: set_dropWhileD)

lemma sy_step_stack_set: "sy_step i s = Inr s' \<Longrightarrow> set (op_stack s') \<subseteq> insert i (set (op_stack s))"
  by (cases "tok_op i"; cases "op_stack s")
     (auto simp: sy_step_def stack_push_def stack_pop_def stack_empty_def stack_peek_op_def
      split: if_split_asm option.split_asm prod.split_asm dest!: pop_nots_set pop_to_lpar_set)

lemma sy_run_stack_set: "sy_run ts s = Inr s' \<Longrightarrow> set (op_stack s') \<subseteq> set ts \<union> set (op_stack s)"
proof (induction ts arbitrary: s)
  case (Cons i ts)
  then obtain s1 where "sy_step i s = Inr s1" "sy_run ts s1 = Inr s'"
    by (simp split: sum.split_asm)
  then show ?case
    using Cons.IH [of s1] sy_step_stack_set [of i s s1] by auto
qed simp

lemma pop_remaining_error: "pop_remaining st ou = Inl (t, m) \<Longrightarrow> t \<in> set st"
  by (induction st arbitrary: ou) (auto split: if_split_asm)

lemma shunting_yard_error:
  assumes "shunting_yard ts = Inl (t, m)" "ts \<noteq> []"
  shows "t \<in> set ts"
proof (cases "sy_run ts sy_init")
  case (Inl e)
  then show ?thesis
    using assms sy_run_error by (auto simp: shunting_yard_def)
next
  case (Inr s)
  then have "t = last ts \<or> t \<in> set (op_stack s)"
    using assms pop_remaining_error by (auto simp: shunting_yard_def split: if_split_asm)
  then show ?thesis
    using sy_run_stack_set [OF Inr] assms(2) by (auto simp: sy_init_def)
qed

lemma first_priv_set_err:
  "distinct (map tok ts) \<Longrightarrow> \<forall>x \<in> set ts. priv x = Priv_NULL \<Longrightarrow> t \<in> set ts \<Longrightarrow>
   first_priv (set_err ts (t, m)) = Some (t\<lparr>priv := Priv_err m\<rparr>)"
  by (induction ts) (auto simp: set_err_def)

text \<open>The column of a token, counted from the first token of the expression.\<close>

definition tok_column :: "string \<Rightarrow> tst_expr_tok \<Rightarrow> nat" where
  "tok_column expr t = length (tok (hd (tokens expr))) - length (tok t)"

definition err_text :: "string \<Rightarrow> nat \<Rightarrow> string \<Rightarrow> string" where
  "err_text line col err =
     line @ [CHR 0x0A] @ print_spaces col @ ''^'' @ [CHR 0x0A] @
     (if length err < col then print_spaces (col - length err + 1) else []) @ err @ [CHR 0x0A]"

lemma tst_bool_expr_err_at:
  assumes "t \<in> set (tokens expr)"
  shows "tst_bool_expr_err (set_err (tokens expr) (t, m)) =
    Some (err_text (tok (hd (tokens expr))) (tok_column expr t) m)"
proof -
  have "first_priv (set_err (tokens expr) (t, m)) = Some (t\<lparr>priv := Priv_err m\<rparr>)"
    using assms tokens_distinct_start tokens_ok by (intro first_priv_set_err) (auto simp: tok_ok_def)
  moreover obtain t0 ts where t0: "tokens expr = t0 # ts"
    using assms by (cases "tokens expr") auto
  moreover obtain t0' ts' where "set_err (tokens expr) (t, m) = t0' # ts'" "tok t0' = tok t0"
    using t0 by (simp add: set_err_def)
  ultimately show ?thesis
    by (simp add: tst_bool_expr_err_def tok_column_def err_text_def Let_def)
qed

lemma tst_bool_expr_parse_eq:
  "tst_bool_expr_parse alloc expr =
     (if tokens expr = [] \<or> \<not> alloc then ([], None)
      else case shunting_yard (tokens expr) of
             Inl (t, m) \<Rightarrow> (err_text (tok (hd (tokens expr))) (tok_column expr t) m, None)
           | Inr r \<Rightarrow> ([], Some \<lparr>rpn = r, buf = tokens expr\<rparr>))"
  using shunting_yard_error [of "tokens expr"]
  by (auto simp: tst_bool_expr_parse_def tokenize_eq Let_def tst_bool_expr_err_at split: sum.split)

lemma parse_Some_derives:
  "snd (tst_bool_expr_parse True expr) = Some x \<Longrightarrow> \<exists>e. derives_E (tokens expr) e \<and> rpn x = postfix e"
  using tst_bool_expr_parse_eq [of True expr] shunting_yard_sound [of "tokens expr"]
  by (auto split: if_split_asm sum.split_asm)

lemma postfix_subset: "derives_E ts e \<Longrightarrow> set (postfix e) \<subseteq> set ts"
  using arg_cong [OF postfix_mset(2), of ts e set_mset] by auto

section \<open>The interface\<close>

text \<open>
  What a client of the expressions relies on: an expression is parsed when it has a syntax tree, the
  variables of the tree are the ones in the RPN list, where the client may attach data to them, and
  the evaluation gives the value of the tree.
\<close>

locale expr_library =
  fixes parse :: "string \<Rightarrow> tst_expr option" and eval :: "tst_expr \<Rightarrow> (tst_expr_tok \<Rightarrow> int) \<Rightarrow> int option"
    and tree :: "string \<Rightarrow> bexpr \<Rightarrow> bool"
  assumes parse_tree: "tree k b \<Longrightarrow> \<exists>x. parse k = Some x"
    and parsed_toks: "parse k = Some x \<Longrightarrow> set (rpn x) \<subseteq> set (tokens k)"
    and parsed_vars: "parse k = Some x \<Longrightarrow> tree k b \<Longrightarrow> set (bvars b) \<subseteq> {t \<in> set (rpn x). tok_op t = TST_OP_VAR}"
    and eval_tree: "parse k = Some x \<Longrightarrow> tree k b \<Longrightarrow> (\<And>t. tok_op (f t) = tok_op t) \<Longrightarrow>
      eval (x\<lparr>rpn := map f (rpn x)\<rparr>) mp =
        Some (if MAX_STACK < bexpr_depth b \<or> undefined_var (mp \<circ> f) b then -1 else beval (mp \<circ> f) b)"
begin

text \<open>Where every variable is true or false, only the depth of the expression matters.\<close>

lemma eval_bool:
  assumes "parse k = Some x" "tree k b" "\<And>t. tok_op (f t) = tok_op t"
    and "\<And>t. t \<in> set (rpn x) \<Longrightarrow> tok_op t = TST_OP_VAR \<Longrightarrow> mp (f t) = c_bool (p t)"
  shows "eval (x\<lparr>rpn := map f (rpn x)\<rparr>) mp = Some 1 \<longleftrightarrow>
    bexpr_depth b \<le> MAX_STACK \<and> beval (\<lambda>t. c_bool (p t)) b = 1"
proof -
  have "\<And>t. t \<in> set (bvars b) \<Longrightarrow> (mp \<circ> f) t = c_bool (p t)"
    using parsed_vars [OF assms(1,2)] assms(4) by auto
  then have "beval (mp \<circ> f) b = beval (\<lambda>t. c_bool (p t)) b" "\<not> undefined_var (mp \<circ> f) b"
    by (induction b) (auto simp: undefined_var_def c_bool_def)
  then show ?thesis using eval_tree [OF assms(1,2,3)] by auto
qed

end

lemma eval_loop_map:
  assumes "\<And>t. tok_op (f t) = tok_op t"
  shows "eval_loop mp (map f ts) st = eval_loop (mp \<circ> f) ts st"
  by (induction ts arbitrary: st) (auto simp: assms Let_def split: tst_op.split list.split)

lemma derives_parse:
  assumes "derives_E (tokens k) b"
  shows "snd (tst_bool_expr_parse True k) = Some \<lparr>rpn = postfix b, buf = tokens k\<rparr>"
  using derives_nonempty(2) [OF assms] shunting_yard_complete [OF assms] by (simp add: tst_bool_expr_parse_eq)

lemma bvars_postfix: "wf_bexpr b \<Longrightarrow> set (bvars b) \<subseteq> {t \<in> set (postfix b). tok_op t = TST_OP_VAR}"
  by (induction b) auto

interpretation be: expr_library "\<lambda>k. snd (tst_bool_expr_parse True k)" tst_bool_expr_eval "\<lambda>k. derives_E (tokens k)"
proof
  show "derives_E (tokens k) b \<Longrightarrow> \<exists>x. snd (tst_bool_expr_parse True k) = Some x" for k b
    using derives_parse by blast
  show "snd (tst_bool_expr_parse True k) = Some x \<Longrightarrow> set (rpn x) \<subseteq> set (tokens k)" for k x
    using parse_Some_derives postfix_subset by metis
  show "snd (tst_bool_expr_parse True k) = Some x \<Longrightarrow> derives_E (tokens k) b
      \<Longrightarrow> set (bvars b) \<subseteq> {t \<in> set (rpn x). tok_op t = TST_OP_VAR}" for k x b
    using derives_parse [of k b] bvars_postfix [of b] derives_wf(2) [of "tokens k" b] by auto
  show "tst_bool_expr_eval (x\<lparr>rpn := map f (rpn x)\<rparr>) mp =
      Some (if MAX_STACK < bexpr_depth b \<or> undefined_var (mp \<circ> f) b then -1 else beval (mp \<circ> f) b)"
    if "snd (tst_bool_expr_parse True k) = Some x" "derives_E (tokens k) b" "\<And>t. tok_op (f t) = tok_op t"
    for k x b f mp
    using that derives_parse [OF that(2)] eval_loop_map [of f mp "postfix b" "[]"]
      eval_loop_postfix [OF derives_wf(2) [OF that(2)], of "mp \<circ> f" "[]" "[]"]
    by (auto simp: tst_bool_expr_eval_def)
qed

section \<open>Properties\<close>

text \<open>C1: \<open>tst_bool_expr_parse\<close> accepts exactly the strings whose tokens derive an
  expression of the grammar, and then the list it returns is the postfix form of that
  expression's syntax tree.\<close>

theorem bool_expr_parse_iff:
  "snd (tst_bool_expr_parse True expr) = Some x \<longleftrightarrow>
     (\<exists>e. derives_E (tokens expr) e \<and> x = \<lparr>rpn = postfix e, buf = tokens expr\<rparr>)"
proof (cases "tokens expr = []")
  case True
  then show ?thesis
    using derives_nonempty(2) by (auto simp: tst_bool_expr_parse_eq)
next
  case False
  have "snd (tst_bool_expr_parse True expr) = Some x \<longleftrightarrow>
      (\<exists>r. shunting_yard (tokens expr) = Inr r \<and> x = \<lparr>rpn = r, buf = tokens expr\<rparr>)"
    using False by (auto simp: tst_bool_expr_parse_eq split: sum.split)
  then show ?thesis
    using shunting_yard_iff [OF False] by blast
qed

text \<open>C15: evaluating a parsed expression never leaves the stack array and computes the value
  of its syntax tree, or \<open>-1\<close> exactly when the stack of \<open>MAX_STACK\<close> entries is too small
  for it or a variable is undefined.\<close>

theorem bool_expr_eval_correct:
  assumes "snd (tst_bool_expr_parse True expr) = Some x"
  shows "\<exists>e. derives_E (tokens expr) e \<and>
     tst_bool_expr_eval x mp =
       Some (if MAX_STACK < bexpr_depth e \<or> undefined_var mp e then -1 else beval mp e)"
proof -
  obtain e where "derives_E (tokens expr) e" "rpn x = postfix e"
    using parse_Some_derives [OF assms] by blast
  then show ?thesis
    using derives_wf(2) tst_bool_expr_eval_postfix by blast
qed

definition ex_expr :: string where "ex_expr = ''!(A|B) & C''"

definition ex_map :: "tst_expr_tok \<Rightarrow> int" where
  "ex_map t = (if tok_str t = ''C'' then 1 else 0)"

definition ex_parsed :: tst_expr where
  "ex_parsed = the (snd (tst_bool_expr_parse True ex_expr))"

lemma ex_parsed: "snd (tst_bool_expr_parse True ex_expr) = Some ex_parsed"
  unfolding ex_parsed_def by code_simp

lemma ex_parsed_rpn: "map tok_str (rpn ex_parsed) = [''A'', ''B'', ''|'', ''!'', ''C'', ''&'']"
  by code_simp

theorem bool_expr_eval_witness:
  "(\<exists>x. snd (tst_bool_expr_parse True ex_expr) = Some x \<and> tst_bool_expr_eval x ex_map = Some 1 \<and>
     (\<exists>e. derives_E (tokens ex_expr) e \<and> tst_bool_expr_eval x ex_map =
       Some (if MAX_STACK < bexpr_depth e \<or> undefined_var ex_map e then -1 else beval ex_map e)))"
proof -
  have "tst_bool_expr_eval ex_parsed ex_map = Some 1" by code_simp
  then show ?thesis
    using bool_expr_eval_correct [OF ex_parsed, of ex_map] ex_parsed by blast
qed

text \<open>the arrays of the shunting yard are never overrun. After \<open>k\<close> of the \<open>cnt\<close> tokens the
  operator stack and the output hold at most \<open>k\<close> tokens together, so every index written is
  below \<open>cnt\<close> (and the final NULL of \<open>out[cnt + 1]\<close> fits).\<close>

theorem shunting_yard_in_bounds:
  assumes "sy_run (take k ts) sy_init = Inr s"
  shows "length (op_stack s) + length (out s) \<le> min k (length ts)"
  using sy_run_size [OF assms] by (simp add: sy_init_def min.commute)

theorem shunting_yard_in_bounds_witness:
  "\<exists>s. sy_run (take 3 (tokens ex_expr)) sy_init = Inr s \<and>
     length (op_stack s) + length (out s) \<le> min 3 (length (tokens ex_expr))"
proof -
  have "\<not> isl (sy_run (take 3 (tokens ex_expr)) sy_init)" by code_simp
  then obtain s where "sy_run (take 3 (tokens ex_expr)) sy_init = Inr s"
    by (cases "sy_run (take 3 (tokens ex_expr)) sy_init") auto
  then show ?thesis using shunting_yard_in_bounds [of 3 "tokens ex_expr"] by blast
qed

text \<open>every token but the parentheses is linked into the result exactly once, so the chain
  of \<open>next\<close> pointers is finite and visits each operand and operator once.\<close>

theorem rpn_permutation:
  assumes "snd (tst_bool_expr_parse True expr) = Some x"
  shows "mset (rpn x) = filter_mset (\<lambda>t. \<not> is_paren t) (mset (tokens expr)) \<and> distinct (map tok (rpn x))"
proof -
  obtain e where e: "derives_E (tokens expr) e" "rpn x = postfix e"
    using parse_Some_derives [OF assms] by blast
  have m: "mset (rpn x) = filter_mset (\<lambda>t. \<not> is_paren t) (mset (tokens expr))"
    using postfix_mset(2) [OF e(1)] e(2) by simp
  then have "mset (map tok (rpn x)) = mset (map tok (filter (\<lambda>t. \<not> is_paren t) (tokens expr)))"
    by simp
  moreover have "distinct (map tok (filter (\<lambda>t. \<not> is_paren t) (tokens expr)))"
    using tokens_distinct_start [of expr] by (simp add: distinct_map_filter)
  ultimately have "distinct (map tok (rpn x))"
    using mset_eq_imp_distinct_iff by blast
  with m show ?thesis by simp
qed

theorem rpn_permutation_witness:
  "\<exists>x. snd (tst_bool_expr_parse True ex_expr) = Some x \<and> map tok_str (rpn x) = [''A'', ''B'', ''|'', ''!'', ''C'', ''&''] \<and>
     mset (rpn x) = filter_mset (\<lambda>t. \<not> is_paren t) (mset (tokens ex_expr)) \<and> distinct (map tok (rpn x))"
  using rpn_permutation [OF ex_parsed] ex_parsed ex_parsed_rpn by (intro exI [of _ ex_parsed]) simp

text \<open>C35: the two passes of the tokenizer agree on the number of tokens, and the texts of the
  tokens, which are in order and do not overlap, spell the expression without its unquoted
  blanks.\<close>

theorem tokenize_correct:
  "\<exists>ts. tokenize expr None = (length ts, None) \<and> tokenize expr (Some []) = (length ts, Some ts) \<and>
     concat (map tok_str ts) = strip_blanks expr \<and> sorted_wrt tok_before ts \<and>
     list_all (tok_ok expr) ts"
  using tokenize_eq [of expr] tokens_lossless [of expr] tokens_order [of expr] tokens_ok [of expr]
  by (intro exI [of _ "tokens expr"]) (auto simp: list_all_iff)

text \<open>printing a parsed expression and tokenizing the text again gives the same tokens in the
  postfix order, when the quotes of the expression are closed.\<close>

theorem print_tokenize_roundtrip:
  assumes "snd (tst_bool_expr_parse True expr) = Some x" "quotes_closed expr"
  shows "\<exists>ts. tokenize (tst_bool_expr_print (rpn x)) (Some []) = (length (rpn x), Some ts) \<and>
     map tok_str ts = map tok_str (rpn x)"
proof -
  obtain e where e: "derives_E (tokens expr) e" "rpn x = postfix e"
    using parse_Some_derives [OF assms(1)] by blast
  have "set (rpn x) \<subseteq> set (tokens expr)"
    using postfix_subset [OF e(1)] e(2) by simp
  then have "\<forall>t \<in> set (rpn x). text_ok (tok_str t)"
    using scan_text_ok [of "[]" expr] assms(2) by (auto simp: tokens_def)
  then have eq: "map tok_str (tokens (tst_bool_expr_print (rpn x))) = map tok_str (rpn x)"
    by (rule print_tokens)
  then have "length (tokens (tst_bool_expr_print (rpn x))) = length (rpn x)"
    by (metis length_map)
  with eq show ?thesis by (simp add: tokenize_eq)
qed

theorem print_tokenize_roundtrip_witness:
  "\<exists>x. snd (tst_bool_expr_parse True ex_expr) = Some x \<and> quotes_closed ex_expr \<and>
     tst_bool_expr_print (rpn x) = ''A B | ! C &'' \<and>
     (\<exists>ts. tokenize (tst_bool_expr_print (rpn x)) (Some []) = (length (rpn x), Some ts) \<and>
       map tok_str ts = map tok_str (rpn x))"
proof -
  have "quotes_closed ex_expr" "tst_bool_expr_print (rpn ex_parsed) = ''A B | ! C &''"
    by code_simp+
  then show ?thesis using print_tokenize_roundtrip [OF ex_parsed] ex_parsed by blast
qed

text \<open>a rejected expression is reported with a caret under the first character of one of its
  tokens; nothing is read behind the array of tokens.\<close>

theorem parse_error_report:
  assumes "tst_bool_expr_parse True expr = (msg, None)" "tokens expr \<noteq> []"
  shows "\<exists>t err. t \<in> set (tokens expr) \<and> shunting_yard (tokens expr) = Inl (t, err) \<and>
     msg = err_text (tok (hd (tokens expr))) (tok_column expr t) err"
  using assms shunting_yard_error [of "tokens expr"]
  by (auto simp: tst_bool_expr_parse_eq split: sum.split_asm)

theorem parse_error_report_witness:
  "tst_bool_expr_parse True ''(A'' = (err_text ''(A'' 0 ''Missing )'', None) \<and> tokens ''(A'' \<noteq> [] \<and>
   (\<exists>t err. t \<in> set (tokens ''(A'') \<and> shunting_yard (tokens ''(A'') = Inl (t, err) \<and>
     err_text ''(A'' 0 ''Missing )'' = err_text (tok (hd (tokens ''(A''))) (tok_column ''(A'' t) err)"
proof -
  have "tst_bool_expr_parse True ''(A'' = (err_text ''(A'' 0 ''Missing )'', None)" "tokens ''(A'' \<noteq> []"
    by code_simp+
  then show ?thesis using parse_error_report [of "''(A''"] by blast
qed

end
