(* ===== verification/Kconfig.thy ===== *)
theory Kconfig
  imports Bool_Expr
begin

text \<open>
  The kernel configuration checks (\<open>lib/tst_kconfig.c\<close>, \<open>include/tst_kconfig.h\<close>): locating and
  reading a kernel config, checking constraints written as boolean expressions against it, and
  the parser of \<open>/proc/cmdline\<close>.

  The environment (variables, files, \<open>uname()\<close>, the output of \<open>zcat\<close> and what is on the stack where
  a line buffer is placed) is a record. \<open>tst_brk()\<close> ends the test with a message; the other kind of
  failure is a read behind the end of a buffer. Messages of \<open>tst_res()\<close> are returned where they
  report a result; the notes about progress are left out.
\<close>

section \<open>State\<close>

record tst_kconfig_var =
  kid :: string
  id_len :: nat
  choice :: char
  kval :: "string option"

definition KCONFIG_ID_SIZE :: nat where "KCONFIG_ID_SIZE = 64"

definition TST_KCONFIG_INIT :: "string \<Rightarrow> tst_kconfig_var" where
  "TST_KCONFIG_INIT confname = \<lparr>kid = confname, id_len = length confname, choice = NUL, kval = None\<rparr>"

record kconfig_env =
  env_skip :: bool
  env_path :: "string option"
  file_exists :: "string \<Rightarrow> bool"
  uname_release :: string
  fopen :: "string \<Rightarrow> string option"
  popen :: "string \<Rightarrow> string option"
  stack_junk :: string

section \<open>Finding the config\<close>

definition kconfig_skip_check :: "kconfig_env \<Rightarrow> bool \<times> message list" where
  "kconfig_skip_check e =
     (if env_skip e then (True, [(TINFO, ''Skipping kernel config check as requested'')]) else (False, []))"

definition apos :: string where "apos = [CHR 0x27]"

text \<open>The paths tried after \<open>/proc/config.gz\<close>.\<close>

definition config_paths :: "kconfig_env \<Rightarrow> string list" where
  "config_paths e = map (vsnprintf 1024)
     [''/lib/modules/'' @ uname_release e @ ''/build/.config'',
      ''/lib/modules/'' @ uname_release e @ ''/config'',
      ''/boot/config-'' @ uname_release e,
      ''/lib/kernel/config-'' @ uname_release e]"

definition kconfig_path :: "kconfig_env \<Rightarrow> string option \<times> message list" where
  "kconfig_path e =
     (case filter (file_exists e) (case env_path e of Some p \<Rightarrow> [p] | None \<Rightarrow> []) of
        p # _ \<Rightarrow> (Some p, [])
      | [] \<Rightarrow>
          let warn = (case env_path e of
                Some p \<Rightarrow> [(TWARN, ''KCONFIG_PATH='' @ apos @ p @ apos @ '' does not exist'')] | None \<Rightarrow> []) in
          (case filter (file_exists e) (''/proc/config.gz'' # config_paths e) of
             p # _ \<Rightarrow> (Some p, warn)
           | [] \<Rightarrow> (None, warn @ [(TINFO, ''Couldn'' @ apos @ ''t locate kernel config!'')])))"

text \<open>The text of the opened config; \<open>None\<close> is a NULL stream.\<close>

definition open_kconfig :: "kconfig_env \<Rightarrow> failure + string option" where
  "open_kconfig e =
     (case fst (kconfig_path e) of
        None \<Rightarrow> Inr None
      | Some path \<Rightarrow>
          let is_gzip = (strstr path ''.gz'' \<noteq> None) in
          (case (if is_gzip then popen e (vsnprintf 1064 (''zcat '' @ apos @ path @ apos)) else fopen e path) of
             None \<Rightarrow> Inl (Brk (''Failed to open '' @ apos @ path @ apos))
           | Some c \<Rightarrow> Inr (Some c)))"

section \<open>Reading the config\<close>

text \<open>
  A pointer into the line buffer is the rest of the array, which goes on behind the terminating
  NUL. \<open>strstr\<close> and \<open>strncmp\<close> stop there.
\<close>

definition strstr_arr :: "string \<Rightarrow> string \<Rightarrow> string option" where
  "strstr_arr s needle =
     (case strstr (c_str s) needle of
        None \<Rightarrow> None
      | Some q \<Rightarrow> Some (drop (length (c_str s) - length q) s))"

definition strncmp_eq :: "string \<Rightarrow> string \<Rightarrow> nat \<Rightarrow> bool" where
  "strncmp_eq a b n \<longleftrightarrow> take n (c_str a) = take n (c_str b)"

definition var_char :: "char \<Rightarrow> bool" where
  "var_char c \<longleftrightarrow> char_between (CHR ''A'') (CHR ''Z'') c \<or> char_between (CHR ''0'') (CHR ''9'') c \<or> c = CHR ''_''"

text \<open>The length of a value: up to the next white space, wherever it is.\<close>

definition val_scan :: "string \<Rightarrow> nat option" where
  "val_scan s = (if list_all (\<lambda>c. \<not> isspace c) s then None else Some (length (takeWhile (\<lambda>c. \<not> isspace c) s)))"

fun match_vars :: "bool \<Rightarrow> string \<Rightarrow> nat \<Rightarrow> tst_kconfig_var list \<Rightarrow> (bool \<times> tst_kconfig_var list) option" where
  "match_vars is_not_set var var_len [] = Some (False, [])"
| "match_vars is_not_set var var_len (v # vs) =
     (if id_len v \<noteq> var_len \<or> \<not> strncmp_eq (kid v) var var_len then
        map_option (apsnd ((#) v)) (match_vars is_not_set var var_len vs)
      else if is_not_set then Some (True, v\<lparr>choice := CHR ''n''\<rparr> # vs)
      else
        let value = dropWhile isspace (drop var_len var) in
        if deref value \<noteq> CHR ''='' then Some (False, v # vs)
        else
          let value = dropWhile isspace (tl value) in
          (case val_scan value of
             None \<Rightarrow> None
           | Some n \<Rightarrow>
               if n = 1 \<and> (deref value = CHR ''y'' \<or> deref value = CHR ''m'') then Some (True, v\<lparr>choice := deref value\<rparr> # vs)
               else map_option (apsnd ((#) (v\<lparr>choice := CHR ''v'', kval := Some (take n (c_str value))\<rparr>)))
                      (match_vars is_not_set var var_len vs)))"

definition kconfig_parse_line :: "string \<Rightarrow> tst_kconfig_var list \<Rightarrow> (bool \<times> tst_kconfig_var list) option" where
  "kconfig_parse_line line vars =
     (let line = dropWhile isspace line; is_not_set = (deref line = CHR ''#'') in
      if is_not_set \<and> strstr_arr line ''is not set'' = None then Some (False, vars)
      else
        (case strstr_arr line ''CONFIG_'' of
           None \<Rightarrow> Some (False, vars)
         | Some var \<Rightarrow> match_vars is_not_set var (length (takeWhile var_char var)) vars))"

text \<open>The array after \<open>fgets\<close>: the line, a NUL, and what was there before.\<close>

definition store_line :: "string \<Rightarrow> string \<Rightarrow> string" where
  "store_line l arr = l @ NUL # drop (Suc (length l)) arr"

definition KCONFIG_LINE :: nat where "KCONFIG_LINE = 128"

function read_loop :: "string \<Rightarrow> string \<Rightarrow> tst_kconfig_var list \<Rightarrow> nat \<Rightarrow> tst_kconfig_var list option" where
  "read_loop arr content vars vars_found =
     (case fgets KCONFIG_LINE content of
        None \<Rightarrow> Some vars
      | Some (l, rest) \<Rightarrow>
          let arr = store_line l arr in
          (case kconfig_parse_line arr vars of
             None \<Rightarrow> None
           | Some (f, vars) \<Rightarrow>
               let vars_found = vars_found + of_bool f in
               if vars_found = length vars then Some vars else read_loop arr rest vars vars_found))"
  by pat_completeness auto
termination
  by (relation "measure (\<lambda>(_, content, _, _). length content)") (auto dest: fgets_shorter simp: KCONFIG_LINE_def)

declare read_loop.simps [simp del]

definition tst_kconfig_read :: "kconfig_env \<Rightarrow> tst_kconfig_var list \<Rightarrow> failure + tst_kconfig_var list" where
  "tst_kconfig_read e vars =
     (case open_kconfig e of
        Inl f \<Rightarrow> Inl f
      | Inr None \<Rightarrow> Inl (Brk ''Cannot parse kernel .config'')
      | Inr (Some content) \<Rightarrow>
          (case read_loop (stack_junk e) content vars 0 of None \<Rightarrow> Inl Overrun | Some vars \<Rightarrow> Inr vars))"

section \<open>Constraints\<close>

text \<open>The loop of \<open>array_len\<close> starts behind the first entry.\<close>

definition array_len :: "string list \<Rightarrow> nat option" where
  "array_len kconfigs = (if kconfigs = [] then None else Some (length kconfigs))"

definition strnchr :: "string \<Rightarrow> char \<Rightarrow> nat \<Rightarrow> string option" where
  "strnchr s c n = (if c \<in> set (take n s) then Some (dropWhile (\<lambda>x. x \<noteq> c) s) else None)"

definition get_len :: "string \<Rightarrow> nat \<Rightarrow> nat" where
  "get_len kconfig n = (case strnchr kconfig (CHR ''='') n of None \<Rightarrow> n | Some sep \<Rightarrow> length kconfig - length sep)"

definition print_err :: "tst_expr_tok \<Rightarrow> nat \<Rightarrow> string \<Rightarrow> string" where
  "print_err var spaces err =
     take (tok_len var) (tok var) @ CHR 0x0A # replicate spaces (CHR '' '') @ ''^'' @ CHR 0x0A # err @ [CHR 0x0A, CHR 0x0A]"

definition str_at :: "string \<Rightarrow> nat \<Rightarrow> char" where
  "str_at s i = deref (drop i s)"

text \<open>The name: \<open>Inl\<close> where \<open>validate_var\<close> returns from inside of the loop.\<close>

function name_loop :: "tst_expr_tok \<Rightarrow> nat \<Rightarrow> (int \<times> string) + nat" where
  "name_loop var i =
     (if length (tok var) \<le> i \<or> str_at (tok var) i = NUL then Inr i
      else if i \<ge> tok_len var then Inl (0, [])
      else let c = str_at (tok var) i in
        if var_char c then name_loop var (i + 1)
        else if c = CHR ''='' then Inr (i + 1)
        else Inl (1, print_err var i ''Unexpected character in variable name''))"
  by pat_completeness auto
termination by (relation "measure (\<lambda>(var, i). length (tok var) - i)") auto

declare name_loop.simps [simp del]

text \<open>The next position, behind \<open>i\<close>, that ends the token or does not satisfy \<open>p\<close>.\<close>

definition next_pos :: "(char \<Rightarrow> bool) \<Rightarrow> tst_expr_tok \<Rightarrow> nat \<Rightarrow> nat" where
  "next_pos p var i = i + 1 + length (takeWhile p (drop (i + 1) (take (tok_len var) (tok var))))"

text \<open>What follows the loop over the name.\<close>

definition validate_value :: "tst_expr_tok \<Rightarrow> nat \<Rightarrow> int \<times> string" where
  "validate_value var i =
     (if i \<ge> tok_len var then
        (if str_at (tok var) (i - 1) = CHR ''='' then (-1, print_err var i ''Missing value'') else (0, []))
      else if str_at (tok var) i = CHR 0x22 then
        let i = next_pos (\<lambda>c. c \<noteq> CHR 0x22) var i in
        if i < tok_len var - 1 then (1, print_err var i ''Garbage after a string'')
        else if str_at (tok var) i \<noteq> CHR 0x22 then (1, print_err var i ''Untermianted string'')
        else (0, [])
      else
        let i = next_pos isalnum var i in
        if i < tok_len var then (1, print_err var i ''Invalid character in variable value'') else (0, []))"

definition validate_var :: "tst_expr_tok \<Rightarrow> int \<times> string" where
  "validate_var var =
     (if tok_len var < 7 \<or> \<not> strncmp_eq (tok var) ''CONFIG_'' 7 then (1, print_err var 0 ''Expected CONFIG_ prefix'')
      else case name_loop var 7 of Inl r \<Rightarrow> r | Inr i \<Rightarrow> validate_value var i)"

definition is_var :: "tst_expr_tok \<Rightarrow> bool" where
  "is_var j \<longleftrightarrow> tok_op j = TST_OP_VAR"

definition validate_vars :: "tst_expr list \<Rightarrow> 32 word \<times> string" where
  "validate_vars exprs =
     fold (\<lambda>j (ret, out). case validate_var j of (r, t) \<Rightarrow> (or ret (word_of_int r), out @ t))
       (filter is_var (concat (map rpn exprs))) (0, [])"

definition get_var_cnt :: "tst_expr list \<Rightarrow> nat" where
  "get_var_cnt exprs = length (filter is_var (concat (map rpn exprs)))"

fun find_var :: "tst_kconfig_var list \<Rightarrow> string \<Rightarrow> nat option" where
  "find_var [] var = None"
| "find_var (v # vs) var = (if kid v = var then Some 0 else map_option Suc (find_var vs var))"

text \<open>The entries stored so far are \<open>vars\<close>; the entry behind them is written before the search.\<close>

fun populate_toks :: "tst_expr_tok list \<Rightarrow> tst_kconfig_var list \<Rightarrow> failure + tst_expr_tok list \<times> tst_kconfig_var list" where
  "populate_toks [] vars = Inr ([], vars)"
| "populate_toks (j # js) vars =
     (if \<not> is_var j then
        (case populate_toks js vars of Inl f \<Rightarrow> Inl f | Inr (js, vars) \<Rightarrow> Inr (j # js, vars))
      else
        let n = get_len (tok j) (tok_len j) in
        if n + 1 \<ge> KCONFIG_ID_SIZE then Inl (Brk ''kconfig var id too long!'')
        else
          let v = \<lparr>kid = take n (tok j), id_len = n, choice = NUL, kval = None\<rparr>;
              (p, vars) = (case find_var vars (kid v) of
                 Some i \<Rightarrow> (i, vars) | None \<Rightarrow> (length vars, vars @ [v])) in
          (case populate_toks js vars of Inl f \<Rightarrow> Inl f | Inr (js, vars) \<Rightarrow> Inr (j\<lparr>priv := Priv_var p\<rparr> # js, vars)))"

fun populate_vars :: "tst_expr list \<Rightarrow> tst_kconfig_var list \<Rightarrow> failure + tst_expr list \<times> tst_kconfig_var list" where
  "populate_vars [] vars = Inr ([], vars)"
| "populate_vars (x # xs) vars =
     (case populate_toks (rpn x) vars of
        Inl f \<Rightarrow> Inl f
      | Inr (js, vars) \<Rightarrow>
          (case populate_vars xs vars of Inl f \<Rightarrow> Inl f | Inr (xs, vars) \<Rightarrow> Inr (x\<lparr>rpn := js\<rparr> # xs, vars)))"

definition priv_var :: "tst_kconfig_var list \<Rightarrow> tst_expr_tok \<Rightarrow> tst_kconfig_var" where
  "priv_var vars expr = (case priv expr of Priv_var i \<Rightarrow> vars ! i | _ \<Rightarrow> TST_KCONFIG_INIT [])"

definition map_var :: "tst_kconfig_var list \<Rightarrow> tst_expr_tok \<Rightarrow> int" where
  "map_var vars expr =
     (let var = priv_var vars expr in
      if choice var = NUL then 0
      else case strnchr (tok expr) (CHR ''='') (tok_len expr) of
        None \<Rightarrow> c_bool (choice var = CHR ''y'' \<or> choice var = CHR ''m'')
      | Some v \<Rightarrow>
          let v = tl v; n = tok_len expr - (length (tok expr) - length v);
              ch = (if strncmp_eq v ''m'' n then CHR ''m''
                    else if strncmp_eq v ''y'' n then CHR ''y''
                    else if strncmp_eq v ''n'' n then CHR ''n'' else CHR ''v'') in
          if ch \<noteq> CHR ''v'' then c_bool (choice var = ch)
          else if choice var \<noteq> CHR ''v'' then 0
          else if length (the (kval var)) \<noteq> n then 0
          else c_bool (strncmp_eq v (the (kval var)) n))"

definition dump_vars :: "tst_kconfig_var list \<Rightarrow> tst_expr \<Rightarrow> message list" where
  "dump_vars vars expr = (TINFO, ''Variables:'') #
     map (\<lambda>i. let var = priv_var vars i in
            (TINFO, '' '' @ kid var @
               (if choice var = NUL then '' Undefined''
                else if choice var = CHR ''v'' then ''='' @ the (kval var)
                else ''='' @ [choice var])))
       (filter is_var (rpn expr))"

text \<open>The loop that evaluates the expressions; -1 stands for what the code reads from an uninitialised stack.\<close>

fun eval_exprs :: "tst_kconfig_var list \<Rightarrow> (string \<times> tst_expr) list \<Rightarrow> int \<times> message list" where
  "eval_exprs vars [] = (0, [])"
| "eval_exprs vars ((k, x) # xs) =
     (let (ret, ms) = eval_exprs vars xs in
      if tst_bool_expr_eval x (map_var vars) \<noteq> Some 1 then
        (1, (TINFO, ''Constraint '' @ apos @ k @ apos @ '' not satisfied!'') # dump_vars vars x @ ms)
      else (ret, ms))"

fun parse_exprs :: "bool \<Rightarrow> string list \<Rightarrow> failure + tst_expr list" where
  "parse_exprs alloc [] = Inr []"
| "parse_exprs alloc (k # ks) =
     (case snd (tst_bool_expr_parse alloc k) of
        None \<Rightarrow> Inl (Brk ''Invalid kconfig expression!'')
      | Some x \<Rightarrow> (case parse_exprs alloc ks of Inl f \<Rightarrow> Inl f | Inr xs \<Rightarrow> Inr (x # xs)))"

definition tst_kconfig_check :: "bool \<Rightarrow> kconfig_env \<Rightarrow> string list \<Rightarrow> failure + int \<times> message list" where
  "tst_kconfig_check alloc e kconfigs =
     (case array_len kconfigs of
        None \<Rightarrow> Inl Overrun
      | Some expr_cnt \<Rightarrow>
          if fst (kconfig_skip_check e) then Inr (0, snd (kconfig_skip_check e))
          else case parse_exprs alloc kconfigs of
            Inl f \<Rightarrow> Inl f
          | Inr exprs \<Rightarrow>
              if fst (validate_vars exprs) \<noteq> 0 then Inl (Brk ''Invalid kconfig variables!'')
              else case populate_vars exprs [] of
                Inl f \<Rightarrow> Inl f
              | Inr (exprs, vars) \<Rightarrow>
                  (case tst_kconfig_read e vars of
                     Inl f \<Rightarrow> Inl f
                   | Inr vars \<Rightarrow> Inr (eval_exprs vars (zip kconfigs exprs))))"

definition tst_kconfig_get :: "kconfig_env \<Rightarrow> string \<Rightarrow> failure + char" where
  "tst_kconfig_get e confname =
     (if fst (kconfig_skip_check e) then Inr NUL
      else if length confname \<ge> KCONFIG_ID_SIZE then
        Inl (Brk (''Kconfig var name '' @ CHR 0x22 # confname @ CHR 0x22 # '' too long''))
      else case tst_kconfig_read e [TST_KCONFIG_INIT confname] of
        Inl f \<Rightarrow> Inl f
      | Inr vars \<Rightarrow> Inr (choice (hd vars)))"

section \<open>The kernel command line\<close>

record tst_kcmdline_var =
  key :: string
  cvalue :: string
  found :: bool

definition TST_KCMDLINE_INIT :: "string \<Rightarrow> tst_kcmdline_var" where
  "TST_KCMDLINE_INIT paraname = \<lparr>key = paraname, cvalue = [], found = False\<rparr>"

definition CMDLINE_BUF :: nat where "CMDLINE_BUF = 256"

text \<open>The parameters at a \<open>=\<close>, and the index of the last one that matches.\<close>

definition mark_found :: "string \<Rightarrow> tst_kcmdline_var list \<Rightarrow> tst_kcmdline_var list" where
  "mark_found kbuf params = map (\<lambda>p. if key p = kbuf then p\<lparr>found := True\<rparr> else p) params"

definition match_id :: "string \<Rightarrow> tst_kcmdline_var list \<Rightarrow> int \<Rightarrow> int" where
  "match_id kbuf params var_id =
     fold (\<lambda>i r. if key (params ! i) = kbuf then int i else r) [0..<length params] var_id"

definition delimiter :: "char \<Rightarrow> bool" where
  "delimiter c \<longleftrightarrow> c = NUL \<or> c = CHR '' '' \<or> c = CHR 0x0A"

text \<open>The rest of the array \<open>line\<close> from \<open>l_pos\<close> on; \<open>None\<close> is a read behind the array.\<close>

function (sequential) cmdline_loop ::
  "string \<Rightarrow> string \<Rightarrow> int \<Rightarrow> tst_kcmdline_var list \<Rightarrow> tst_kcmdline_var list option" where
  "cmdline_loop [] kbuf var_id params = None"
| "cmdline_loop (c # line) kbuf var_id params =
     (if c = NUL then Some params
      else if c = CHR ''='' then
        cmdline_loop line [] (match_id kbuf params var_id) (mark_found kbuf params)
      else if c = CHR '' '' \<or> c = CHR 0x0A then
        cmdline_loop line [] (-1)
          (if 0 \<le> var_id \<and> nat var_id < length params
           then params[nat var_id := (params ! nat var_id)\<lparr>cvalue := kbuf\<rparr>] else params)
      else if length kbuf + 1 \<ge> CMDLINE_BUF then
        (case dropWhile (\<lambda>c. \<not> delimiter c) line of
           [] \<Rightarrow> None
         | d # rest \<Rightarrow> if d \<noteq> NUL then cmdline_loop (d # rest) [] (-1) params else cmdline_loop rest [] (-1) params)
      else cmdline_loop line (kbuf @ [c]) var_id params)"
  by pat_completeness auto
termination
proof (relation "measure (\<lambda>(line, _). length line)", goal_cases)
  case (4 c line kbuf var_id params d rest)
  then have "length (d # rest) \<le> length line" by (metis length_dropWhile_le)
  then show ?case by simp
next
  case (5 c line kbuf var_id params d rest)
  then have "length (d # rest) \<le> length line" by (metis length_dropWhile_le)
  then show ?case by simp
qed auto

text \<open>The text of \<open>/proc/cmdline\<close> and what is in the array before are arguments.\<close>

definition tst_kcmdline_parse ::
  "string \<Rightarrow> string \<Rightarrow> tst_kcmdline_var list \<Rightarrow> failure + tst_kcmdline_var list \<times> message list" where
  "tst_kcmdline_parse arr content params =
     (case fgets 1024 content of
        None \<Rightarrow> Inl (Brk ''Failed to read /proc/cmdline'')
      | Some (l, _) \<Rightarrow>
          (case cmdline_loop (store_line l arr) [] (-1) params of
             None \<Rightarrow> Inl Overrun
           | Some params \<Rightarrow> Inr (params,
               map (\<lambda>p. (TINFO, key p @ (if found p then '' is found in /proc/cmdline''
                   else '' is not found in /proc/cmdline''))) params)))"

section \<open>Slow kernel options\<close>

definition slow_names :: "string list" where
  "slow_names =
     [''CONFIG_PROVE_LOCKING'', ''CONFIG_LOCKDEP'', ''CONFIG_DEBUG_SPINLOCK'', ''CONFIG_DEBUG_RT_MUTEXES'',
      ''CONFIG_DEBUG_MUTEXES'', ''CONFIG_KASAN'', ''CONFIG_SLUB_RCU_DEBUG'', ''CONFIG_TRACE_IRQFLAGS'',
      ''CONFIG_DEBUG_NET'', ''CONFIG_EXT4_DEBUG'', ''CONFIG_QUOTA_DEBUG'', ''CONFIG_FAULT_INJECTION'',
      ''CONFIG_DEBUG_OBJECTS'']"

text \<open>The static variables: the cached result, if there is one, and the array.\<close>

record slow_state =
  slow_kconfig_cached :: bool
  slow_kconfig_result :: bool
  slow_kconfigs :: "tst_kconfig_var list"

definition slow_init :: slow_state where
  "slow_init = \<lparr>slow_kconfig_cached = False, slow_kconfig_result = False, slow_kconfigs = map TST_KCONFIG_INIT slow_names\<rparr>"

definition tst_has_slow_kconfig :: "kconfig_env \<Rightarrow> slow_state \<Rightarrow> failure + bool \<times> message list \<times> slow_state" where
  "tst_has_slow_kconfig e s =
     (if slow_kconfig_cached s then Inr (slow_kconfig_result s, [], s)
      else
        let s = s\<lparr>slow_kconfig_cached := True\<rparr> in
        if fst (kconfig_path e) = None then Inr (False, snd (kconfig_path e), s\<lparr>slow_kconfig_result := False\<rparr>)
        else case tst_kconfig_read e (slow_kconfigs s) of
          Inl f \<Rightarrow> Inl f
        | Inr vars \<Rightarrow>
            (case filter (\<lambda>v. choice v = CHR ''y'') vars of
               v # _ \<Rightarrow> Inr (True, snd (kconfig_path e) @ [(TINFO, kid v @ '' kernel option detected which might slow the execution'')],
                 s\<lparr>slow_kconfigs := vars, slow_kconfig_result := True\<rparr>)
             | [] \<Rightarrow> Inr (False, snd (kconfig_path e), s\<lparr>slow_kconfigs := vars, slow_kconfig_result := False\<rparr>)))"

section \<open>What is read from a config\<close>

text \<open>The lines of a kernel config.\<close>

datatype entry = Set string string | Not_set string | Other string

fun line_text :: "entry \<Rightarrow> string" where
  "line_text (Set k v) = k @ ''='' @ v @ [CHR 0x0A]"
| "line_text (Not_set k) = ''# '' @ k @ '' is not set'' @ [CHR 0x0A]"
| "line_text (Other l) = l @ [CHR 0x0A]"

definition config_text :: "entry list \<Rightarrow> string" where
  "config_text es = concat (map line_text es)"

definition conf_id :: "string \<Rightarrow> bool" where
  "conf_id k \<longleftrightarrow> take 7 k = ''CONFIG_'' \<and> list_all var_char k"

definition plain_line :: "string \<Rightarrow> bool" where
  "plain_line l \<longleftrightarrow> length l + 1 < KCONFIG_LINE \<and> list_all (\<lambda>c. c \<noteq> NUL \<and> c \<noteq> CHR 0x0A) l"

fun entry_ok :: "entry \<Rightarrow> bool" where
  "entry_ok (Set k v) \<longleftrightarrow> conf_id k \<and> v \<noteq> [] \<and> list_all (\<lambda>c. \<not> isspace c) v \<and> plain_line (k @ ''='' @ v)"
| "entry_ok (Not_set k) \<longleftrightarrow> conf_id k \<and> plain_line (''# '' @ k @ '' is not set'')"
| "entry_ok (Other l) \<longleftrightarrow> plain_line l \<and>
     (let s = dropWhile isspace (l @ [CHR 0x0A]) in
      deref s = CHR ''#'' \<and> strstr s ''is not set'' = None \<or> strstr s ''CONFIG_'' = None)"

fun entry_ids :: "entry \<Rightarrow> string list" where
  "entry_ids (Set k v) = [k]"
| "entry_ids (Not_set k) = [k]"
| "entry_ids (Other l) = []"

definition set_val :: "string \<Rightarrow> tst_kconfig_var \<Rightarrow> tst_kconfig_var" where
  "set_val v u =
     (if v = ''y'' then u\<lparr>choice := CHR ''y''\<rparr>
      else if v = ''m'' then u\<lparr>choice := CHR ''m''\<rparr>
      else u\<lparr>choice := CHR ''v'', kval := Some v\<rparr>)"

text \<open>What a line says about a variable.\<close>

fun assign :: "entry \<Rightarrow> tst_kconfig_var \<Rightarrow> tst_kconfig_var" where
  "assign (Set k v) u = (if kid u = k then set_val v u else u)"
| "assign (Not_set k) u = (if kid u = k then u\<lparr>choice := CHR ''n''\<rparr> else u)"
| "assign (Other l) u = u"

text \<open>The variables the library asks for.\<close>

definition vars_ok :: "tst_kconfig_var list \<Rightarrow> bool" where
  "vars_ok vars \<longleftrightarrow> distinct (map kid vars) \<and> list_all (\<lambda>v. id_len v = length (kid v) \<and> NUL \<notin> set (kid v)) vars"

declare assign.simps [simp del]

lemma assign_same [simp]:
  "kid u = k \<Longrightarrow> assign (Set k v) u = set_val v u" "kid u = k \<Longrightarrow> assign (Not_set k) u = u\<lparr>choice := CHR ''n''\<rparr>"
  by (simp_all add: assign.simps)

lemma kid_assign [simp]: "kid (assign e u) = kid u" "id_len (assign e u) = id_len u"
  by (cases e; simp add: set_val_def assign.simps)+

lemma assign_other: "kid u \<notin> set (entry_ids e) \<Longrightarrow> assign e u = u"
  by (cases e) (auto simp: assign.simps)

lemma map_assign_other: "set (entry_ids e) \<inter> kid ` set vars = {} \<Longrightarrow> map (assign e) vars = vars"
  by (metis assign_other disjoint_iff imageI map_idI)

lemma vars_ok_assign: "vars_ok vars \<Longrightarrow> vars_ok (map (assign e) vars)"
  by (simp add: vars_ok_def list.pred_map comp_def)

lemma var_char_simps:
  "\<not> var_char NUL" "\<not> var_char (CHR ''='')" "\<not> var_char (CHR '' '')" "\<not> var_char (CHR ''#'')"
  by (simp_all add: var_char_def char_between_def)

lemma var_char_no_space: "var_char c \<Longrightarrow> \<not> isspace c"
  by (auto simp: var_char_def isspace_def char_between_def)

lemma conf_id_Cons:
  assumes "conf_id k"
  obtains r where "k = ''CONFIG_'' @ r" "list_all var_char r" "NUL \<notin> set k"
proof -
  have "k = ''CONFIG_'' @ drop 7 k" using assms by (metis append_take_drop_id conf_id_def)
  moreover have "list_all var_char (drop 7 k)" using assms by (auto simp: conf_id_def list_all_iff dest: in_set_dropD)
  moreover have "NUL \<notin> set k" using assms var_char_simps(1) by (auto simp: conf_id_def list_all_iff)
  ultimately show thesis by (rule that)
qed

lemma c_str_append: "NUL \<notin> set l \<Longrightarrow> c_str (l @ s) = l @ c_str s" "c_str (NUL # s) = []"
  by (induction l) (auto simp: c_str_def)

lemma strstr_arr_line:
  assumes "NUL \<notin> set l"
  shows "strstr_arr (l @ NUL # j) n = map_option (\<lambda>q. q @ NUL # j) (strstr l n)"
proof -
  have "strstr l n = Some q \<Longrightarrow> \<exists>p. l = p @ q" for q
    by (induction l n rule: strstr.induct) (auto split: if_splits)
  then show ?thesis
    using assms by (auto simp: strstr_arr_def c_str_append split: option.split)
qed

lemma strstr_found: "strstr (n @ s) n = Some (n @ s)"
  by (cases "n @ s") (simp_all, metis append_eq_conv_conj)

text \<open>Matching an ID in the line against the variables.\<close>

lemma strncmp_id:
  assumes "NUL \<notin> set k" "NUL \<notin> set u" "length u = length k"
  shows "strncmp_eq u (k @ s) (length k) \<longleftrightarrow> u = k"
proof -
  have "take (length k) (c_str (k @ s)) = k"
    using assms(1) by (simp add: c_str_append)
  then show ?thesis using assms(2,3) by (simp add: strncmp_eq_def c_str_no_NUL)
qed

lemma match_vars_other:
  assumes "vars_ok vars" "k \<notin> kid ` set vars" "NUL \<notin> set k"
  shows "match_vars b (k @ s) (length k) vars = Some (False, vars)"
  using assms
proof (induction vars)
  case (Cons u vars)
  then have "id_len u = length (kid u)" "NUL \<notin> set (kid u)" "kid u \<noteq> k" "vars_ok vars"
    by (auto simp: vars_ok_def)
  then show ?case using Cons strncmp_id [of k "kid u" s] by auto
qed simp

lemma match_vars_Cons:
  assumes "vars_ok (u # vars)" "NUL \<notin> set k"
  shows "id_len u \<noteq> length k \<or> \<not> strncmp_eq (kid u) (k @ s) (length k) \<longleftrightarrow> kid u \<noteq> k"
    and "kid u = k \<Longrightarrow> k \<notin> kid ` set vars" and "vars_ok vars"
  using assms strncmp_id [of k "kid u" s] by (auto simp: vars_ok_def)

lemma match_vars_Not_set:
  assumes "vars_ok vars" "NUL \<notin> set k"
  shows "match_vars True (k @ s) (length k) vars = Some (k \<in> kid ` set vars, map (assign (Not_set k)) vars)"
  using assms
proof (induction vars)
  case (Cons u vars)
  note c = match_vars_Cons [OF Cons.prems]
  show ?case
  proof (cases "kid u = k")
    case True
    then have "map (assign (Not_set k)) vars = vars" using map_assign_other [of "Not_set k" vars] c(2) by simp
    then show ?thesis using c(1) [of s] True by simp
  next
    case False
    then show ?thesis using c(1) [of s] Cons.IH [OF c(3) Cons.prems(2)] by (auto simp: assign_other)
  qed
qed simp

lemma val_scan_line:
  assumes "list_all (\<lambda>c. \<not> isspace c) v"
  shows "val_scan (v @ CHR 0x0A # s) = Some (length v)"
proof -
  have "isspace (CHR 0x0A)" by (simp add: isspace_def char_between_def)
  then show ?thesis using assms by (auto simp: val_scan_def list_all_iff takeWhile_append2)
qed

lemma match_vars_Set:
  assumes "vars_ok vars" "NUL \<notin> set k" "v \<noteq> []" "list_all (\<lambda>c. \<not> isspace c) v" "NUL \<notin> set v"
  shows "match_vars False (k @ ''='' @ v @ [CHR 0x0A] @ NUL # j) (length k) vars
    = Some (k \<in> kid ` set vars \<and> (v = ''y'' \<or> v = ''m''), map (assign (Set k v)) vars)"
  using assms(1)
proof (induction vars)
  case (Cons u vars)
  let ?s = "''='' @ v @ [CHR 0x0A] @ NUL # j"
  note c = match_vars_Cons [OF Cons.prems assms(2)]
  show ?case
  proof (cases "kid u = k")
    case True
    have "\<not> isspace (CHR ''='')" by (simp add: isspace_def char_between_def)
    moreover have "dropWhile isspace (v @ CHR 0x0A # NUL # j) = v @ CHR 0x0A # NUL # j"
      using assms(3,4) by (cases v) auto
    moreover have "take (length v) (c_str (v @ CHR 0x0A # NUL # j)) = v"
      using assms(5) by (simp add: c_str_append)
    moreover have "length v = 1 \<and> (deref (v @ CHR 0x0A # NUL # j) = CHR ''y'' \<or> deref (v @ CHR 0x0A # NUL # j) = CHR ''m'')
        \<longleftrightarrow> v = ''y'' \<or> v = ''m''"
      using assms(3) by (cases v) auto
    moreover have "map (assign (Set k v)) vars = vars" using map_assign_other [of "Set k v" vars] c(2) True by simp
    ultimately show ?thesis
      using c(1) [of ?s] True val_scan_line [OF assms(4), of "NUL # j"] match_vars_other [OF c(3) c(2) assms(2), of False ?s]
      by (auto simp: set_val_def Let_def)
  next
    case False
    then show ?thesis using c(1) [of ?s] Cons.IH [OF c(3)] by (auto simp: assign_other)
  qed
qed simp


text \<open>A line of the file.\<close>

lemma no_space [simp]: "\<not> isspace (CHR ''C'')" "\<not> isspace (CHR ''#'')" "\<not> isspace NUL"
  by (simp_all add: isspace_def char_between_def)

lemma dropWhile_NUL: "dropWhile isspace (s @ NUL # j) = dropWhile isspace s @ NUL # j"
  by (induction s) auto

lemma takeWhile_id:
  assumes "conf_id k" "\<not> var_char c"
  shows "takeWhile var_char (k @ c # s) = k"
  using assms by (simp add: conf_id_def list_all_iff takeWhile_append2)

lemma strstr_conf_id: "conf_id k \<Longrightarrow> strstr (k @ s) ''CONFIG_'' = Some (k @ s)"
  using strstr_found [of "''CONFIG_''"] by (elim conf_id_Cons) (metis append.assoc)

definition found_by :: "entry \<Rightarrow> tst_kconfig_var list \<Rightarrow> bool" where
  "found_by e vars = (case e of
     Set k v \<Rightarrow> k \<in> kid ` set vars \<and> (v = ''y'' \<or> v = ''m'') | Not_set k \<Rightarrow> k \<in> kid ` set vars | Other l \<Rightarrow> False)"

lemma parse_line_Set:
  assumes "entry_ok (Set k v)" "vars_ok vars"
  shows "kconfig_parse_line ((k @ ''='' @ v @ [CHR 0x0A]) @ NUL # j) vars
    = Some (found_by (Set k v) vars, map (assign (Set k v)) vars)"
proof -
  let ?l = "k @ ''='' @ v @ [CHR 0x0A]"
  have v: "v \<noteq> []" "list_all (\<lambda>c. \<not> isspace c) v" "NUL \<notin> set v" "conf_id k"
    using assms(1) by (auto simp: plain_line_def list_all_iff)
  obtain r where k: "k = ''CONFIG_'' @ r" "NUL \<notin> set k" using conf_id_Cons [OF v(4)] by metis
  have "dropWhile isspace (?l @ NUL # j) = ?l @ NUL # j" "deref (?l @ NUL # j) \<noteq> CHR ''#''"
    by (simp_all add: k(1))
  moreover have "strstr_arr (?l @ NUL # j) ''CONFIG_'' = Some (?l @ NUL # j)"
    using strstr_arr_line [of ?l j "''CONFIG_''"] strstr_conf_id [OF v(4), of "''='' @ v @ [CHR 0x0A]"] k(2) v(3) by simp
  moreover have "takeWhile var_char (?l @ NUL # j) = k"
    using takeWhile_id [OF v(4) var_char_simps(2)] by simp
  moreover have "match_vars False (?l @ NUL # j) (length k) vars = Some (found_by (Set k v) vars, map (assign (Set k v)) vars)"
    using match_vars_Set [OF assms(2) k(2) v(1-3), of j] by (simp add: found_by_def)
  ultimately show ?thesis
    unfolding kconfig_parse_line_def Let_def by (simp only: option.case if_False simp_thms)
qed

lemma strstr_skip: "take (length n) (c # s) \<noteq> n \<Longrightarrow> strstr (c # s) n = strstr s n"
  by simp

lemma strstr_is_not_set: "strstr (p @ ''is not set'' @ s) ''is not set'' \<noteq> None"
proof (induction p)
  case Nil
  then show ?case using strstr_found [of "''is not set''" s] by simp
qed simp

lemma parse_line_Not_set:
  assumes "entry_ok (Not_set k)" "vars_ok vars"
  shows "kconfig_parse_line ((''# '' @ k @ '' is not set'' @ [CHR 0x0A]) @ NUL # j) vars
    = Some (found_by (Not_set k) vars, map (assign (Not_set k)) vars)"
proof -
  let ?l = "''# '' @ k @ '' is not set'' @ [CHR 0x0A]"
  have c: "conf_id k" using assms(1) by simp
  obtain r where k: "k = ''CONFIG_'' @ r" "NUL \<notin> set k" using conf_id_Cons [OF c] by metis
  have n: "NUL \<notin> set ?l" using k(2) by simp
  have "dropWhile isspace (?l @ NUL # j) = ?l @ NUL # j" "deref (?l @ NUL # j) = CHR ''#''" by simp_all
  moreover have "strstr_arr (?l @ NUL # j) ''is not set'' \<noteq> None"
    using strstr_arr_line [OF n, of j "''is not set''"] strstr_is_not_set [of "''# '' @ k @ '' ''" "[CHR 0x0A]"] by simp
  moreover have "strstr_arr (?l @ NUL # j) ''CONFIG_'' = Some (k @ '' is not set'' @ [CHR 0x0A] @ NUL # j)"
    using strstr_arr_line [OF n, of j "''CONFIG_''"] strstr_conf_id [OF c, of "'' is not set'' @ [CHR 0x0A]"] by simp
  moreover have "takeWhile var_char (k @ '' is not set'' @ [CHR 0x0A] @ NUL # j) = k"
    using takeWhile_id [OF c var_char_simps(3)] by simp
  ultimately show ?thesis
    using match_vars_Not_set [OF assms(2) k(2), of "'' is not set'' @ [CHR 0x0A] @ NUL # j"]
    unfolding kconfig_parse_line_def found_by_def Let_def by (simp only: entry.case option.case if_False simp_thms)
qed

lemma parse_line_Other:
  assumes "entry_ok (Other l)"
  shows "kconfig_parse_line ((l @ [CHR 0x0A]) @ NUL # j) vars = Some (False, vars)"
proof -
  define s where "s = dropWhile isspace (l @ [CHR 0x0A])"
  have "NUL \<notin> set (l @ [CHR 0x0A])"
    using assms by (auto simp: plain_line_def list_all_iff)
  then have n: "NUL \<notin> set s"
    unfolding s_def by (meson set_dropWhileD)
  have s: "dropWhile isspace ((l @ [CHR 0x0A]) @ NUL # j) = s @ NUL # j"
    unfolding s_def by (rule dropWhile_NUL)
  have d: "deref (s @ NUL # j) = deref s" by (cases s) auto
  have q: "strstr s m = None \<Longrightarrow> strstr_arr (s @ NUL # j) m = None" for m
    using strstr_arr_line [OF n, of j m] by simp
  have "deref s = CHR ''#'' \<and> strstr s ''is not set'' = None \<or> strstr s ''CONFIG_'' = None"
    using assms unfolding s_def entry_ok.simps Let_def by (rule conjunct2)
  then show ?thesis
    unfolding kconfig_parse_line_def Let_def s d by (elim disjE conjE) (simp_all add: q)
qed

lemma parse_line_entry:
  assumes "entry_ok e" "vars_ok vars"
  shows "kconfig_parse_line (store_line (line_text e) arr) vars = Some (found_by e vars, map (assign e) vars)"
proof (cases e)
  case (Set k v)
  then show ?thesis using assms parse_line_Set [of k v vars] by (simp add: store_line_def)
next
  case (Not_set k)
  then show ?thesis using assms parse_line_Not_set [of k vars] by (simp add: store_line_def)
next
  case (Other l)
  then show ?thesis
    using assms parse_line_Other [of l _ vars] map_assign_other [of e vars] by (simp add: store_line_def found_by_def)
qed

lemma fgets_entry:
  assumes "entry_ok e"
  shows "fgets KCONFIG_LINE (line_text e @ s) = Some (line_text e, s)"
proof -
  obtain l where l: "line_text e = l @ [CHR 0x0A]" "plain_line l" using assms by (cases e) auto
  then have "takeWhile (\<lambda>c. c \<noteq> CHR 0x0A) (line_text e @ s) = l"
    by (auto simp: plain_line_def list_all_iff takeWhile_append2)
  moreover have "min (KCONFIG_LINE - 1) (Suc (length l)) = Suc (length l)"
    using l(2) by (auto simp: plain_line_def min_def)
  ultimately show ?thesis using l(1) by (simp add: fgets_def)
qed

text \<open>Counting: a variable counts as found at most once, because its ID is in one line only.\<close>

definition count_done :: "entry list \<Rightarrow> tst_kconfig_var list \<Rightarrow> nat" where
  "count_done es vars = length (filter (\<lambda>u. kid u \<notin> set (concat (map entry_ids es))) vars)"

lemma count_done_map [simp]: "count_done es (map (assign e) vars) = count_done es vars"
  by (simp add: count_done_def filter_map comp_def)

lemma count_done_step:
  assumes "distinct (concat (map entry_ids (e # es)))" "distinct (map kid vars)"
  shows "count_done (e # es) vars + of_bool (found_by e vars) \<le> count_done es vars"
  using assms(2)
proof (induction vars)
  case (Cons u vars)
  have "found_by e (u # vars) \<Longrightarrow> kid u \<notin> set (entry_ids e) \<Longrightarrow> found_by e vars"
    and "kid u \<in> set (entry_ids e) \<Longrightarrow> \<not> found_by e vars \<and> kid u \<notin> set (concat (map entry_ids es))"
    using Cons.prems assms(1) by (cases e; auto simp: found_by_def)+
  then show ?case
    using Cons by (auto simp: count_done_def)
qed (simp add: count_done_def found_by_def split: entry.split)

lemma count_done_all:
  assumes "count_done es vars = length vars"
  shows "map (fold assign es) vars = vars"
proof -
  have "\<forall>u \<in> set vars. kid u \<notin> set (concat (map entry_ids es))"
    using assms by (metis count_done_def filter_id_conv length_filter_less less_irrefl)
  moreover have "kid u \<notin> set (concat (map entry_ids es)) \<Longrightarrow> fold assign es u = u" for u
    by (induction es) (auto simp: assign_other)
  ultimately show ?thesis by (auto intro!: map_idI)
qed

lemma read_loop_config:
  assumes "list_all entry_ok es" "distinct (concat (map entry_ids es))" "vars_ok vars" "n \<le> count_done es vars"
  shows "read_loop arr (config_text es) vars n = Some (map (fold assign es) vars)"
  using assms
proof (induction es arbitrary: arr vars n)
  case Nil
  then show ?case by (subst read_loop.simps) (simp add: config_text_def fgets_def)
next
  case (Cons e es)
  let ?n = "n + of_bool (found_by e vars)" and ?vars = "map (assign e) vars"
  have n: "?n \<le> count_done es ?vars"
    using count_done_step [of e es vars] Cons.prems by (auto simp: vars_ok_def)
  have "read_loop arr (config_text (e # es)) vars n =
      (if ?n = length ?vars then Some ?vars else read_loop (store_line (line_text e) arr) (config_text es) ?vars ?n)"
    using Cons.prems fgets_entry [of e "config_text es"] parse_line_entry [of e vars arr]
    by (subst read_loop.simps) (simp add: config_text_def)
  moreover have "?n = length ?vars \<Longrightarrow> map (fold assign es) ?vars = ?vars"
    using n count_done_all [of es ?vars] length_filter_le [of _ ?vars] by (metis count_done_def le_antisym)
  ultimately show ?case
    using Cons.IH [OF _ _ vars_ok_assign n] Cons.prems by (auto simp: comp_def)
qed



definition ex_env :: kconfig_env where
  "ex_env = \<lparr>env_skip = False, env_path = Some ''cfg'', file_exists = (\<lambda>p. p = ''cfg''), uname_release = ''6'',
     fopen = (\<lambda>p. Some (config_text [Set ''CONFIG_A'' ''y'', Not_set ''CONFIG_B''])), popen = (\<lambda>p. None), stack_junk = []\<rparr>"

lemma ex_env_config:
  "open_kconfig ex_env = Inr (Some (config_text [Set ''CONFIG_A'' ''y'', Not_set ''CONFIG_B'']))"
  "list_all entry_ok [Set ''CONFIG_A'' ''y'', Not_set ''CONFIG_B'']"
  by (simp add: open_kconfig_def kconfig_path_def ex_env_def) code_simp


text \<open>A last line without a line break is not read as written: the search for the end of the value
  goes on behind the terminating NUL, in what the array held before. Without white space there it
  leaves the array, otherwise even the value \<open>y\<close> is taken for some other value.\<close>
theorem kconfig_unterminated_line:
  assumes "conf_id k" "v \<noteq> []" "list_all (\<lambda>c. \<not> isspace c) v" "NUL \<notin> set v"
  shows "kconfig_parse_line ((k @ ''='' @ v) @ NUL # junk) [TST_KCONFIG_INIT k] =
    (if list_all (\<lambda>c. \<not> isspace c) junk then None
     else Some (False, [(TST_KCONFIG_INIT k)\<lparr>choice := CHR ''v'', kval := Some v\<rparr>]))"
proof -
  let ?l = "k @ ''='' @ v" and ?v = "v @ NUL # junk"
  obtain r where k: "k = ''CONFIG_'' @ r" "NUL \<notin> set k" using conf_id_Cons [OF assms(1)] by metis
  have u: "vars_ok [TST_KCONFIG_INIT k]" using k(2) by (simp add: vars_ok_def TST_KCONFIG_INIT_def)
  have "dropWhile isspace (?l @ NUL # junk) = ?l @ NUL # junk" "deref (?l @ NUL # junk) \<noteq> CHR ''#''"
    by (simp_all add: k(1))
  moreover have "strstr_arr (?l @ NUL # junk) ''CONFIG_'' = Some (?l @ NUL # junk)"
    using strstr_arr_line [of ?l junk "''CONFIG_''"] strstr_conf_id [OF assms(1), of "''='' @ v"] k(2) assms(4) by simp
  moreover have "takeWhile var_char (?l @ NUL # junk) = k"
    using takeWhile_id [OF assms(1) var_char_simps(2)] by simp
  moreover have "match_vars False (?l @ NUL # junk) (length k) [TST_KCONFIG_INIT k] =
     (if list_all (\<lambda>c. \<not> isspace c) junk then None
      else Some (False, [(TST_KCONFIG_INIT k)\<lparr>choice := CHR ''v'', kval := Some v\<rparr>]))"
  proof -
    have "dropWhile isspace ?v = ?v" using assms(2,3) by (cases v) auto
    moreover have "\<not> isspace (CHR ''='')" by (simp add: isspace_def char_between_def)
    moreover have "val_scan ?v = (if list_all (\<lambda>c. \<not> isspace c) junk then None
        else Some (length v + Suc (length (takeWhile (\<lambda>c. \<not> isspace c) junk))))"
      using assms(3) by (auto simp: val_scan_def list_all_iff takeWhile_append2)
    moreover have "take (Suc (length v + n)) (c_str ?v) = v" for n using assms(4) by (simp add: c_str_append)
    ultimately show ?thesis
      using match_vars_Cons(1) [OF u k(2), of "''='' @ v @ NUL # junk"]
      by (simp add: TST_KCONFIG_INIT_def Let_def assms(2))
  qed
  ultimately show ?thesis
    unfolding kconfig_parse_line_def Let_def by (simp only: option.case if_False simp_thms)
qed

theorem kconfig_unterminated_line_witness:
  "kconfig_parse_line ((''CONFIG_A'' @ ''='' @ ''y'') @ NUL # '' '') [TST_KCONFIG_INIT ''CONFIG_A'']
     = Some (False, [(TST_KCONFIG_INIT ''CONFIG_A'')\<lparr>choice := CHR ''v'', kval := Some ''y''\<rparr>])"
  using kconfig_unterminated_line [of "''CONFIG_A''" "''y''" "'' ''"]
  by (simp add: conf_id_def var_char_def char_between_def isspace_def)


section \<open>Valid variables\<close>

text \<open>
  What \<open>validate_var\<close> accepts: a name, or a name with a quoted string or a word behind \<open>=\<close>. The first
  character of a word is not looked at.
\<close>

definition value_syntax :: "string \<Rightarrow> bool" where
  "value_syntax v \<longleftrightarrow> v \<noteq> [] \<and>
     (if hd v = CHR 0x22 then 2 \<le> length v \<and> last v = CHR 0x22 \<and> CHR 0x22 \<notin> set (butlast (tl v))
      else list_all isalnum (tl v))"

definition var_syntax :: "string \<Rightarrow> bool" where
  "var_syntax s \<longleftrightarrow> take 7 s = ''CONFIG_'' \<and>
     (case dropWhile var_char s of [] \<Rightarrow> True | c # v \<Rightarrow> c = CHR ''='' \<and> value_syntax v)"

definition tok_inside :: "tst_expr_tok \<Rightarrow> bool" where
  "tok_inside j \<longleftrightarrow> tok_len j \<le> length (tok j) \<and> NUL \<notin> set (tok j)"

lemma str_at_tok:
  assumes "tok_inside j" "i < tok_len j"
  shows "str_at (tok j) i = tok_str j ! i" "str_at (tok j) i \<noteq> NUL" "\<not> length (tok j) \<le> i"
proof -
  have "drop i (tok j) = tok j ! i # drop (Suc i) (tok j)"
    using assms by (simp add: Cons_nth_drop_Suc tok_inside_def)
  then have a: "str_at (tok j) i = tok j ! i" by (simp add: str_at_def)
  have "tok j ! i \<in> set (tok j)" using assms by (simp add: tok_inside_def)
  then show "str_at (tok j) i \<noteq> NUL" using a assms by (metis tok_inside_def)
  show "str_at (tok j) i = tok_str j ! i" "\<not> length (tok j) \<le> i"
    using a assms by (auto simp: tok_str_def tok_inside_def)
qed

lemma length_tok_str [simp]: "tok_inside j \<Longrightarrow> length (tok_str j) = tok_len j"
  by (simp add: tok_str_def tok_inside_def)

lemma name_loop_eq:
  assumes "tok_inside j" "i \<le> tok_len j"
  shows "case dropWhile var_char (drop i (tok_str j)) of
      [] \<Rightarrow> name_loop j i = Inl (0, []) \<or> name_loop j i = Inr (tok_len j)
    | c # v \<Rightarrow> if c = CHR ''='' then name_loop j i = Inr (tok_len j - length v)
        else \<exists>p. name_loop j i = Inl (1, print_err j p ''Unexpected character in variable name'')"
  using assms(2)
proof (induction "tok_len j - i" arbitrary: i)
  case 0
  then have "i = tok_len j" by simp
  then show ?case using assms(1) by (auto simp: tok_str_def name_loop.simps [of j "tok_len j"])
next
  case (Suc n)
  then have i: "i < tok_len j" by simp
  note s = str_at_tok [OF assms(1) i]
  have d: "drop i (tok_str j) = tok_str j ! i # drop (Suc i) (tok_str j)"
    using i assms(1) by (simp add: Cons_nth_drop_Suc)
  have e: "name_loop j i = (if var_char (tok_str j ! i) then name_loop j (Suc i)
      else if tok_str j ! i = CHR ''='' then Inr (Suc i)
      else Inl (1, print_err j i ''Unexpected character in variable name''))"
    using s i by (subst name_loop.simps) (simp add: Let_def)
  have IH: "case dropWhile var_char (drop (Suc i) (tok_str j)) of
      [] \<Rightarrow> name_loop j (Suc i) = Inl (0, []) \<or> name_loop j (Suc i) = Inr (tok_len j)
    | c # v \<Rightarrow> if c = CHR ''='' then name_loop j (Suc i) = Inr (tok_len j - length v)
        else \<exists>p. name_loop j (Suc i) = Inl (1, print_err j p ''Unexpected character in variable name'')"
    using Suc.hyps(1) [of "Suc i"] Suc.hyps(2) i by simp
  show ?case
  proof (cases "var_char (tok_str j ! i)")
    case True
    then show ?thesis using IH unfolding d e by simp
  next
    case False
    have "tok_len j - length (drop (Suc i) (tok_str j)) = Suc i" using i assms(1) by simp
    then show ?thesis using False unfolding d e by auto
  qed
qed

lemma conf_prefix:
  assumes "tok_inside j"
  shows "tok_len j < 7 \<or> \<not> strncmp_eq (tok j) ''CONFIG_'' 7 \<longleftrightarrow> take 7 (tok_str j) \<noteq> ''CONFIG_''"
proof -
  have "c_str (tok j) = tok j" using assms by (simp add: c_str_no_NUL tok_inside_def)
  moreover have "take 7 (c_str ''CONFIG_'') = ''CONFIG_''" by code_simp
  moreover have "tok_len j < 7 \<Longrightarrow> length (take 7 (tok_str j)) < 7" using assms by simp
  moreover have "length ''CONFIG_'' = 7" by simp
  moreover have "\<not> tok_len j < 7 \<Longrightarrow> take 7 (tok_str j) = take 7 (tok j)" by (simp add: tok_str_def min_def)
  ultimately show ?thesis unfolding strncmp_eq_def by (metis less_irrefl)
qed

text \<open>The end of a value, behind its first character.\<close>

lemma next_pos_eq:
  assumes "tok_inside j" "tok_str j = a @ c # v"
  shows "next_pos p j (length a) = Suc (length a) + length (takeWhile p v)"
    and "tok_len j = Suc (length a + length v)"
  using assms length_tok_str [OF assms(1)] by (simp_all add: next_pos_def flip: tok_str_def)

lemma takeWhile_length_all: "length (takeWhile p v) < length v \<longleftrightarrow> \<not> list_all p v"
proof
  show "length (takeWhile p v) < length v \<Longrightarrow> \<not> list_all p v"
    by (metis list_all_iff nless_le takeWhile_eq_all_conv)
  show "\<not> list_all p v \<Longrightarrow> length (takeWhile p v) < length v"
    by (metis (mono_tags, lifting) le_neq_implies_less length_takeWhile_le list_all_iff takeWhile_eq_all_conv takeWhile_eq_take take_all_iff order_refl)
qed

lemma takeWhile_first: "c \<notin> set x \<Longrightarrow> takeWhile (\<lambda>a. a \<noteq> c) (x @ c # y) = x"
  by (induction x) auto

lemma validate_quoted:
  assumes "tok_inside j" "tok_str j = a @ CHR 0x22 # v" "str_at (tok j) (tok_len j) \<noteq> CHR 0x22 \<or> CHR 0x22 \<in> set v"
  shows "next_pos (\<lambda>c. c \<noteq> CHR 0x22) j (length a) < tok_len j - 1 \<or>
      str_at (tok j) (next_pos (\<lambda>c. c \<noteq> CHR 0x22) j (length a)) \<noteq> CHR 0x22 \<longleftrightarrow> \<not> value_syntax (CHR 0x22 # v)"
proof -
  let ?p = "\<lambda>c. c \<noteq> CHR 0x22" and ?n = "next_pos (\<lambda>c. c \<noteq> CHR 0x22) j (length a)"
  note n = next_pos_eq [OF assms(1,2)]
  show ?thesis
  proof (cases "CHR 0x22 \<in> set v")
    case False
    then have w: "takeWhile ?p v = v" by (auto simp: takeWhile_eq_all_conv)
    have "?n = tok_len j" unfolding n(1) w n(2) by simp
    moreover have "\<not> value_syntax (CHR 0x22 # v)" using False by (metis last.simps last_in_set length_Cons list.sel(1) list.size(3) not_less_eq_eq numeral_2_eq_2 value_syntax_def zero_le)
    ultimately show ?thesis using assms(3) False by simp
  next
    case True
    then obtain x y where v: "v = x @ CHR 0x22 # y" "CHR 0x22 \<notin> set x" by (metis split_list_first)
    then have "takeWhile ?p v = x" using takeWhile_first by simp
    then have p: "?n = Suc (length a) + length x" using n(1) by simp
    have "str_at (tok j) ?n = tok_str j ! ?n"
      using str_at_tok(1) [OF assms(1)] n(2) p v(1) by simp
    also have "\<dots> = CHR 0x22" using assms(2) p v(1) by (simp add: nth_append)
    finally have "str_at (tok j) ?n = CHR 0x22" .
    moreover have "value_syntax (CHR 0x22 # v) \<longleftrightarrow> y = []"
      using v by (cases y rule: rev_cases) (auto simp: value_syntax_def butlast_append)
    ultimately show ?thesis using p n(2) v(1) by auto
  qed
qed

lemma var_char_CONFIG: "list_all var_char ''CONFIG_''"
  by (simp add: var_char_def char_between_def)

text \<open>A value is valid when it has the syntax of one.\<close>

lemma validate_value_syntax:
  assumes "tok_inside j" "str_at (tok j) (tok_len j) \<noteq> CHR 0x22 \<or> value_syntax v" "tok_str j = a @ CHR ''='' # v"
  shows "fst (validate_value j (Suc (length a))) = 0 \<longleftrightarrow> value_syntax v"
proof (cases v)
  case Nil
  have "str_at (tok j) (length a) = CHR ''=''"
    using str_at_tok(1) [OF assms(1), of "length a"] next_pos_eq(2) [OF assms(1,3)] assms(3) by (simp add: nth_append)
  then show ?thesis using next_pos_eq(2) [OF assms(1,3)] Nil by (simp add: validate_value_def value_syntax_def)
next
  case (Cons c w)
  have a: "tok_str j = (a @ ''='') @ c # w" using assms(3) Cons by simp
  have n: "tok_len j = Suc (Suc (length a + length w))" using next_pos_eq(2) [OF assms(1) a] by simp
  then have c: "str_at (tok j) (Suc (length a)) = c"
    using str_at_tok(1) [OF assms(1), of "Suc (length a)"] a by (simp add: nth_append)
  show ?thesis
  proof (cases "c = CHR 0x22")
    case True
    have "value_syntax v \<Longrightarrow> w \<noteq> [] \<and> last w = CHR 0x22"
      using True Cons by (auto simp: value_syntax_def split: if_splits)
    then have "value_syntax v \<Longrightarrow> CHR 0x22 \<in> set w" using last_in_set by metis
    then show ?thesis
      using validate_quoted [OF assms(1) a [unfolded True]] assms(2) c n Cons True by (auto simp: validate_value_def Let_def)
  next
    case False
    have "next_pos isalnum j (Suc (length a)) < tok_len j \<longleftrightarrow> \<not> list_all isalnum w"
      using next_pos_eq(1) [OF assms(1) a, of isalnum] n takeWhile_length_all [of isalnum w] by simp
    then show ?thesis using c False n Cons by (auto simp: validate_value_def Let_def value_syntax_def)
  qed
qed

lemma validate_var_iff:
  assumes "tok_inside j" "str_at (tok j) (tok_len j) \<noteq> CHR 0x22 \<or> var_syntax (tok_str j)"
  shows "fst (validate_var j) = 0 \<longleftrightarrow> var_syntax (tok_str j)"
proof (cases "take 7 (tok_str j) = ''CONFIG_''")
  case False
  then show ?thesis using conf_prefix [OF assms(1)] by (simp add: validate_var_def var_syntax_def)
next
  case True
  let ?s = "tok_str j"
  have l: "7 \<le> tok_len j" using arg_cong [OF True, of length] assms(1) by simp
  have "dropWhile var_char ?s = dropWhile var_char (drop 7 ?s)"
  proof -
    have "dropWhile var_char (take 7 ?s @ drop 7 ?s) = dropWhile var_char (drop 7 ?s)"
      unfolding True by (rule dropWhile_append2) (use var_char_CONFIG in \<open>auto simp: list_all_iff\<close>)
    then show ?thesis by simp
  qed
  note name = name_loop_eq [OF assms(1) l, folded this]
  have val: "validate_var j = (case name_loop j 7 of Inl r \<Rightarrow> r | Inr i \<Rightarrow> validate_value j i)"
    using True conf_prefix [OF assms(1)] unfolding validate_var_def by (simp only: if_False simp_thms)
  show ?thesis
  proof (cases "dropWhile var_char ?s")
    case Nil
    then have "var_char (?s ! (tok_len j - 1))" using l assms(1) by (simp add: dropWhile_eq_Nil_conv)
    then have "str_at (tok j) (tok_len j - 1) \<noteq> CHR ''=''"
      using str_at_tok(1) [OF assms(1), of "tok_len j - 1"] l var_char_simps(2) by auto
    then show ?thesis using name True Nil by (auto simp: val validate_value_def var_syntax_def simp del: dropWhile_eq_Nil_conv)
  next
    case (Cons c v)
    then obtain a where a: "?s = a @ c # v" by (metis takeWhile_dropWhile_id)
    then have p: "tok_len j - length v = Suc (length a)" "tok_len j = Suc (length a + length v)"
      using length_tok_str [OF assms(1)] by auto
    show ?thesis
    proof (cases "c = CHR ''=''")
      case False
      then show ?thesis using name True Cons by (auto simp: val var_syntax_def)
    next
      case eq: True
      then have nl: "name_loop j 7 = Inr (Suc (length a))" using name Cons p(1) by simp
      have "var_syntax ?s \<longleftrightarrow> value_syntax v" using Cons eq True by (simp add: var_syntax_def)
      then have v: "fst (validate_var j) = 0 \<longleftrightarrow> value_syntax v"
        using validate_value_syntax [OF assms(1) _ a [unfolded eq]] assms(2) unfolding val nl by simp
      then show ?thesis using Cons eq True by (simp add: var_syntax_def)
    qed
  qed
qed

text \<open>\<open>validate_var\<close> returns 0 exactly for the tokens of the form \<open>CONFIG_NAME\<close> or
  \<open>CONFIG_NAME=value\<close>, where the value is a word or a string in quotes. The first character of a word
  can be anything. (What follows the token in the expression must not be a quote.)\<close>
theorem validate_var_syntax:
  assumes "tok_inside j" "str_at (tok j) (tok_len j) \<noteq> CHR 0x22"
  shows "fst (validate_var j) = 0 \<longleftrightarrow> var_syntax (tok_str j)"
  using assms validate_var_iff by blast


definition ex_tok :: "string \<Rightarrow> tst_expr_tok" where
  "ex_tok s = \<lparr>tok_op = TST_OP_VAR, tok = s, tok_len = length s, priv = Priv_NULL\<rparr>"

theorem validate_var_syntax_witness:
  "fst (validate_var (ex_tok ''CONFIG_A=y'')) = 0 \<and> fst (validate_var (ex_tok ''CONFIG_A=+'')) = 0
    \<and> fst (validate_var (ex_tok ''CONFIG_a'')) \<noteq> 0"
proof -
  have "var_syntax ''CONFIG_A=y''" "var_syntax ''CONFIG_A=+''" "\<not> var_syntax ''CONFIG_a''" by code_simp+
  then show ?thesis
    using validate_var_syntax [of "ex_tok ''CONFIG_A=y''"] validate_var_syntax [of "ex_tok ''CONFIG_A=+''"]
      validate_var_syntax [of "ex_tok ''CONFIG_a''"]
    by (simp add: ex_tok_def tok_inside_def str_at_def tok_str_def)
qed

section \<open>The variables of the expressions\<close>

definition tok_id :: "tst_expr_tok \<Rightarrow> string" where
  "tok_id j = take (get_len (tok j) (tok_len j)) (tok j)"

definition link :: "string list \<Rightarrow> tst_expr_tok \<Rightarrow> tst_expr_tok" where
  "link ids j = (if is_var j then j\<lparr>priv := Priv_var (the (find_var (map TST_KCONFIG_INIT ids) (tok_id j)))\<rparr> else j)"

definition add_id :: "string \<Rightarrow> string list \<Rightarrow> string list" where
  "add_id k ids = (if k \<in> set ids then ids else ids @ [k])"

definition ids_of :: "tst_expr_tok list \<Rightarrow> string list \<Rightarrow> string list" where
  "ids_of js ids = fold add_id (map tok_id (filter is_var js)) ids"

lemma get_len_le: "tok_inside j \<Longrightarrow> get_len (tok j) (tok_len j) \<le> length (tok j)"
  by (auto simp: get_len_def strnchr_def tok_inside_def split: option.split)

lemma find_var_None: "find_var (map TST_KCONFIG_INIT ids) k = None \<longleftrightarrow> k \<notin> set ids"
  by (induction ids) (auto simp: TST_KCONFIG_INIT_def)

lemma find_var_append: "find_var vars k = Some i \<Longrightarrow> find_var (vars @ ws) k = Some i"
  by (induction vars arbitrary: i) (auto split: if_splits)

lemma find_var_new: "find_var vars k = None \<Longrightarrow> kid v = k \<Longrightarrow> find_var (vars @ [v]) k = Some (length vars)"
  by (induction vars) (auto split: if_splits)

lemma find_var_nth: "find_var vars k = Some i \<Longrightarrow> i < length vars \<and> kid (vars ! i) = k"
  by (induction vars arbitrary: i) (auto split: if_splits)

lemma ids_of_extends: "\<exists>ws. ids_of js ids = ids @ ws"
proof (induction js arbitrary: ids)
  case (Cons j js)
  have "\<exists>ws. ids_of js (add_id k ids) = ids @ ws" for k
    using Cons [of "add_id k ids"] by (auto simp: add_id_def split: if_splits)
  then show ?case using Cons [of ids] by (simp add: ids_of_def)
qed (simp add: ids_of_def)

lemma ids_of_props:
  "distinct ids \<Longrightarrow> distinct (ids_of js ids)" "set (ids_of js ids) = set ids \<union> tok_id ` set (filter is_var js)"
  by (induction js arbitrary: ids) (auto simp: ids_of_def add_id_def)

definition id_fits :: "tst_expr_tok \<Rightarrow> bool" where
  "id_fits j \<longleftrightarrow> tok_inside j \<and> length (tok_id j) + 1 < KCONFIG_ID_SIZE"

lemma link_find:
  assumes "find_var (map TST_KCONFIG_INIT ids) (tok_id j) = Some i" "is_var j"
  shows "link (ids @ ws) j = j\<lparr>priv := Priv_var i\<rparr>"
  using find_var_append [OF assms(1)] assms(2) by (simp add: link_def)

text \<open>Every token is linked to the entry of its ID, and every ID has one entry.\<close>

lemma populate_toks_eq:
  assumes "\<And>j. j \<in> set js \<Longrightarrow> is_var j \<Longrightarrow> id_fits j"
  shows "populate_toks js (map TST_KCONFIG_INIT ids)
    = Inr (map (link (ids_of js ids @ ws)) js, map TST_KCONFIG_INIT (ids_of js ids))"
  using assms
proof (induction js arbitrary: ids)
  case (Cons j js)
  show ?case
  proof (cases "is_var j")
    case False
    then show ?thesis using Cons by (simp add: ids_of_def link_def)
  next
    case True
    let ?n = "get_len (tok j) (tok_len j)" and ?ids = "add_id (tok_id j) ids"
    have f: "id_fits j" using Cons.prems True by simp
    then have n: "?n = length (tok_id j)" using get_len_le by (simp add: tok_id_def id_fits_def)
    let ?v = "\<lparr>kid = take ?n (tok j), id_len = ?n, choice = NUL, kval = None\<rparr>"
    have v: "?v = TST_KCONFIG_INIT (tok_id j)" using n by (simp add: TST_KCONFIG_INIT_def tok_id_def)
    obtain p where p: "(case find_var (map TST_KCONFIG_INIT ids) (tok_id j) of
         Some i \<Rightarrow> (i, map TST_KCONFIG_INIT ids) | None \<Rightarrow> (length (map TST_KCONFIG_INIT ids), map TST_KCONFIG_INIT ids @ [?v]))
         = (p, map TST_KCONFIG_INIT ?ids)" "find_var (map TST_KCONFIG_INIT ?ids) (tok_id j) = Some p"
    proof (cases "find_var (map TST_KCONFIG_INIT ids) (tok_id j)")
      case None
      then show ?thesis
        using that find_var_new [OF None, of "TST_KCONFIG_INIT (tok_id j)"] find_var_None [of ids "tok_id j"] v
        by (simp add: add_id_def) (simp add: TST_KCONFIG_INIT_def)
    next
      case (Some i)
      then show ?thesis using that find_var_None [of ids "tok_id j"] by (auto simp: add_id_def)
    qed
    obtain us where us: "ids_of (j # js) ids = ?ids @ us"
      using ids_of_extends [of js ?ids] True by (auto simp: ids_of_def)
    have l: "link (ids_of (j # js) ids @ ws) j = j\<lparr>priv := Priv_var p\<rparr>"
      unfolding us append_assoc by (rule link_find [OF p(2) True])
    have IH: "populate_toks js (map TST_KCONFIG_INIT ?ids)
        = Inr (map (link (ids_of (j # js) ids @ ws)) js, map TST_KCONFIG_INIT (ids_of (j # js) ids))"
      using Cons True by (simp add: ids_of_def)
    have "\<not> ?n + 1 \<ge> KCONFIG_ID_SIZE" using f n by (simp add: id_fits_def)
    then show ?thesis
      using True p(1) IH l by (simp add: Let_def tok_id_def)
  qed
qed (simp add: ids_of_def)


lemma ids_of_append: "ids_of (a @ b) ids = ids_of b (ids_of a ids)"
  by (simp add: ids_of_def)

lemma populate_vars_eq:
  assumes "\<And>j. j \<in> set (concat (map rpn xs)) \<Longrightarrow> is_var j \<Longrightarrow> id_fits j"
  shows "populate_vars xs (map TST_KCONFIG_INIT ids) =
    (let A = ids_of (concat (map rpn xs)) ids in
     Inr (map (\<lambda>x. x\<lparr>rpn := map (link (A @ ws)) (rpn x)\<rparr>) xs, map TST_KCONFIG_INIT A))"
  using assms
proof (induction xs arbitrary: ids)
  case (Cons x xs)
  let ?A = "ids_of (concat (map rpn (x # xs))) ids"
  obtain us where us: "?A = ids_of (rpn x) ids @ us"
    using ids_of_extends [of "concat (map rpn xs)" "ids_of (rpn x) ids"] by (auto simp: ids_of_append)
  have "populate_toks (rpn x) (map TST_KCONFIG_INIT ids)
      = Inr (map (link (ids_of (rpn x) ids @ us @ ws)) (rpn x), map TST_KCONFIG_INIT (ids_of (rpn x) ids))"
    by (rule populate_toks_eq) (use Cons.prems in auto)
  then have "populate_toks (rpn x) (map TST_KCONFIG_INIT ids)
      = Inr (map (link (?A @ ws)) (rpn x), map TST_KCONFIG_INIT (ids_of (rpn x) ids))"
    unfolding us append_assoc .
  moreover have "populate_vars xs (map TST_KCONFIG_INIT (ids_of (rpn x) ids)) =
      Inr (map (\<lambda>x. x\<lparr>rpn := map (link (?A @ ws)) (rpn x)\<rparr>) xs, map TST_KCONFIG_INIT ?A)"
    using Cons.IH [of "ids_of (rpn x) ids"] Cons.prems by (auto simp: ids_of_append Let_def)
  ultimately show ?case by (simp add: Let_def)
qed (simp add: ids_of_def)

section \<open>When a constraint holds\<close>

fun entry_pair :: "entry \<Rightarrow> (string \<times> string) list" where
  "entry_pair (Set k v) = [(k, v)]"
| "entry_pair (Not_set k) = [(k, ''n'')]"
| "entry_pair (Other l) = []"

text \<open>The value of an option in a config, \<open>n\<close> for one that is not set.\<close>

definition conf_value :: "entry list \<Rightarrow> string \<Rightarrow> string option" where
  "conf_value es = map_of (concat (map entry_pair es))"

definition satisfied :: "entry list \<Rightarrow> tst_expr_tok \<Rightarrow> bool" where
  "satisfied es t =
     (let k = takeWhile (\<lambda>c. c \<noteq> CHR ''='') (tok_str t) in
      case dropWhile (\<lambda>c. c \<noteq> CHR ''='') (tok_str t) of
        [] \<Rightarrow> conf_value es k = Some ''y'' \<or> conf_value es k = Some ''m''
      | _ # v \<Rightarrow> conf_value es k = Some v)"

definition no_explicit_n :: "entry list \<Rightarrow> bool" where
  "no_explicit_n es \<longleftrightarrow> list_all (\<lambda>e. case e of Set k v \<Rightarrow> v \<noteq> ''n'' | _ \<Rightarrow> True) es"

definition var_state :: "string \<Rightarrow> string option \<Rightarrow> tst_kconfig_var" where
  "var_state k v = (case v of
     None \<Rightarrow> TST_KCONFIG_INIT k
   | Some v \<Rightarrow> if v = ''n'' then (TST_KCONFIG_INIT k)\<lparr>choice := CHR ''n''\<rparr> else set_val v (TST_KCONFIG_INIT k))"

lemma fold_assign_other: "kid u \<notin> set (concat (map entry_ids es)) \<Longrightarrow> fold assign es u = u"
  by (induction es) (auto simp: assign_other)

lemma kid_INIT [simp]: "kid (TST_KCONFIG_INIT k) = k"
  by (simp add: TST_KCONFIG_INIT_def)

lemma fold_assign_value:
  assumes "distinct (concat (map entry_ids es))" "no_explicit_n es"
  shows "fold assign es (TST_KCONFIG_INIT k) = var_state k (conf_value es k)"
  using assms
proof (induction es)
  case Nil
  then show ?case by (simp add: conf_value_def var_state_def)
next
  case (Cons e es)
  have IH: "fold assign es (TST_KCONFIG_INIT k) = var_state k (conf_value es k)"
    using Cons by (simp add: no_explicit_n_def)
  show ?case
  proof (cases "k \<in> set (entry_ids e)")
    case True
    then have k: "kid (assign e (TST_KCONFIG_INIT k)) \<notin> set (concat (map entry_ids es))"
      using Cons.prems(1) by auto
    show ?thesis
      using True Cons.prems(2) fold_assign_other [OF k]
      by (cases e) (auto simp: conf_value_def var_state_def no_explicit_n_def)
  next
    case False
    then have "conf_value (e # es) k = conf_value es k" by (cases e) (auto simp: conf_value_def)
    then show ?thesis using IH False assign_other [of "TST_KCONFIG_INIT k" e] by simp
  qed
qed

lemma get_len_eq: "get_len (s @ r) (length s) = length (takeWhile (\<lambda>c. c \<noteq> CHR ''='') s)"
proof (cases "CHR ''='' \<in> set s")
  case True
  then have "dropWhile (\<lambda>c. c \<noteq> CHR ''='') (s @ r) = dropWhile (\<lambda>c. c \<noteq> CHR ''='') s @ r"
    by (rule dropWhile_append1) simp
  moreover have "length s = length (takeWhile (\<lambda>c. c \<noteq> CHR ''='') s) + length (dropWhile (\<lambda>c. c \<noteq> CHR ''='') s)"
    by (metis length_append takeWhile_dropWhile_id)
  ultimately show ?thesis using True by (simp add: get_len_def strnchr_def)
next
  case False
  then have w: "takeWhile (\<lambda>c. c \<noteq> CHR ''='') s = s" by (auto simp: takeWhile_eq_all_conv)
  show ?thesis using False unfolding w by (simp add: get_len_def strnchr_def)
qed

lemma tok_id_eq:
  assumes "tok_inside j"
  shows "tok_id j = takeWhile (\<lambda>c. c \<noteq> CHR ''='') (tok_str j)"
proof -
  have t: "tok j = tok_str j @ drop (tok_len j) (tok j)" by (simp add: tok_str_def)
  have "get_len (tok j) (tok_len j) = length (takeWhile (\<lambda>c. c \<noteq> CHR ''='') (tok_str j))"
    using get_len_eq [of "tok_str j" "drop (tok_len j) (tok j)"] t length_tok_str [OF assms] by simp
  then have "tok_id j = take (length (takeWhile (\<lambda>c. c \<noteq> CHR ''='') (tok_str j))) (tok_str j @ drop (tok_len j) (tok j))"
    using t by (simp add: tok_id_def)
  then show ?thesis by (simp add: length_takeWhile_le flip: takeWhile_eq_take)
qed

lemma set_val_fields: "choice (set_val v u) = (if v = ''y'' then CHR ''y'' else if v = ''m'' then CHR ''m'' else CHR ''v'')"
  "v \<noteq> ''y'' \<Longrightarrow> v \<noteq> ''m'' \<Longrightarrow> kval (set_val v u) = Some v"
  by (simp_all add: set_val_def)


text \<open>The comparison of the value in a token with a letter, and with the text of the config.\<close>

lemma strncmp_value:
  assumes "NUL \<notin> set (v @ r)" "v \<noteq> []" "c \<noteq> NUL"
  shows "strncmp_eq (v @ r) [c] (length v) \<longleftrightarrow> v = [c]"
proof -
  have "c_str (v @ r) = v @ r" "c_str [c] = [c]" using assms by (auto intro!: c_str_no_NUL)
  then show ?thesis using assms(2) by (cases v) (auto simp: strncmp_eq_def)
qed

lemma strncmp_text:
  assumes "NUL \<notin> set (v @ r)" "NUL \<notin> set w"
  shows "length w = length v \<and> strncmp_eq (v @ r) w (length v) \<longleftrightarrow> w = v"
  using assms by (auto simp: strncmp_eq_def c_str_no_NUL)

lemma map_var_plain:
  assumes "priv_var vars t = var_state k x" "CHR ''='' \<notin> set (tok_str t)"
  shows "map_var vars t = c_bool (x = Some ''y'' \<or> x = Some ''m'')"
  using assms
  by (auto simp: map_var_def strnchr_def tok_str_def var_state_def TST_KCONFIG_INIT_def c_bool_def set_val_fields
      split: option.split)

lemma dropWhile_first: "c \<notin> set x \<Longrightarrow> dropWhile (\<lambda>a. a \<noteq> c) (x @ c # y) = c # y"
  by (induction x) auto

lemma map_var_value:
  assumes "priv_var vars t = var_state k x" "tok_inside t" "tok_str t = a @ CHR ''='' # v" "CHR ''='' \<notin> set a" "v \<noteq> []"
    and "\<And>w. x = Some w \<Longrightarrow> NUL \<notin> set w"
  shows "map_var vars t = c_bool (x = Some v)"
proof -
  obtain r where t: "tok t = a @ CHR ''='' # v @ r"
    by (metis append.assoc append_Cons append_take_drop_id assms(3) tok_str_def)
  have nul: "NUL \<notin> set (v @ r)" using assms(2) by (simp add: t tok_inside_def)
  have d: "dropWhile (\<lambda>c. c \<noteq> CHR ''='') (tok t) = CHR ''='' # v @ r"
    unfolding t using assms(4) by (simp add: dropWhile_first)
  have e: "CHR ''='' \<in> set (take (tok_len t) (tok t))" using assms(3) by (simp flip: tok_str_def)
  have "tok_len t = Suc (length a + length v)" using length_tok_str [OF assms(2)] assms(3) by simp
  then have n: "tok_len t - (length (tok t) - length (v @ r)) = length v" by (simp add: t)
  have ch: "strncmp_eq (v @ r) ''n'' (length v) = (v = ''n'')" "strncmp_eq (v @ r) ''y'' (length v) = (v = ''y'')"
    "strncmp_eq (v @ r) ''m'' (length v) = (v = ''m'')"
    using strncmp_value [OF nul assms(5)] by simp_all
  have m: "map_var vars t =
      (if choice (priv_var vars t) = NUL then 0
       else if v = ''m'' \<or> v = ''y'' \<or> v = ''n'' then c_bool (choice (priv_var vars t) = hd v)
       else if choice (priv_var vars t) \<noteq> CHR ''v'' then 0
       else c_bool (length (the (kval (priv_var vars t))) = length v \<and> strncmp_eq (v @ r) (the (kval (priv_var vars t))) (length v)))"
    unfolding map_var_def Let_def strnchr_def if_P [OF e] option.case d list.sel n ch by (auto simp: c_bool_def)
  show ?thesis
  proof (cases x)
    case None
    then show ?thesis using assms(1) by (simp add: map_var_def var_state_def TST_KCONFIG_INIT_def c_bool_def)
  next
    case (Some w)
    then have "length w = length v \<and> strncmp_eq (v @ r) w (length v) \<longleftrightarrow> w = v"
      using strncmp_text [OF nul] assms(6) by simp
    then show ?thesis
      using assms(1) Some unfolding m by (auto simp: var_state_def set_val_fields c_bool_def)
  qed
qed


section \<open>Checking constraints\<close>

definition constraint_ok :: "string \<Rightarrow> bool" where
  "constraint_ok k \<longleftrightarrow> NUL \<notin> set k \<and> (\<exists>b. derives_E (tokens k) b) \<and>
     (\<forall>t \<in> set (tokens k). is_var t \<longrightarrow> var_syntax (tok_str t) \<and> length (tok_id t) + 1 < KCONFIG_ID_SIZE)"

definition constraint_holds :: "entry list \<Rightarrow> string \<Rightarrow> bool" where
  "constraint_holds es k \<longleftrightarrow>
     (\<exists>b. derives_E (tokens k) b \<and> bexpr_depth b \<le> MAX_STACK \<and> beval (\<lambda>t. c_bool (satisfied es t)) b = 1)"

lemma link_fields [simp]: "tok_op (link ids t) = tok_op t" "tok (link ids t) = tok t" "tok_len (link ids t) = tok_len t"
  "tok_str (link ids t) = tok_str t"
  by (simp_all add: link_def tok_str_def)

lemma link_priv:
  assumes "is_var t" "tok_id t \<in> set A"
  shows "priv_var (map (\<lambda>k. var_state k (g k)) A) (link A t) = var_state (tok_id t) (g (tok_id t))"
proof -
  obtain i where i: "find_var (map TST_KCONFIG_INIT A) (tok_id t) = Some i"
    using assms(2) find_var_None by fastforce
  then have "i < length A" "A ! i = tok_id t" using find_var_nth by force+
  then show ?thesis using i assms(1) by (simp add: priv_var_def link_def)
qed

lemma conf_value_no_NUL:
  assumes "list_all entry_ok es" "conf_value es k = Some w"
  shows "NUL \<notin> set w"
proof -
  have "(k, w) \<in> set (concat (map entry_pair es))" using assms(2) by (auto simp: conf_value_def dest: map_of_SomeD)
  then obtain e where e: "e \<in> set es" "(k, w) \<in> set (entry_pair e)" by auto
  then have "entry_ok e" using assms(1) by (auto simp: list_all_iff)
  then show ?thesis using e(2) by (cases e) (auto simp: plain_line_def list_all_iff)
qed

lemma map_var_link:
  assumes "is_var t" "tok_inside t" "var_syntax (tok_str t)" "tok_id t \<in> set A" "list_all entry_ok es"
  shows "map_var (map (\<lambda>k. var_state k (conf_value es k)) A) (link A t) = c_bool (satisfied es t)"
proof -
  note p = link_priv [OF assms(1,4), of "conf_value es"]
  have k: "tok_id t = takeWhile (\<lambda>c. c \<noteq> CHR ''='') (tok_str t)" by (rule tok_id_eq [OF assms(2)])
  show ?thesis
  proof (cases "CHR ''='' \<in> set (tok_str t)")
    case False
    then have d: "dropWhile (\<lambda>c. c \<noteq> CHR ''='') (tok_str t) = []" by auto
    show ?thesis using map_var_plain [OF p] False unfolding satisfied_def Let_def d k by simp
  next
    case True
    then obtain a v where a: "tok_str t = a @ CHR ''='' # v" "CHR ''='' \<notin> set a" by (metis split_list_first)
    then have d: "takeWhile (\<lambda>c. c \<noteq> CHR ''='') (tok_str t) = a" "dropWhile (\<lambda>c. c \<noteq> CHR ''='') (tok_str t) = CHR ''='' # v"
      by (simp_all add: takeWhile_first dropWhile_first)
    have "v \<noteq> []"
    proof
      assume "v = []"
      have "dropWhile var_char (tok_str t) \<noteq> []" using True var_char_simps(2) by (auto simp: dropWhile_eq_Nil_conv)
      then obtain c w where "dropWhile var_char (tok_str t) = c # w" "c = CHR ''=''" "value_syntax w"
        using assms(3) by (cases "dropWhile var_char (tok_str t)") (auto simp: var_syntax_def)
      then have "takeWhile var_char (tok_str t) @ CHR ''='' # w = a @ ''=''" "w \<noteq> []"
        using a(1) \<open>v = []\<close> takeWhile_dropWhile_id [of var_char "tok_str t"] by (auto simp: value_syntax_def)
      then show False using a(2) by (cases w rule: rev_cases) auto
    qed
    moreover have "tok_inside (link A t)" using assms(2) by (simp add: tok_inside_def)
    ultimately have "map_var (map (\<lambda>k. var_state k (conf_value es k)) A) (link A t) = c_bool (conf_value es (tok_id t) = Some v)"
      using map_var_value [OF p] a conf_value_no_NUL [OF assms(5)] by simp
    then show ?thesis using k d by (simp add: satisfied_def)
  qed
qed

lemma parse_exprs_eq:
  assumes "\<And>k. k \<in> set ks \<Longrightarrow> snd (tst_bool_expr_parse True k) = Some (px k)"
  shows "parse_exprs True ks = Inr (map px ks)"
  using assms by (induction ks) auto

lemma validate_vars_zero:
  assumes "\<And>j. j \<in> set (concat (map rpn xs)) \<Longrightarrow> is_var j \<Longrightarrow> fst (validate_var j) = 0"
  shows "fst (validate_vars xs) = 0"
proof -
  have "\<forall>j \<in> set js. fst (validate_var j) = 0 \<Longrightarrow>
      fst (fold (\<lambda>j (ret, out). case validate_var j of (r, t) \<Rightarrow> (or ret (word_of_int r), out @ t)) js (0 :: 32 word, o0)) = 0" for js o0
    by (induction js arbitrary: o0) (auto split: prod.split)
  from this [of "filter is_var (concat (map rpn xs))" "[]"] show ?thesis
    using assms by (auto simp: validate_vars_def)
qed

lemma eval_exprs_ret:
  "fst (eval_exprs vars kxs) = (if \<forall>(k, x) \<in> set kxs. tst_bool_expr_eval x (map_var vars) = Some 1 then 0 else 1)"
  by (induction vars kxs rule: eval_exprs.induct) (auto simp: Let_def case_prod_unfold)

lemma constraint_toks:
  assumes "constraint_ok k" "snd (tst_bool_expr_parse True k) = Some x" "t \<in> set (rpn x)" "is_var t"
  shows "tok_inside t" "var_syntax (tok_str t)" "id_fits t" "NUL \<notin> set (tok_id t)"
proof -
  have t: "t \<in> set (tokens k)" using be.parsed_toks [OF assms(2)] assms(3) by auto
  then have "tok_ok k t" using tokens_ok by blast
  then have "suffix (tok t) k" "tok_len t \<le> length (tok t)" by (simp_all add: tok_ok_def)
  moreover have "NUL \<notin> set (tok t)" using \<open>suffix (tok t) k\<close> assms(1) by (auto simp: constraint_ok_def dest: set_mono_suffix)
  ultimately show "tok_inside t" by (simp add: tok_inside_def)
  then show "var_syntax (tok_str t)" "id_fits t" "NUL \<notin> set (tok_id t)"
    using assms(1,4) t by (auto simp: constraint_ok_def id_fits_def tok_id_def tok_inside_def dest: in_set_takeD)
qed


text \<open>The variables and the linked expressions after \<open>populate_vars\<close>.\<close>

definition all_ids :: "tst_expr list \<Rightarrow> string list" where
  "all_ids xs = ids_of (concat (map rpn xs)) []"

lemma read_states:
  assumes "open_kconfig e = Inr (Some (config_text es))" "list_all entry_ok es" "distinct (concat (map entry_ids es))"
    and "no_explicit_n es" "distinct A" "\<And>k. k \<in> set A \<Longrightarrow> NUL \<notin> set k"
  shows "tst_kconfig_read e (map TST_KCONFIG_INIT A) = Inr (map (\<lambda>k. var_state k (conf_value es k)) A)"
proof -
  have ok: "vars_ok (map TST_KCONFIG_INIT A)"
    using assms(5,6) by (auto simp: vars_ok_def comp_def list_all_iff TST_KCONFIG_INIT_def)
  have "read_loop (stack_junk e) (config_text es) (map TST_KCONFIG_INIT A) 0
      = Some (map (fold assign es) (map TST_KCONFIG_INIT A))"
    using read_loop_config [OF assms(2,3) ok] by simp
  then show ?thesis
    using assms(1) fold_assign_value [OF assms(3,4)] by (simp add: tst_kconfig_read_def)
qed

lemma linked_eval:
  assumes "constraint_ok k" "snd (tst_bool_expr_parse True k) = Some x"
    and "\<And>t. t \<in> set (rpn x) \<Longrightarrow> is_var t \<Longrightarrow> tok_id t \<in> set A" "list_all entry_ok es"
  shows "tst_bool_expr_eval (x\<lparr>rpn := map (link A) (rpn x)\<rparr>) (map_var (map (\<lambda>k. var_state k (conf_value es k)) A)) = Some 1
    \<longleftrightarrow> constraint_holds es k"
proof -
  let ?vars = "map (\<lambda>k. var_state k (conf_value es k)) A"
  have mv: "map_var ?vars (link A t) = c_bool (satisfied es t)" if t: "t \<in> set (rpn x)" "tok_op t = TST_OP_VAR" for t
  proof -
    have v: "is_var t" using t(2) by (simp add: is_var_def)
    show ?thesis by (rule map_var_link [OF v constraint_toks(1,2) [OF assms(1,2) t(1) v] assms(3) [OF t(1) v] assms(4)])
  qed
  have "tst_bool_expr_eval (x\<lparr>rpn := map (link A) (rpn x)\<rparr>) (map_var ?vars) = Some 1
      \<longleftrightarrow> bexpr_depth b \<le> MAX_STACK \<and> beval (\<lambda>t. c_bool (satisfied es t)) b = 1" if "derives_E (tokens k) b" for b
    by (rule be.eval_bool [OF assms(2) that]) (simp_all add: mv)
  then show ?thesis
    using assms(1) unfolding constraint_ok_def constraint_holds_def by blast
qed

text \<open>C4: The whole check, from the text of the constraints and the text of the kernel config to the
  verdict: when the constraints are well formed and the config can be read, \<open>tst_kconfig_check\<close>
  returns 0 if every constraint is true of the values in the config, and 1 otherwise. \<open>CONFIG_FOO\<close>
  means that the value is \<open>y\<close> or \<open>m\<close>, \<open>CONFIG_FOO=bar\<close> that it is \<open>bar\<close>, with \<open>n\<close> for an option that
  is not set. A constraint that needs more than \<open>MAX_STACK\<close> stack entries never holds.\<close>
theorem kconfig_check_correct:
  assumes "ks \<noteq> []" "\<not> env_skip e" "\<And>k. k \<in> set ks \<Longrightarrow> constraint_ok k"
    and "open_kconfig e = Inr (Some (config_text es))" "list_all entry_ok es"
    and "distinct (concat (map entry_ids es))" "no_explicit_n es"
  shows "\<exists>ms. tst_kconfig_check True e ks = Inr (if list_all (constraint_holds es) ks then 0 else 1, ms)"
proof -
  obtain px where px: "\<And>k. k \<in> set ks \<Longrightarrow> snd (tst_bool_expr_parse True k) = Some (px k)"
    using assms(3) be.parse_tree unfolding constraint_ok_def by metis
  let ?xs = "map px ks" and ?A = "all_ids (map px ks)"
  let ?vars = "map (\<lambda>k. var_state k (conf_value es k)) ?A" and ?ys = "map (\<lambda>x. x\<lparr>rpn := map (link ?A) (rpn x)\<rparr>) ?xs"
  have toks: "tok_inside j" "var_syntax (tok_str j)" "id_fits j" "NUL \<notin> set (tok_id j)"
    if "k \<in> set ks" "j \<in> set (rpn (px k))" "is_var j" for k j
    using constraint_toks [OF assms(3) px] that by blast+
  have A: "distinct ?A" "set ?A = tok_id ` {j \<in> set (concat (map rpn ?xs)). is_var j}"
    unfolding all_ids_def ids_of_props(2) by (simp_all add: ids_of_props(1))
  have "fst (validate_vars ?xs) = 0"
    by (rule validate_vars_zero) (use toks validate_var_iff in auto)
  moreover have "populate_vars ?xs [] = Inr (?ys, map TST_KCONFIG_INIT ?A)"
    using populate_vars_eq [of ?xs "[]" "[]"] toks(3) by (auto simp: all_ids_def Let_def)
  moreover have "tst_kconfig_read e (map TST_KCONFIG_INIT ?A) = Inr ?vars"
    by (rule read_states [OF assms(4-7) A(1)]) (use A(2) toks(4) in auto)
  ultimately have check: "tst_kconfig_check True e ks = Inr (eval_exprs ?vars (zip ks ?ys))"
    using assms(1,2) parse_exprs_eq [OF px] by (simp add: tst_kconfig_check_def array_len_def kconfig_skip_check_def)
  have "tst_bool_expr_eval ((px k)\<lparr>rpn := map (link ?A) (rpn (px k))\<rparr>) (map_var ?vars) = Some 1
      \<longleftrightarrow> constraint_holds es k" if k: "k \<in> set ks" for k
  proof (rule linked_eval [OF assms(3) [OF k] px [OF k] _ assms(5)])
    show "tok_id t \<in> set ?A" if "t \<in> set (rpn (px k))" "is_var t" for t
      unfolding A(2) using that k by (intro imageI) auto
  qed
  then have all: "(\<forall>(k, x) \<in> set (zip ks ?ys). tst_bool_expr_eval x (map_var ?vars) = Some 1) \<longleftrightarrow> list_all (constraint_holds es) ks"
    by (auto simp: list_all_iff zip_map2 zip_same_conv_map)
  have "fst (eval_exprs ?vars (zip ks ?ys)) = (if list_all (constraint_holds es) ks then 0 else 1)"
    unfolding eval_exprs_ret all ..
  then show ?thesis
    unfolding check by (intro exI [of _ "snd (eval_exprs ?vars (zip ks ?ys))"]) (simp add: prod_eq_iff)
qed

theorem kconfig_check_correct_witness:
  "constraint_ok ''CONFIG_A'' \<and> (\<exists>ms. tst_kconfig_check True ex_env [''CONFIG_A''] = Inr (0, ms))"
proof -
  let ?t = "ex_tok ''CONFIG_A''" and ?es = "[Set ''CONFIG_A'' ''y'', Not_set ''CONFIG_B'']"
  have t: "tokens ''CONFIG_A'' = [?t]" by code_simp
  have s: "tok_str ?t = ''CONFIG_A''" "tok_op ?t = TST_OP_VAR" by (simp_all add: ex_tok_def tok_str_def)
  have "var_syntax ''CONFIG_A''" "length (tok_id ?t) + 1 < KCONFIG_ID_SIZE" by code_simp+
  moreover have d: "derives_E (tokens ''CONFIG_A'') (BVar ?t)"
    unfolding t by (intro derives_U_derives_E.intros s(2))
  ultimately have c: "constraint_ok ''CONFIG_A''"
    unfolding constraint_ok_def t by (auto simp: s)
  have "satisfied ?es ?t" unfolding satisfied_def s by code_simp
  then have "constraint_holds ?es ''CONFIG_A''"
    using d unfolding constraint_holds_def by (intro exI [of _ "BVar ?t"]) (simp add: MAX_STACK_def c_bool_def)
  then show ?thesis
    using kconfig_check_correct [of "[''CONFIG_A'']", OF _ _ _ ex_env_config] c
    by (simp add: no_explicit_n_def) (simp add: ex_env_def)
qed


section \<open>The parameters of the kernel command line\<close>

text \<open>
  A word of the command line: what stands before the first \<open>=\<close>, and what stands behind each \<open>=\<close>.
\<close>

type_synonym cmd_word = "string \<times> string list"

definition word_text :: "cmd_word \<Rightarrow> string" where
  "word_text w = fst w @ concat (map ((#) (CHR ''='')) (snd w))"

fun cmdline_text :: "cmd_word list \<Rightarrow> string" where
  "cmdline_text [] = [CHR 0x0A]"
| "cmdline_text [w] = word_text w @ [CHR 0x0A]"
| "cmdline_text (w # ws) = word_text w @ CHR '' '' # cmdline_text ws"

definition plain_part :: "string \<Rightarrow> bool" where
  "plain_part s \<longleftrightarrow> length s < CMDLINE_BUF \<and> list_all (\<lambda>c. \<not> delimiter c \<and> c \<noteq> CHR ''='') s"

definition cmd_word_ok :: "tst_kcmdline_var list \<Rightarrow> cmd_word \<Rightarrow> bool" where
  "cmd_word_ok params w \<longleftrightarrow> plain_part (fst w) \<and> list_all plain_part (snd w)
     \<and> list_all (\<lambda>v. v \<notin> key ` set params) (butlast (snd w))"

text \<open>A parameter gets the text behind the last \<open>=\<close> of its word.\<close>

definition apply_word :: "cmd_word \<Rightarrow> tst_kcmdline_var list \<Rightarrow> tst_kcmdline_var list" where
  "apply_word w params = (if snd w = [] then params
     else map (\<lambda>p. if key p = fst w then p\<lparr>found := True, cvalue := last (snd w)\<rparr> else p) params)"

lemma apply_word_keys: "map key (apply_word w params) = map key params"
  by (simp add: apply_word_def)

lemma cmdline_plain:
  assumes "plain_part s" "length kbuf + length s < CMDLINE_BUF"
  shows "cmdline_loop (s @ rest) kbuf var_id params = cmdline_loop rest (kbuf @ s) var_id params"
  using assms by (induction s arbitrary: kbuf) (auto simp: plain_part_def delimiter_def)

lemma match_id_other: "kbuf \<notin> key ` set params \<Longrightarrow> match_id kbuf params n = n \<and> mark_found kbuf params = params"
proof -
  assume k: "kbuf \<notin> key ` set params"
  have "fold (\<lambda>i r. if key (params ! i) = kbuf then int i else r) is n = n" if "\<forall>i \<in> set is. i < length params" for "is"
    using that k by (induction "is") (auto dest: nth_mem)
  then show ?thesis using k by (auto simp: match_id_def mark_found_def intro!: map_idI)
qed

lemma key_eq:
  assumes "distinct (map key params)" "i < length params" "j < length params"
  shows "key (params ! j) = key (params ! i) \<longleftrightarrow> j = i"
  using assms by (metis length_map nth_eq_iff_index_eq nth_map)

lemma apply_word_at:
  assumes "distinct (map key params)" "i < length params" "vs \<noteq> []"
  shows "apply_word (key (params ! i), vs) params = params[i := (params ! i)\<lparr>found := True, cvalue := last vs\<rparr>]"
  using assms(2,3) by (intro nth_equalityI) (auto simp: apply_word_def nth_list_update key_eq [OF assms(1,2)])

lemma match_id_here:
  assumes "distinct (map key params)" "i < length params"
  shows "match_id (key (params ! i)) params n = int i"
    and "mark_found (key (params ! i)) params = params[i := (params ! i)\<lparr>found := True\<rparr>]"
proof -
  note eq = key_eq [OF assms]
  have "fold (\<lambda>j r. if key (params ! j) = key (params ! i) then int j else r) [0..<m] n = (if i < m then int i else n)"
    if "m \<le> length params" for m
    using that by (induction m) (auto simp: eq)
  then show "match_id (key (params ! i)) params n = int i" using assms(2) by (simp add: match_id_def)
  show "mark_found (key (params ! i)) params = params[i := (params ! i)\<lparr>found := True\<rparr>]"
    using assms(2) by (intro nth_equalityI) (auto simp: mark_found_def eq nth_list_update)
qed

text \<open>The rest of a word: only the last part is kept.\<close>

lemma cmdline_parts:
  assumes "list_all plain_part vs" "list_all (\<lambda>v. v \<notin> key ` set params) (butlast (v # vs))" "plain_part v"
    and "d = CHR '' '' \<or> d = CHR 0x0A"
  shows "cmdline_loop (v @ concat (map ((#) (CHR ''='')) vs) @ d # rest) [] n params =
    cmdline_loop rest [] (-1) (if 0 \<le> n \<and> nat n < length params
      then params[nat n := (params ! nat n)\<lparr>cvalue := last (v # vs)\<rparr>] else params)"
  using assms
proof (induction vs arbitrary: v)
  case Nil
  then show ?case using cmdline_plain [of v "[]"] by (auto simp: plain_part_def)
next
  case (Cons u vs)
  have "cmdline_loop (v @ concat (map ((#) (CHR ''='')) (u # vs)) @ d # rest) [] n params
      = cmdline_loop (CHR ''='' # u @ concat (map ((#) (CHR ''='')) vs) @ d # rest) v n params"
    using Cons.prems(3) cmdline_plain [of v "[]"] by (simp add: plain_part_def)
  also have "\<dots> = cmdline_loop (u @ concat (map ((#) (CHR ''='')) vs) @ d # rest) [] n params"
    using match_id_other [of v params n] Cons.prems(2) by (simp split: if_splits)
  also have "\<dots> = cmdline_loop rest [] (-1) (if 0 \<le> n \<and> nat n < length params
      then params[nat n := (params ! nat n)\<lparr>cvalue := last (u # vs)\<rparr>] else params)"
    using Cons.IH [of u] Cons.prems by simp
  finally show ?case by simp
qed

lemma cmdline_word:
  assumes "cmd_word_ok params w" "distinct (map key params)" "d = CHR '' '' \<or> d = CHR 0x0A"
  shows "cmdline_loop (word_text w @ d # rest) [] (-1) params = cmdline_loop rest [] (-1) (apply_word w params)"
proof (cases w)
  case (Pair k vs)
  have k: "plain_part k" using assms(1) Pair by (simp add: cmd_word_ok_def)
  show ?thesis
  proof (cases vs)
    case Nil
    then show ?thesis using cmdline_plain [OF k, of "[]"] k assms(3) Pair by (auto simp: word_text_def apply_word_def plain_part_def)
  next
    case (Cons v us)
    let ?r = "v @ concat (map ((#) (CHR ''='')) us) @ d # rest"
    have p: "list_all plain_part us" "plain_part v" "list_all (\<lambda>v. v \<notin> key ` set params) (butlast (v # us))"
      using assms(1) Pair Cons by (simp_all add: cmd_word_ok_def)
    have e: "cmdline_loop (word_text w @ d # rest) [] (-1) params = cmdline_loop ?r [] (match_id k params (-1)) (mark_found k params)"
      using cmdline_plain [OF k, of "[]"] k Pair Cons by (simp add: word_text_def plain_part_def)
    show ?thesis
    proof (cases "k \<in> key ` set params")
      case False
      then have "apply_word w params = params" using Pair by (auto simp: apply_word_def intro!: map_idI)
      then show ?thesis
        using e match_id_other [OF False] cmdline_parts [OF p(1,3,2) assms(3), of rest "-1"] by simp
    next
      case True
      then obtain i where i: "i < length params" "k = key (params ! i)" by (auto simp: in_set_conv_nth)
      let ?ps = "params[i := (params ! i)\<lparr>found := True\<rparr>]"
      have "key ` set ?ps \<subseteq> key ` set params"
        using i by (auto simp: set_conv_nth nth_list_update)
      then have "list_all (\<lambda>v. v \<notin> key ` set ?ps) (butlast (v # us))"
        using p(3) unfolding list_all_iff by blast
      from cmdline_parts [OF p(1) this p(2) assms(3), of rest "int i"]
      have "cmdline_loop ?r [] (int i) ?ps = cmdline_loop rest [] (-1) (params[i := (params ! i)\<lparr>found := True, cvalue := last (v # us)\<rparr>])"
        using i(1) by simp
      moreover have "apply_word w params = params[i := (params ! i)\<lparr>found := True, cvalue := last (v # us)\<rparr>]"
        using apply_word_at [OF assms(2) i(1), of vs] Pair Cons i(2) by simp
      ultimately show ?thesis using e match_id_here [OF assms(2) i(1)] i(2) by simp
    qed
  qed
qed

lemma cmdline_words:
  assumes "list_all (cmd_word_ok params) ws" "distinct (map key params)"
  shows "cmdline_loop (cmdline_text ws @ NUL # j) [] (-1) params = Some (fold apply_word ws params)"
  using assms
proof (induction ws arbitrary: params rule: cmdline_text.induct)
  case (2 w)
  then show ?case using cmdline_word [of params w "CHR 0x0A" "NUL # j"] by simp
next
  case (3 w w' ws)
  have "key ` set (apply_word w params) = key ` set params"
    using apply_word_keys [of w params] by (metis set_map)
  then have "cmd_word_ok (apply_word w params) = cmd_word_ok params"
    by (intro ext) (simp add: cmd_word_ok_def)
  then have "list_all (cmd_word_ok (apply_word w params)) (w' # ws)"
    using "3.prems"(1) by simp
  then show ?case
    using 3 cmdline_word [of params w "CHR '' ''"] apply_word_keys [of w params] by simp
qed simp

text \<open>The line ends at its only line break.\<close>

lemma word_no_newline:
  assumes w: "cmd_word_ok params w"
  shows "CHR 0x0A \<notin> set (word_text w)"
proof -
  have p: "plain_part s \<Longrightarrow> CHR 0x0A \<notin> set s" for s
    by (auto simp: plain_part_def delimiter_def list_all_iff)
  from w have "CHR 0x0A \<notin> set (fst w)" "\<forall>v \<in> set (snd w). CHR 0x0A \<notin> set v"
    unfolding cmd_word_ok_def list_all_iff by (blast dest: p)+
  then show ?thesis by (simp add: word_text_def)
qed

lemma cmdline_one_line:
  assumes "list_all (cmd_word_ok params) ws"
  shows "\<exists>l. cmdline_text ws = l @ [CHR 0x0A] \<and> CHR 0x0A \<notin> set l"
  using assms
proof (induction ws rule: cmdline_text.induct)
  case (3 w w' ws)
  then obtain l where "cmdline_text (w' # ws) = l @ [CHR 0x0A]" "CHR 0x0A \<notin> set l" by auto
  then show ?case using 3 word_no_newline [of params w] by (intro exI [of _ "word_text w @ CHR '' '' # l"]) simp
qed (auto dest: word_no_newline)

lemma fgets_cmdline:
  assumes "list_all (cmd_word_ok params) ws" "length (cmdline_text ws) < 1024"
  shows "fgets 1024 (cmdline_text ws) = Some (cmdline_text ws, [])"
proof -
  obtain l where l: "cmdline_text ws = l @ [CHR 0x0A]" "CHR 0x0A \<notin> set l"
    using cmdline_one_line [OF assms(1)] by blast
  then have "takeWhile (\<lambda>c. c \<noteq> CHR 0x0A) (cmdline_text ws) = l" by (simp add: takeWhile_first)
  moreover have "min 1023 (Suc (length l)) = Suc (length l)" using assms(2) l(1) by simp
  ultimately show ?thesis using l(1) by (simp add: fgets_def)
qed

text \<open>On a command line of words that fit into the buffer, every asked parameter is found when
  a word assigns it and has the value of its last assignment, and nothing else is changed. The value
  is only the text behind the last \<open>=\<close> of the word: \<open>root=UUID=x\<close> gives \<open>x\<close>.\<close>
theorem kcmdline_parse_words:
  assumes "list_all (cmd_word_ok params) ws" "distinct (map key params)" "length (cmdline_text ws) < 1024"
  shows "\<exists>ms. tst_kcmdline_parse arr (cmdline_text ws) params = Inr (fold apply_word ws params, ms)"
proof -
  have "fgets 1024 (cmdline_text ws) = Some (cmdline_text ws, [])"
    using fgets_cmdline [OF assms(1,3)] .
  then show ?thesis
    using cmdline_words [OF assms(1,2)] by (simp add: tst_kcmdline_parse_def store_line_def)
qed

theorem kcmdline_parse_words_witness:
  "\<exists>ms. tst_kcmdline_parse [] (cmdline_text [(''quiet'', []), (''root'', [''UUID'', ''x''])])
      [TST_KCMDLINE_INIT ''root'', TST_KCMDLINE_INIT ''debug'']
    = Inr ([\<lparr>key = ''root'', cvalue = ''x'', found = True\<rparr>, TST_KCMDLINE_INIT ''debug''], ms)"
  using kcmdline_parse_words [of "[TST_KCMDLINE_INIT ''root'', TST_KCMDLINE_INIT ''debug'']"
      "[(''quiet'', []), (''root'', [''UUID'', ''x''])]" "[]"]
  by (simp add: cmd_word_ok_def plain_part_def delimiter_def CMDLINE_BUF_def TST_KCMDLINE_INIT_def apply_word_def word_text_def)


end
