(* ===== verification/Clocks.thy ===== *)
theory Clocks
  imports Timer Rtctime Kconfig
begin

text \<open>
  Reading and setting clocks: \<open>lib/tst_clocks.c\<close>, the stop watch of \<open>lib/tst_timer.c\<close>, and saving and
  restoring the wall clock and the hardware clock (\<open>lib/tst_wallclock.c\<close>, the device access of
  \<open>lib/tst_rtctime.c\<close>).

  The kernel is a record of functions on a kernel state: the system calls, the ioctls on the device and
  the file \<open>/etc/localtime\<close>. The variables that are static in the source are a record that every
  function takes and returns. \<open>tst_syscall()\<close> ends the test with \<open>TCONF\<close> when the call fails with \<open>ENOSYS\<close>.
\<close>

section \<open>State\<close>

datatype sysnr = NR_clock_getres | NR_clock_getres_time64 | NR_clock_gettime | NR_clock_gettime64
  | NR_clock_settime | NR_clock_settime64

datatype rtc_request = RTC_RD_TIME | RTC_SET_TIME

definition EINVAL :: int where "EINVAL = 22"

definition ENOSYS :: int where "ENOSYS = 38"

text \<open>
  A system call on a clock takes the kernel state, the clock and the content of the buffer; it returns
  the result, \<open>errno\<close>, the buffer and the state. \<open>time64\<close> tells whether the numbers of the 64-bit variants
  are known, \<open>foo\<close> is what the uninitialised variable of the probe holds.
\<close>

record 'k kernel =
  syscall :: "sysnr \<Rightarrow> 'k \<Rightarrow> int \<Rightarrow> timespec \<Rightarrow> int \<times> int \<times> timespec \<times> 'k"
  time64 :: bool
  foo :: timespec
  safe_open :: "string \<Rightarrow> 'k \<Rightarrow> failure + int \<times> 'k"
  ioctl :: "int \<Rightarrow> rtc_request \<Rightarrow> 'k \<Rightarrow> rtc_time \<Rightarrow> int \<times> rtc_time \<times> 'k"
  safe_close :: "int \<Rightarrow> 'k \<Rightarrow> failure + 'k"
  access_localtime :: "'k \<Rightarrow> bool"
  touch_localtime :: "'k \<Rightarrow> failure + 'k"

record probe =
  tts :: tst_ts
  func :: "sysnr option"

record 'k world =
  getres_probe :: probe
  gettime_probe :: probe
  settime_probe :: probe
  start_time :: timespec
  stop_time :: timespec
  clock_id :: int
  real_begin :: timespec
  mono_begin :: timespec
  rtc_begin :: rtc_time
  clock_saved :: bool
  kst :: 'k

section \<open>tst\_clocks.c\<close>

text \<open>The probe makes the call on clock 0 with an uninitialised time.\<close>

definition syscall_supported_by_kernel :: "'k kernel \<Rightarrow> sysnr \<Rightarrow> 'k \<Rightarrow> bool \<times> 'k" where
  "syscall_supported_by_kernel K nr k =
     (case syscall K nr k 0 (foo K) of (ret, e, tbuf, k) \<Rightarrow> (\<not> (ret = -1 \<and> e = ENOSYS), k))"

definition tst_syscall :: "'k kernel \<Rightarrow> sysnr \<Rightarrow> 'k \<Rightarrow> int \<Rightarrow> timespec \<Rightarrow> failure + int \<times> int \<times> timespec \<times> 'k" where
  "tst_syscall K nr k clk_id tbuf =
     (case syscall K nr k clk_id tbuf of (ret, e, tbuf, k) \<Rightarrow>
        if ret = -1 \<and> e = ENOSYS then Inl (Conf ''syscall not supported on your arch'') else Inr (ret, e, tbuf, k))"

text \<open>What the three functions begin with: choose the variant of the call once.\<close>

definition try_func :: "'k kernel \<Rightarrow> sysnr \<Rightarrow> tst_ts_type \<Rightarrow> probe \<times> 'k \<Rightarrow> probe \<times> 'k" where
  "try_func K nr ty = (\<lambda>(p, k).
     if func p = None then
       case syscall_supported_by_kernel K nr k of (ok, k) \<Rightarrow>
         (if ok then p\<lparr>func := Some nr, tts := (tts p)\<lparr>ts_type := ty\<rparr>\<rparr> else p, k)
     else (p, k))"

definition choose_func :: "'k kernel \<Rightarrow> sysnr \<Rightarrow> sysnr \<Rightarrow> probe \<times> 'k \<Rightarrow> probe \<times> 'k" where
  "choose_func K nr64 nr pk =
     try_func K nr TST_KERN_OLD_TIMESPEC (if time64 K then try_func K nr64 TST_KERN_TIMESPEC pk else pk)"

definition tst_clock_getres :: "'k kernel \<Rightarrow> int \<Rightarrow> timespec \<Rightarrow> 'k world \<Rightarrow> failure + (int \<times> int \<times> timespec) \<times> 'k world" where
  "tst_clock_getres K clk_id res w =
     (case choose_func K NR_clock_getres_time64 NR_clock_getres (getres_probe w, kst w) of (p, k) \<Rightarrow>
      case func p of
        None \<Rightarrow> Inr ((-1, ENOSYS, res), w\<lparr>getres_probe := p, kst := k\<rparr>)
      | Some f \<Rightarrow> and_then (tst_syscall K f k clk_id (the (tst_ts_get (Some (tts p))))) (\<lambda>(ret, e, tbuf, k).
          let t = (tts p)\<lparr>ts_ts := tbuf\<rparr> in
          Inr ((ret, e, \<lparr>tv_sec = tst_ts_get_sec t, tv_nsec = tst_ts_get_nsec t\<rparr>),
               w\<lparr>getres_probe := p\<lparr>tts := t\<rparr>, kst := k\<rparr>)))"

definition tst_clock_gettime :: "'k kernel \<Rightarrow> int \<Rightarrow> timespec \<Rightarrow> 'k world \<Rightarrow> failure + (int \<times> int \<times> timespec) \<times> 'k world" where
  "tst_clock_gettime K clk_id ts w =
     (case choose_func K NR_clock_gettime64 NR_clock_gettime (gettime_probe w, kst w) of (p, k) \<Rightarrow>
      case func p of
        None \<Rightarrow> Inr ((-1, ENOSYS, ts), w\<lparr>gettime_probe := p, kst := k\<rparr>)
      | Some f \<Rightarrow> and_then (tst_syscall K f k clk_id (the (tst_ts_get (Some (tts p))))) (\<lambda>(ret, e, tbuf, k).
          let t = (tts p)\<lparr>ts_ts := tbuf\<rparr> in
          Inr ((ret, e, \<lparr>tv_sec = tst_ts_get_sec t, tv_nsec = tst_ts_get_nsec t\<rparr>),
               w\<lparr>gettime_probe := p\<lparr>tts := t\<rparr>, kst := k\<rparr>)))"

definition tst_clock_settime :: "'k kernel \<Rightarrow> int \<Rightarrow> timespec \<Rightarrow> 'k world \<Rightarrow> failure + (int \<times> int) \<times> 'k world" where
  "tst_clock_settime K clk_id ts w =
     (case choose_func K NR_clock_settime64 NR_clock_settime (settime_probe w, kst w) of (p, k) \<Rightarrow>
      case func p of
        None \<Rightarrow> Inr ((-1, ENOSYS), w\<lparr>settime_probe := p, kst := k\<rparr>)
      | Some f \<Rightarrow>
          let t = tst_ts_set_nsec (tst_ts_set_sec (tts p) (tv_sec ts)) (tv_nsec ts) in
          and_then (tst_syscall K f k clk_id (the (tst_ts_get (Some t)))) (\<lambda>(ret, e, tbuf, k).
            Inr ((ret, e), w\<lparr>settime_probe := p\<lparr>tts := t\<lparr>ts_ts := tbuf\<rparr>\<rparr>, kst := k\<rparr>)))"

definition tst_clock_name :: "int \<Rightarrow> string" where
  "tst_clock_name clk_id =
     (if clk_id = 0 then ''CLOCK_REALTIME''
      else if clk_id = 1 then ''CLOCK_MONOTONIC''
      else if clk_id = 2 then ''CLOCK_PROCESS_CPUTIME_ID''
      else if clk_id = 3 then ''CLOCK_THREAD_CPUTIME_ID''
      else if clk_id = 4 then ''CLOCK_MONOTONIC_RAW''
      else if clk_id = 5 then ''CLOCK_REALTIME_COARSE''
      else if clk_id = 6 then ''CLOCK_MONOTONIC_COARSE''
      else if clk_id = 7 then ''CLOCK_BOOTTIME''
      else if clk_id = 8 then ''CLOCK_REALTIME_ALARM''
      else if clk_id = 9 then ''CLOCK_BOOTTIME_ALARM''
      else if clk_id = 11 then ''CLOCK_TAI''
      else ''INVALID/UNKNOWN CLOCK'')"

text \<open>The uninitialised variable that receives the time is an argument.\<close>

definition tst_clock_get_timestamp :: "'k kernel \<Rightarrow> int \<Rightarrow> timespec \<Rightarrow> 'k world \<Rightarrow> failure + int \<times> 'k world" where
  "tst_clock_get_timestamp K clk_id ts w =
     and_then (tst_clock_gettime K clk_id ts w) (\<lambda>((ret, e, ts), w).
       if ret < 0 then Inl (Brk (''clock_gettime('' @ tst_clock_name clk_id @ '')'')) else Inr (tv_sec ts, w))"

definition tst_fs_timestamp_start :: "'k kernel \<Rightarrow> timespec \<Rightarrow> 'k world \<Rightarrow> failure + int \<times> 'k world" where
  "tst_fs_timestamp_start K = tst_clock_get_timestamp K 5"

definition tst_fs_timestamp_end :: "'k kernel \<Rightarrow> timespec \<Rightarrow> 'k world \<Rightarrow> failure + int \<times> 'k world" where
  "tst_fs_timestamp_end K = tst_clock_get_timestamp K 0"

definition MAX_CLOCKS :: int where "MAX_CLOCKS = 16"

definition MAX_AUX_CLOCKS :: int where "MAX_AUX_CLOCKS = 8"

definition tst_get_max_clocks :: "bool \<Rightarrow> kconfig_env \<Rightarrow> failure + int" where
  "tst_get_max_clocks alloc e =
     and_then (tst_kconfig_check alloc e [''CONFIG_POSIX_AUX_CLOCKS=y'']) (\<lambda>(ret, ms).
       Inr (if ret = 0 then MAX_CLOCKS + MAX_AUX_CLOCKS else MAX_CLOCKS))"

section \<open>tst\_timer.c\<close>

definition tst_timer_check :: "'k kernel \<Rightarrow> int \<Rightarrow> 'k world \<Rightarrow> failure + 'k world" where
  "tst_timer_check K clk_id w =
     and_then (tst_clock_gettime K clk_id (start_time w) w) (\<lambda>((ret, e, ts), w).
       if ret \<noteq> 0 then
         if e = EINVAL then Inl (Conf (''Clock id '' @ tst_clock_name clk_id @ ''('' @ dec_of_int (c_uint clk_id) @ '') not supported by kernel''))
         else Inl (Brk ''tst_clock_gettime() failed'')
       else Inr (w\<lparr>start_time := ts\<rparr>))"

definition warn_failed :: "int \<Rightarrow> message list" where
  "warn_failed ret = (if ret \<noteq> 0 then [(TWARN, ''tst_clock_gettime() failed'')] else [])"

definition tst_timer_start :: "'k kernel \<Rightarrow> int \<Rightarrow> 'k world \<Rightarrow> failure + message list \<times> 'k world" where
  "tst_timer_start K clk_id w =
     and_then (tst_clock_gettime K clk_id (start_time w) (w\<lparr>clock_id := clk_id\<rparr>)) (\<lambda>((ret, e, ts), w).
       Inr (warn_failed ret, w\<lparr>start_time := ts\<rparr>))"

definition tst_timer_expired_ms :: "'k kernel \<Rightarrow> timespec \<Rightarrow> int \<Rightarrow> 'k world \<Rightarrow> failure + (bool \<times> message list) \<times> 'k world" where
  "tst_timer_expired_ms K cur_time ms w =
     and_then (tst_clock_gettime K (clock_id w) cur_time w) (\<lambda>((ret, e, cur_time), w).
       Inr ((ms \<le> tst_timespec_diff_ms cur_time (start_time w), warn_failed ret), w))"

definition tst_timer_stop :: "'k kernel \<Rightarrow> 'k world \<Rightarrow> failure + message list \<times> 'k world" where
  "tst_timer_stop K w =
     and_then (tst_clock_gettime K (clock_id w) (stop_time w) w) (\<lambda>((ret, e, ts), w).
       Inr (warn_failed ret, w\<lparr>stop_time := ts\<rparr>))"

definition tst_timer_elapsed :: "'k world \<Rightarrow> timespec" where
  "tst_timer_elapsed w = tst_timespec_diff (stop_time w) (start_time w)"

definition tst_timer_elapsed_ms :: "'k world \<Rightarrow> int" where
  "tst_timer_elapsed_ms w = tst_timespec_to_ms (tst_timer_elapsed w)"

definition tst_timer_elapsed_us :: "'k world \<Rightarrow> int" where
  "tst_timer_elapsed_us w = tst_timespec_to_us (tst_timer_elapsed w)"

section \<open>tst\_rtc\_ioctl() and tst\_wallclock.c\<close>

definition tst_rtc_ioctl :: "'k kernel \<Rightarrow> string \<Rightarrow> rtc_request \<Rightarrow> rtc_time \<Rightarrow> 'k world \<Rightarrow> failure + (int \<times> rtc_time) \<times> 'k world" where
  "tst_rtc_ioctl K rtc_dev request rtc_tm w =
     and_then (safe_open K rtc_dev (kst w)) (\<lambda>(rtc_fd, k).
       case ioctl K rtc_fd request k rtc_tm of (ret, rtc_tm, k) \<Rightarrow>
         if ret \<noteq> 0 then Inr ((-1, rtc_tm), w\<lparr>kst := k\<rparr>)
         else if 0 < rtc_fd then and_then (safe_close K rtc_fd k) (\<lambda>k. Inr ((0, rtc_tm), w\<lparr>kst := k\<rparr>))
         else Inr ((0, rtc_tm), w\<lparr>kst := k\<rparr>))"

definition tst_rtc_gettime :: "'k kernel \<Rightarrow> string \<Rightarrow> rtc_time \<Rightarrow> 'k world \<Rightarrow> failure + (int \<times> rtc_time) \<times> 'k world" where
  "tst_rtc_gettime K rtc_dev = tst_rtc_ioctl K rtc_dev RTC_RD_TIME"

definition tst_rtc_settime :: "'k kernel \<Rightarrow> string \<Rightarrow> rtc_time \<Rightarrow> 'k world \<Rightarrow> failure + (int \<times> rtc_time) \<times> 'k world" where
  "tst_rtc_settime K rtc_dev = tst_rtc_ioctl K rtc_dev RTC_SET_TIME"

definition tst_wallclock_save :: "'k kernel \<Rightarrow> 'k world \<Rightarrow> failure + 'k world" where
  "tst_wallclock_save K w =
     and_then (tst_clock_gettime K 0 (real_begin w) w) (\<lambda>((ret, e, ts), w).
       if ret \<noteq> 0 then Inl (Brk ''tst_clock_gettime() realtime failed'')
       else let w = w\<lparr>real_begin := ts\<rparr> in
         and_then (tst_clock_gettime K 4 (mono_begin w) w) (\<lambda>((ret, e, ts), w).
           if ret \<noteq> 0 then
             if e = EINVAL then Inl (Conf (''tst_clock_gettime() didn'' @ apos @ ''t support CLOCK_MONOTONIC_RAW''))
             else Inl (Brk ''tst_clock_gettime() monotonic failed'')
           else Inr (w\<lparr>mono_begin := ts, clock_saved := True\<rparr>)))"

text \<open>The static variables of the two restore functions are assigned before they are used.\<close>

definition tst_wallclock_restore :: "'k kernel \<Rightarrow> 'k world \<Rightarrow> failure + 'k world" where
  "tst_wallclock_restore K w =
     (if \<not> clock_saved w then Inr w
      else let w = w\<lparr>clock_saved := False\<rparr> in
        and_then (tst_clock_gettime K 4 \<lparr>tv_sec = 0, tv_nsec = 0\<rparr> w) (\<lambda>((ret, e, mono_end), w).
          if ret \<noteq> 0 then Inl (Brk ''tst_clock_gettime() monotonic failed'')
          else let elapsed = tst_timespec_diff mono_end (mono_begin w);
                   adjust = tst_timespec_add (real_begin w) elapsed in
            and_then (tst_clock_settime K 0 adjust w) (\<lambda>((ret, e), w).
              if ret \<noteq> 0 then Inl (Brk ''tst_clock_settime() realtime failed'')
              else if access_localtime K (kst w) then
                and_then (touch_localtime K (kst w)) (\<lambda>k. Inr (w\<lparr>kst := k\<rparr>))
              else Inr w)))"

definition tst_rtc_clock_save :: "'k kernel \<Rightarrow> string \<Rightarrow> 'k world \<Rightarrow> failure + 'k world" where
  "tst_rtc_clock_save K rtc_dev w =
     and_then (tst_rtc_gettime K rtc_dev (rtc_begin w) w) (\<lambda>((ret, tm), w).
       if ret \<noteq> 0 then Inl (Brk ''tst_rtc_gettime() realtime failed'')
       else let w = w\<lparr>rtc_begin := tm\<rparr> in
         and_then (tst_clock_gettime K 4 (mono_begin w) w) (\<lambda>((ret, e, ts), w).
           if ret \<noteq> 0 then Inl (Brk ''tst_clock_gettime() monotonic failed'')
           else Inr (w\<lparr>mono_begin := ts, clock_saved := True\<rparr>)))"

definition tst_rtc_clock_restore :: "'k kernel \<Rightarrow> string \<Rightarrow> 'k world \<Rightarrow> failure + 'k world" where
  "tst_rtc_clock_restore K rtc_dev w =
     (if \<not> clock_saved w then Inr w
      else let w = w\<lparr>clock_saved := False\<rparr> in
        and_then (tst_clock_gettime K 4 \<lparr>tv_sec = 0, tv_nsec = 0\<rparr> w) (\<lambda>((ret, e, mono_end), w).
          if ret \<noteq> 0 then Inl (Brk ''tst_clock_gettime() monotonic failed'')
          else let elapsed = tst_timespec_diff mono_end (mono_begin w);
                   rtc_begin_tm = \<lparr>tv_sec = tst_rtc_tm_to_time (rtc_begin w), tv_nsec = 0\<rparr>;
                   rtc_adjust = tst_timespec_add rtc_begin_tm elapsed;
                   rtc_restore = tst_rtc_time_to_tm (tv_sec rtc_adjust) in
            and_then (tst_rtc_settime K rtc_dev rtc_restore w) (\<lambda>((ret, tm), w).
              if ret \<noteq> 0 then Inl (Brk ''tst_rtc_settime() realtime failed'')
              else Inr w)))"

section \<open>What the kernel promises\<close>

text \<open>
  \<open>now k c\<close> is the time of clock \<open>c\<close> in the kernel state \<open>k\<close>. The contract describes a 64-bit kernel:
  reading a clock changes nothing, the real time clock takes every valid time and no other clock
  moves with it, touching a file leaves the clocks alone. Time passes between the calls only.
\<close>

definition valid_time :: "timespec \<Rightarrow> bool" where
  "valid_time t \<longleftrightarrow> 0 \<le> tv_sec t \<and> 0 \<le> tv_nsec t \<and> tv_nsec t < 1000000000"

definition clock_contract :: "'k kernel \<Rightarrow> ('k \<Rightarrow> int \<Rightarrow> timespec) \<Rightarrow> bool" where
  "clock_contract K now \<longleftrightarrow> \<not> time64 K
     \<and> (\<forall>k c b. c = 0 \<or> c = 4 \<longrightarrow> syscall K NR_clock_gettime k c b = (0, 0, now k c, k))
     \<and> (\<forall>k t. if valid_time t
          then \<exists>k'. syscall K NR_clock_settime k 0 t = (0, 0, t, k') \<and> now k' 0 = t \<and> now k' 4 = now k 4
          else syscall K NR_clock_settime k 0 t = (-1, EINVAL, t, k))
     \<and> (\<forall>k. \<exists>k'. touch_localtime K k = Inr k' \<and> now k' = now k)"

text \<open>A probe that has not run yet or has chosen the call of the 64-bit kernel.\<close>

definition probe_ok :: "sysnr \<Rightarrow> probe \<Rightarrow> bool" where
  "probe_ok nr p \<longleftrightarrow> func p = None \<or> func p = Some nr"

lemma errno_neq [simp]: "EINVAL \<noteq> ENOSYS"
  by (simp add: EINVAL_def ENOSYS_def)

lemmas clock_call_defs = choose_func_def try_func_def syscall_supported_by_kernel_def tst_syscall_def tst_ts_get_def

lemma gettime_ok:
  assumes "clock_contract K now" "probe_ok NR_clock_gettime (gettime_probe w)" "c = 0 \<or> c = 4"
  shows "\<exists>p. tst_clock_gettime K c ts w = Inr ((0, 0, now (kst w) c), w\<lparr>gettime_probe := p\<rparr>) \<and> probe_ok NR_clock_gettime p"
proof -
  have s: "syscall K NR_clock_gettime k 0 b = (0, 0, now k 0, k)" "syscall K NR_clock_gettime k c b = (0, 0, now k c, k)" "\<not> time64 K" for k b
    using assms(1,3) by (auto simp: clock_contract_def)
  show ?thesis
    using assms(2) s by (auto simp: probe_ok_def tst_clock_gettime_def clock_call_defs tst_ts_get_sec_def tst_ts_get_nsec_def Let_def)
qed

lemma choose_settime:
  assumes "clock_contract K now" "probe_ok NR_clock_settime p"
  shows "\<exists>p' k'. choose_func K NR_clock_settime64 NR_clock_settime (p, k) = (p', k') \<and> func p' = Some NR_clock_settime
    \<and> now k' 4 = now k 4 \<and> (func p = None \<and> valid_time (foo K) \<longrightarrow> now k' 0 = foo K)"
proof -
  have n: "\<not> time64 K" using assms(1) by (simp add: clock_contract_def)
  show ?thesis
  proof (cases "valid_time (foo K)")
    case True
    then obtain k' where "syscall K NR_clock_settime k 0 (foo K) = (0, 0, foo K, k')" "now k' 0 = foo K" "now k' 4 = now k 4"
      using assms(1) unfolding clock_contract_def by metis
    then show ?thesis using n assms(2) by (auto simp: probe_ok_def clock_call_defs)
  next
    case False
    then have "syscall K NR_clock_settime k 0 (foo K) = (-1, EINVAL, foo K, k)"
      using assms(1) unfolding clock_contract_def by metis
    then show ?thesis using n assms(2) False by (auto simp: probe_ok_def clock_call_defs)
  qed
qed

lemma timespec_rebuild: "s\<lparr>tv_sec := tv_sec t, tv_nsec := tv_nsec t\<rparr> = t" for s t :: timespec
  by (simp add: timespec.equality)

lemma settime_call:
  "choose_func K NR_clock_settime64 NR_clock_settime (settime_probe w, kst w) = (p, k) \<Longrightarrow> func p = Some f
   \<Longrightarrow> syscall K f k c t = (ret, e, t, k') \<Longrightarrow> \<not> (ret = -1 \<and> e = ENOSYS)
   \<Longrightarrow> tst_clock_settime K c t w = Inr ((ret, e), w\<lparr>settime_probe := p\<lparr>tts := (tts p)\<lparr>ts_ts := t\<rparr>\<rparr>, kst := k'\<rparr>)"
  by (simp add: tst_clock_settime_def tst_syscall_def tst_ts_get_def tst_ts_set_sec_def tst_ts_set_nsec_def timespec_rebuild)

lemma settime_ok:
  assumes "clock_contract K now" "probe_ok NR_clock_settime (settime_probe w)" "valid_time t"
  shows "\<exists>p k. tst_clock_settime K 0 t w = Inr ((0, 0), w\<lparr>settime_probe := p, kst := k\<rparr>) \<and> probe_ok NR_clock_settime p
    \<and> now k 0 = t \<and> now k 4 = now (kst w) 4"
proof -
  obtain p k where p: "choose_func K NR_clock_settime64 NR_clock_settime (settime_probe w, kst w) = (p, k)"
    "func p = Some NR_clock_settime" "now k 4 = now (kst w) 4"
    using choose_settime [OF assms(1,2)] by blast
  obtain k' where k': "syscall K NR_clock_settime k 0 t = (0, 0, t, k')" "now k' 0 = t" "now k' 4 = now k 4"
    using assms(1,3) unfolding clock_contract_def by metis
  show ?thesis
    by (intro exI conjI, rule settime_call [OF p(1,2) k'(1)]) (use p k' in \<open>simp_all add: probe_ok_def\<close>)
qed

text \<open>Setting a clock for the first time sets the real time clock, to the uninitialised variable
  of the probe: the call fails for a clock that cannot be set, but the wall clock has changed.\<close>
theorem settime_probe_sets_clock:
  assumes "clock_contract K now" "valid_time (foo K)" "func (settime_probe w) = None"
    and "\<forall>k. syscall K NR_clock_settime k c t = (-1, EINVAL, t, k)"
  shows "\<exists>w'. tst_clock_settime K c t w = Inr ((-1, EINVAL), w') \<and> now (kst w') 0 = foo K"
proof -
  have "probe_ok NR_clock_settime (settime_probe w)" using assms(3) by (simp add: probe_ok_def)
  then obtain p k where p: "choose_func K NR_clock_settime64 NR_clock_settime (settime_probe w, kst w) = (p, k)"
    "func p = Some NR_clock_settime" "now k 0 = foo K"
    using choose_settime [OF assms(1)] assms(2,3) by blast
  from settime_call [OF p(1,2), of c t "-1" EINVAL] assms(4) p(3) show ?thesis by simp
qed

section \<open>Saving and restoring\<close>

lemma wallclock_save_ok:
  assumes "clock_contract K now" "probe_ok NR_clock_gettime (gettime_probe w)"
  shows "\<exists>p. tst_wallclock_save K w = Inr (w\<lparr>gettime_probe := p, real_begin := now (kst w) 0, mono_begin := now (kst w) 4, clock_saved := True\<rparr>)
    \<and> probe_ok NR_clock_gettime p"
proof -
  obtain p where p: "tst_clock_gettime K 0 (real_begin w) w = Inr ((0, 0, now (kst w) 0), w\<lparr>gettime_probe := p\<rparr>)" "probe_ok NR_clock_gettime p"
    using gettime_ok [OF assms] by blast
  let ?w = "w\<lparr>gettime_probe := p, real_begin := now (kst w) 0\<rparr>"
  obtain q where "tst_clock_gettime K 4 (mono_begin ?w) ?w = Inr ((0, 0, now (kst ?w) 4), ?w\<lparr>gettime_probe := q\<rparr>)" "probe_ok NR_clock_gettime q"
    using gettime_ok [OF assms(1), of ?w 4] p(2) by auto
  then show ?thesis using p by (intro exI [of _ q]) (simp add: tst_wallclock_save_def)
qed

lemma wallclock_restore_ok:
  assumes "clock_contract K now" "probe_ok NR_clock_gettime (gettime_probe w)" "probe_ok NR_clock_settime (settime_probe w)" "clock_saved w"
    and "t = tst_timespec_add (real_begin w) (tst_timespec_diff (now (kst w) 4) (mono_begin w))" "valid_time t"
  shows "\<exists>w'. tst_wallclock_restore K w = Inr w' \<and> now (kst w') 0 = t \<and> now (kst w') 4 = now (kst w) 4 \<and> \<not> clock_saved w'"
proof -
  let ?w = "w\<lparr>clock_saved := False\<rparr>"
  obtain p where p: "tst_clock_gettime K 4 \<lparr>tv_sec = 0, tv_nsec = 0\<rparr> ?w = Inr ((0, 0, now (kst ?w) 4), ?w\<lparr>gettime_probe := p\<rparr>)"
    using gettime_ok [OF assms(1), of ?w 4] assms(2) by auto
  let ?v = "?w\<lparr>gettime_probe := p\<rparr>"
  obtain q k where q: "tst_clock_settime K 0 t ?v = Inr ((0, 0), ?v\<lparr>settime_probe := q, kst := k\<rparr>)" "now k 0 = t" "now k 4 = now (kst w) 4"
    using settime_ok [OF assms(1) _ assms(6), of ?v] assms(3) by auto
  obtain k' where "touch_localtime K k = Inr k'" "now k' = now k" using assms(1) unfolding clock_contract_def by metis
  then show ?thesis using p q assms(4,5) by (simp add: tst_wallclock_restore_def)
qed

lemma restore_unsaved: "\<not> clock_saved w \<Longrightarrow> tst_wallclock_restore K w = Inr w" "\<not> clock_saved w \<Longrightarrow> tst_rtc_clock_restore K dev w = Inr w"
  by (simp_all add: tst_wallclock_restore_def tst_rtc_clock_restore_def)

lemma valid_time_ns: "time_ok t \<Longrightarrow> 0 \<le> ns_of t \<Longrightarrow> valid_time t"
  unfolding valid_time_def time_ok_def ns_of_def by linarith

text \<open>C11: Whatever a test does to the real time clock between saving and restoring (the kernel is
  in an arbitrary state \<open>k\<close> then), it is set to the saved time plus what the raw monotonic clock has
  counted since, exactly. Restoring clears the flag that it shares with the hardware clock, so
  neither of the two restore functions does anything after it.\<close>
theorem wallclock_restored:
  assumes "clock_contract K now" "probe_ok NR_clock_gettime (gettime_probe w)" "probe_ok NR_clock_settime (settime_probe w)"
    and "time_ok (now (kst w) 0)" "time_ok (now (kst w) 4)" "time_ok (now k 4)"
    and "\<bar>ns_of (now k 4) - ns_of (now (kst w) 4)\<bar> \<le> NS_LIMIT"
    and "0 \<le> ns_of (now (kst w) 0) + (ns_of (now k 4) - ns_of (now (kst w) 4))"
    and "ns_of (now (kst w) 0) + (ns_of (now k 4) - ns_of (now (kst w) 4)) \<le> NS_LIMIT"
  shows "\<exists>w1 w2. tst_wallclock_save K w = Inr w1 \<and> tst_wallclock_restore K (w1\<lparr>kst := k\<rparr>) = Inr w2
    \<and> ns_of (now (kst w2) 0) = ns_of (now (kst w) 0) + (ns_of (now k 4) - ns_of (now (kst w) 4))
    \<and> time_ok (now (kst w2) 0) \<and> now (kst w2) 4 = now k 4
    \<and> tst_wallclock_restore K w2 = Inr w2 \<and> tst_rtc_clock_restore K dev w2 = Inr w2"
proof -
  obtain p where p: "tst_wallclock_save K w = Inr (w\<lparr>gettime_probe := p, real_begin := now (kst w) 0, mono_begin := now (kst w) 4, clock_saved := True\<rparr>)"
    (is "_ = Inr ?w1") "probe_ok NR_clock_gettime p"
    using wallclock_save_ok [OF assms(1,2)] by blast
  define t where "t = tst_timespec_add (now (kst w) 0) (tst_timespec_diff (now k 4) (now (kst w) 4))"
  have t: "time_ok t" "ns_of t = ns_of (now (kst w) 0) + (ns_of (now k 4) - ns_of (now (kst w) 4))"
    using tsp.shift_ns [OF assms(4,6,5,7)] assms(8,9) by (simp_all add: t_def)
  have "valid_time t" using valid_time_ns [OF t(1)] t(2) assms(8) by simp
  then obtain w2 where w2: "tst_wallclock_restore K (?w1\<lparr>kst := k\<rparr>) = Inr w2" "now (kst w2) 0 = t" "now (kst w2) 4 = now k 4" "\<not> clock_saved w2"
    using wallclock_restore_ok [OF assms(1), of "?w1\<lparr>kst := k\<rparr>" t] p(2) assms(3) by (auto simp: t_def)
  show ?thesis
    by (intro exI conjI, rule p(1), rule w2(1)) (use w2 t restore_unsaved in auto)
qed

text \<open>The hardware clock: the device can be opened, read and set, and the other clocks do not move.\<close>

definition rtc_contract :: "'k kernel \<Rightarrow> ('k \<Rightarrow> int \<Rightarrow> timespec) \<Rightarrow> ('k \<Rightarrow> rtc_time) \<Rightarrow> string \<Rightarrow> bool" where
  "rtc_contract K now rtc dev \<longleftrightarrow> (\<exists>fd > 0. \<forall>k. safe_open K dev k = Inr (fd, k) \<and> safe_close K fd k = Inr k
     \<and> (\<forall>tm. ioctl K fd RTC_RD_TIME k tm = (0, rtc k, k))
     \<and> (\<forall>tm. \<exists>k'. ioctl K fd RTC_SET_TIME k tm = (0, tm, k') \<and> rtc k' = tm \<and> now k' = now k))"

lemma rtc_gettime_ok: "rtc_contract K now rtc dev \<Longrightarrow> tst_rtc_gettime K dev tm w = Inr ((0, rtc (kst w)), w)"
  by (auto simp: rtc_contract_def tst_rtc_gettime_def tst_rtc_ioctl_def)

lemma rtc_settime_ok:
  assumes "rtc_contract K now rtc dev"
  shows "\<exists>k'. tst_rtc_settime K dev tm w = Inr ((0, tm), w\<lparr>kst := k'\<rparr>) \<and> rtc k' = tm \<and> now k' = now (kst w)"
proof -
  obtain fd where fd: "0 < fd" "safe_open K dev k = Inr (fd, k)" "safe_close K fd k = Inr k"
    "\<exists>k'. ioctl K fd RTC_SET_TIME k tm = (0, tm, k') \<and> rtc k' = tm \<and> now k' = now k" for k
    using assms unfolding rtc_contract_def by metis
  from fd(4) [of "kst w"] obtain k' where "ioctl K fd RTC_SET_TIME (kst w) tm = (0, tm, k')" "rtc k' = tm" "now k' = now (kst w)" by blast
  then show ?thesis using fd(1-3) by (intro exI [of _ k']) (simp add: tst_rtc_settime_def tst_rtc_ioctl_def)
qed

lemma rtc_save_ok:
  assumes "clock_contract K now" "rtc_contract K now rtc dev" "probe_ok NR_clock_gettime (gettime_probe w)"
  shows "\<exists>p. tst_rtc_clock_save K dev w = Inr (w\<lparr>gettime_probe := p, mono_begin := now (kst w) 4, rtc_begin := rtc (kst w), clock_saved := True\<rparr>)
    \<and> probe_ok NR_clock_gettime p"
proof -
  let ?w = "w\<lparr>rtc_begin := rtc (kst w)\<rparr>"
  obtain q where "tst_clock_gettime K 4 (mono_begin ?w) ?w = Inr ((0, 0, now (kst ?w) 4), ?w\<lparr>gettime_probe := q\<rparr>)" "probe_ok NR_clock_gettime q"
    using gettime_ok [OF assms(1), of ?w 4] assms(3) by auto
  then show ?thesis using rtc_gettime_ok [OF assms(2)] by (intro exI [of _ q]) (simp add: tst_rtc_clock_save_def)
qed

lemma rtc_restore_ok:
  assumes "clock_contract K now" "rtc_contract K now rtc dev" "probe_ok NR_clock_gettime (gettime_probe w)" "clock_saved w"
  shows "\<exists>w'. tst_rtc_clock_restore K dev w = Inr w' \<and> \<not> clock_saved w' \<and> now (kst w') = now (kst w)
    \<and> rtc (kst w') = tst_rtc_time_to_tm (tv_sec (tst_timespec_add \<lparr>tv_sec = tst_rtc_tm_to_time (rtc_begin w), tv_nsec = 0\<rparr>
        (tst_timespec_diff (now (kst w) 4) (mono_begin w))))"
proof -
  let ?w = "w\<lparr>clock_saved := False\<rparr>"
  obtain p where p: "tst_clock_gettime K 4 \<lparr>tv_sec = 0, tv_nsec = 0\<rparr> ?w = Inr ((0, 0, now (kst ?w) 4), ?w\<lparr>gettime_probe := p\<rparr>)"
    using gettime_ok [OF assms(1), of ?w 4] assms(3) by auto
  define tm where "tm = tst_rtc_time_to_tm (tv_sec (tst_timespec_add \<lparr>tv_sec = tst_rtc_tm_to_time (rtc_begin w), tv_nsec = 0\<rparr>
        (tst_timespec_diff (now (kst w) 4) (mono_begin w))))"
  obtain k where "tst_rtc_settime K dev tm (?w\<lparr>gettime_probe := p\<rparr>) = Inr ((0, tm), ?w\<lparr>gettime_probe := p, kst := k\<rparr>)" "rtc k = tm" "now k = now (kst w)"
    using rtc_settime_ok [OF assms(2), of tm "?w\<lparr>gettime_probe := p\<rparr>"] by auto
  then show ?thesis using p assms(4) unfolding tst_rtc_clock_restore_def tm_def [symmetric] by (simp add: tm_def)
qed

lemma ns_sec:
  assumes "time_ok t" "ns_of t = s * 1000000000 + d"
  shows "tv_sec t = s + d div 1000000000"
proof -
  have "d = (tv_sec t - s) * 1000000000 + tv_nsec t" using assms(2) by (simp add: ns_of_def algebra_simps)
  then have "d div 1000000000 = tv_sec t - s"
    using assms(1) unfolding time_ok_def by (intro int_div_pos_eq [of _ _ _ "tv_nsec t"]) auto
  then show ?thesis by simp
qed

text \<open>The hardware clock is set to the saved date plus the whole seconds that the raw monotonic
  clock has counted, whatever happened to it in between.\<close>
theorem rtc_clock_restored:
  assumes "clock_contract K now" "rtc_contract K now rtc dev" "probe_ok NR_clock_gettime (gettime_probe w)"
    and "time_ok (now (kst w) 4)" "time_ok (now k 4)" "\<bar>ns_of (now k 4) - ns_of (now (kst w) 4)\<bar> \<le> NS_LIMIT"
    and "t0 = tst_rtc_tm_to_time (rtc (kst w))" "0 \<le> t0" "t0 * 1000000000 \<le> NS_LIMIT"
    and "0 \<le> t0 * 1000000000 + (ns_of (now k 4) - ns_of (now (kst w) 4))"
    and "t0 * 1000000000 + (ns_of (now k 4) - ns_of (now (kst w) 4)) \<le> NS_LIMIT"
  shows "\<exists>w1 w2. tst_rtc_clock_save K dev w = Inr w1 \<and> tst_rtc_clock_restore K dev (w1\<lparr>kst := k\<rparr>) = Inr w2
    \<and> tst_rtc_tm_to_time (rtc (kst w2)) = t0 + (ns_of (now k 4) - ns_of (now (kst w) 4)) div 1000000000
    \<and> now (kst w2) = now k"
proof -
  obtain p where p: "tst_rtc_clock_save K dev w = Inr (w\<lparr>gettime_probe := p, mono_begin := now (kst w) 4, rtc_begin := rtc (kst w), clock_saved := True\<rparr>)"
    (is "_ = Inr ?w1") "probe_ok NR_clock_gettime p"
    using rtc_save_ok [OF assms(1-3)] by blast
  define t where "t = tst_timespec_add \<lparr>tv_sec = t0, tv_nsec = 0\<rparr> (tst_timespec_diff (now k 4) (now (kst w) 4))"
  define d where "d = ns_of (now k 4) - ns_of (now (kst w) 4)"
  have begin_ok: "time_ok \<lparr>tv_sec = t0, tv_nsec = 0\<rparr>" "ns_of \<lparr>tv_sec = t0, tv_nsec = 0\<rparr> = t0 * 1000000000"
    using assms(8,9) by (simp_all add: time_ok_def ns_of_def)
  have t: "time_ok t" "ns_of t = t0 * 1000000000 + d"
    using tsp.shift_ns [OF begin_ok(1) assms(5,4,6)] begin_ok(2) assms(10,11) by (simp_all add: t_def d_def)
  have sec: "tv_sec t = t0 + d div 1000000000"
    by (rule ns_sec [OF t])
  have "valid_time t" using valid_time_ns [OF t(1)] t(2) assms(10) by (simp add: d_def)
  then have "0 \<le> tv_sec t" "tv_sec t < TIME_LIMIT"
    using time_ok_sec [OF t(1)] by (simp_all add: valid_time_def TIME_LIMIT_def)
  note inv = rtc_inverse [OF this]
  obtain w2 where w2: "tst_rtc_clock_restore K dev (?w1\<lparr>kst := k\<rparr>) = Inr w2" "now (kst w2) = now k" "rtc (kst w2) = tst_rtc_time_to_tm (tv_sec t)"
    using rtc_restore_ok [OF assms(1,2), of "?w1\<lparr>kst := k\<rparr>"] p(2) assms(7) by (auto simp: t_def)
  show ?thesis
    by (intro exI conjI, rule p(1), rule w2(1)) (use w2 inv sec d_def in auto)
qed

section \<open>The stop watch\<close>

lemma stopwatch:
  assumes "clock_contract K now" "probe_ok NR_clock_gettime (gettime_probe w)" "c = 0 \<or> c = 4"
    and "time_ok (now (kst w) c)" "time_ok (now k c)" "\<bar>ns_of (now k c) - ns_of (now (kst w) c)\<bar> \<le> NS_LIMIT"
  shows "\<exists>w1 w2. tst_timer_start K c w = Inr ([], w1) \<and> tst_timer_stop K (w1\<lparr>kst := k\<rparr>) = Inr ([], w2)
    \<and> ns_of (tst_timer_elapsed w2) = ns_of (now k c) - ns_of (now (kst w) c)
    \<and> tst_timer_elapsed_ms w2 = (ns_of (now k c) - ns_of (now (kst w) c) + 500000) div 1000000"
proof -
  let ?w = "w\<lparr>clock_id := c\<rparr>"
  obtain p where p: "tst_clock_gettime K c (start_time w) ?w = Inr ((0, 0, now (kst ?w) c), ?w\<lparr>gettime_probe := p\<rparr>)" "probe_ok NR_clock_gettime p"
    using gettime_ok [OF assms(1), of ?w] assms(2,3) by auto
  let ?v = "?w\<lparr>gettime_probe := p, start_time := now (kst w) c, kst := k\<rparr>"
  obtain q where q: "tst_clock_gettime K c (stop_time ?v) ?v = Inr ((0, 0, now k c), ?v\<lparr>gettime_probe := q\<rparr>)"
    using gettime_ok [OF assms(1) _ assms(3), of ?v] p(2) by auto
  let ?u = "?v\<lparr>gettime_probe := q, stop_time := now k c\<rparr>"
  have d: "time_ok (tst_timer_elapsed ?u)" "ns_of (tst_timer_elapsed ?u) = ns_of (now k c) - ns_of (now (kst w) c)"
    using tsp.diff_ns [OF assms(5,4,6)] by (simp_all add: tst_timer_elapsed_def)
  show ?thesis
  proof (intro exI conjI)
    show "tst_timer_start K c w = Inr ([], ?w\<lparr>gettime_probe := p, start_time := now (kst w) c\<rparr>)"
      using p(1) by (simp add: tst_timer_start_def warn_failed_def)
    show "tst_timer_stop K (?w\<lparr>gettime_probe := p, start_time := now (kst w) c, kst := k\<rparr>) = Inr ([], ?u)"
      using q by (simp add: tst_timer_stop_def warn_failed_def)
    show "ns_of (tst_timer_elapsed ?u) = ns_of (now k c) - ns_of (now (kst w) c)" by (rule d(2))
    show "tst_timer_elapsed_ms ?u = (ns_of (now k c) - ns_of (now (kst w) c) + 500000) div 1000000"
      using to_ms_eq [of "tst_ts_from_timespec (tst_timer_elapsed ?u)"] d by (simp add: tst_timer_elapsed_ms_def tst_timespec_to_ms_def)
  qed
qed

section \<open>The contracts hold of a simple kernel\<close>

text \<open>A kernel with two clocks and a hardware clock.\<close>

definition two_clocks :: "(timespec \<times> timespec \<times> rtc_time) kernel" where
  "two_clocks = \<lparr>syscall = \<lambda>nr k c t. case nr of
       NR_clock_gettime \<Rightarrow> (0, 0, if c = 0 then fst k else fst (snd k), k)
     | NR_clock_settime \<Rightarrow> (if c = 0 \<and> valid_time t then (0, 0, t, (t, snd k)) else (-1, EINVAL, t, k))
     | _ \<Rightarrow> (-1, ENOSYS, t, k),
     time64 = False, foo = \<lparr>tv_sec = 77, tv_nsec = 7\<rparr>,
     safe_open = \<lambda>dev k. Inr (3, k),
     ioctl = \<lambda>fd req k tm. case req of RTC_RD_TIME \<Rightarrow> (0, snd (snd k), k) | RTC_SET_TIME \<Rightarrow> (0, tm, (fst k, fst (snd k), tm)),
     safe_close = \<lambda>fd k. Inr k, access_localtime = \<lambda>k. True, touch_localtime = \<lambda>k. Inr k\<rparr>"

definition clock_of :: "timespec \<times> timespec \<times> rtc_time \<Rightarrow> int \<Rightarrow> timespec" where
  "clock_of k c = (if c = 0 then fst k else fst (snd k))"

lemma two_clocks_contract: "clock_contract two_clocks clock_of"
  by (auto simp: clock_contract_def two_clocks_def clock_of_def)

lemma two_clocks_rtc: "rtc_contract two_clocks clock_of (\<lambda>k. snd (snd k)) dev"
  unfolding rtc_contract_def by (intro exI [of _ 3]) (auto simp: two_clocks_def clock_of_def fun_eq_iff)

definition new_probe :: probe where
  "new_probe = \<lparr>tts = init_ts TST_LIBC_TIMESPEC, func = None\<rparr>"

definition new_world :: "'k \<Rightarrow> 'k world" where
  "new_world k = (let z = \<lparr>tv_sec = 0, tv_nsec = 0\<rparr> in
     \<lparr>getres_probe = new_probe, gettime_probe = new_probe, settime_probe = new_probe, start_time = z, stop_time = z,
      clock_id = 0, real_begin = z, mono_begin = z, rtc_begin = tm_of 0 1970 0 0 0, clock_saved = False, kst = k\<rparr>)"

lemma new_world_simps [simp]: "probe_ok nr (gettime_probe (new_world k))" "probe_ok nr (settime_probe (new_world k))"
  "func (settime_probe (new_world k)) = None" "kst (new_world k) = k"
  by (simp_all add: new_world_def new_probe_def probe_ok_def Let_def)

text \<open>The test puts the clock back to 1970, and three seconds pass.\<close>

theorem wallclock_restored_witness:
  "\<exists>w1 w2. tst_wallclock_save two_clocks (new_world (\<lparr>tv_sec = 1000, tv_nsec = 999999999\<rparr>, \<lparr>tv_sec = 5, tv_nsec = 1\<rparr>, tm_of 0 1970 0 0 0)) = Inr w1
    \<and> tst_wallclock_restore two_clocks (w1\<lparr>kst := (\<lparr>tv_sec = 0, tv_nsec = 0\<rparr>, \<lparr>tv_sec = 8, tv_nsec = 2\<rparr>, tm_of 0 1970 0 0 0)\<rparr>) = Inr w2
    \<and> ns_of (clock_of (kst w2) 0) = 1004000000000"
  using wallclock_restored [OF two_clocks_contract, of "new_world (\<lparr>tv_sec = 1000, tv_nsec = 999999999\<rparr>, \<lparr>tv_sec = 5, tv_nsec = 1\<rparr>, tm_of 0 1970 0 0 0)"
      "(\<lparr>tv_sec = 0, tv_nsec = 0\<rparr>, \<lparr>tv_sec = 8, tv_nsec = 2\<rparr>, tm_of 0 1970 0 0 0)" "''/dev/rtc''"]
  by (auto simp: clock_of_def time_ok_def ns_of_def NS_LIMIT_def)

theorem settime_probe_sets_clock_witness:
  "\<exists>w'. tst_clock_settime two_clocks 4 \<lparr>tv_sec = 1, tv_nsec = 0\<rparr> (new_world (\<lparr>tv_sec = 1000, tv_nsec = 0\<rparr>, \<lparr>tv_sec = 5, tv_nsec = 0\<rparr>, tm_of 0 1970 0 0 0))
      = Inr ((-1, EINVAL), w') \<and> clock_of (kst w') 0 = \<lparr>tv_sec = 77, tv_nsec = 7\<rparr>"
  using settime_probe_sets_clock [OF two_clocks_contract, of "new_world (\<lparr>tv_sec = 1000, tv_nsec = 0\<rparr>, \<lparr>tv_sec = 5, tv_nsec = 0\<rparr>, tm_of 0 1970 0 0 0)"
      4 "\<lparr>tv_sec = 1, tv_nsec = 0\<rparr>"]
  by (simp add: two_clocks_def valid_time_def)

text \<open>The hardware clock stood at midnight of 1 January 1970; 61 seconds later it shows one minute and one second.\<close>

theorem rtc_clock_restored_witness:
  "\<exists>w1 w2. tst_rtc_clock_save two_clocks ''/dev/rtc'' (new_world (\<lparr>tv_sec = 0, tv_nsec = 0\<rparr>, \<lparr>tv_sec = 5, tv_nsec = 0\<rparr>, tm_of 0 1970 0 0 0)) = Inr w1
    \<and> tst_rtc_clock_restore two_clocks ''/dev/rtc'' (w1\<lparr>kst := (\<lparr>tv_sec = 0, tv_nsec = 0\<rparr>, \<lparr>tv_sec = 66, tv_nsec = 5\<rparr>, tm_of 0 1999 0 0 0)\<rparr>) = Inr w2
    \<and> tst_rtc_tm_to_time (snd (snd (kst w2))) = 61"
proof -
  have "date_of 0 1970 0 0" by (simp add: date_of_def year_start_def leaps_def month_start_def rtc_month_days_def rtc_days_in_month_def)
  from tm_to_time_date [OF this, of 0] have "tst_rtc_tm_to_time (tm_of 0 1970 0 0 0) = 0" by simp
  then show ?thesis
    using rtc_clock_restored [OF two_clocks_contract two_clocks_rtc, of "new_world (\<lparr>tv_sec = 0, tv_nsec = 0\<rparr>, \<lparr>tv_sec = 5, tv_nsec = 0\<rparr>, tm_of 0 1970 0 0 0)"
        "(\<lparr>tv_sec = 0, tv_nsec = 0\<rparr>, \<lparr>tv_sec = 66, tv_nsec = 5\<rparr>, tm_of 0 1999 0 0 0)" 0 "''/dev/rtc''"]
    by (auto simp: clock_of_def time_ok_def ns_of_def NS_LIMIT_def)
qed

end
