(* ===== verification/Ujson_Common.thy ===== *)
theory Ujson_Common
  imports Ltp_Prelude
begin

text \<open>
  Definitions shared by the JSON reader and the JSON writer
  (\<open>include/ujson_common.h\<close>, \<open>libs/ujson/ujson_common.c\<close>): limits, the type of a JSON
  value and its name.
\<close>

definition UJSON_ERR_MAX :: nat where "UJSON_ERR_MAX = 128"

definition UJSON_ID_MAX :: nat where "UJSON_ID_MAX = 64"

definition UJSON_RECURSION_MAX :: nat where "UJSON_RECURSION_MAX = 128"

datatype ujson_type =
    UJSON_VOID | UJSON_INT | UJSON_FLOAT | UJSON_BOOL | UJSON_NULL | UJSON_STR | UJSON_OBJ | UJSON_ARR

definition ujson_type_name :: "ujson_type \<Rightarrow> string" where
  "ujson_type_name t =
     (case t of
        UJSON_VOID \<Rightarrow> ''void''
      | UJSON_INT \<Rightarrow> ''integer''
      | UJSON_FLOAT \<Rightarrow> ''float''
      | UJSON_BOOL \<Rightarrow> ''boolean''
      | UJSON_NULL \<Rightarrow> ''null''
      | UJSON_STR \<Rightarrow> ''string''
      | UJSON_OBJ \<Rightarrow> ''object''
      | UJSON_ARR \<Rightarrow> ''array'')"

end
