(* ===== verification/Ujson_Utf.thy ===== *)
theory Ujson_Utf
  imports Ltp_Prelude "HOL-Library.Monad_Syntax"
begin

unbundle bit_operations_syntax

text \<open>
  The UTF-8 helpers of the JSON library (\<open>include/ujson_utf.h\<close> and
  \<open>libs/ujson/ujson_utf.c\<close>): the byte classes, the decoder, the size of the next and of
  the previous character, the length of a string in characters and the encoder.

  Reads are checked: \<open>None\<close> is a read behind the terminating NUL (or before the start) of
  the string. The lemmas relate decoder and sizes to the encoder.
\<close>

section \<open>Byte classes\<close>

definition UJSON_UTF8_IS_ASCII :: "'a::len word \<Rightarrow> bool" where
  "UJSON_UTF8_IS_ASCII ch \<longleftrightarrow> ch AND 0x80 = 0"

definition UJSON_UTF8_IS_NBYTE :: "'a::len word \<Rightarrow> bool" where
  "UJSON_UTF8_IS_NBYTE ch \<longleftrightarrow> ch AND 0xc0 = 0x80"

definition UJSON_UTF8_IS_2BYTE :: "'a::len word \<Rightarrow> bool" where
  "UJSON_UTF8_IS_2BYTE ch \<longleftrightarrow> ch AND 0xe0 = 0xc0"

definition UJSON_UTF8_IS_3BYTE :: "'a::len word \<Rightarrow> bool" where
  "UJSON_UTF8_IS_3BYTE ch \<longleftrightarrow> ch AND 0xf0 = 0xe0"

definition UJSON_UTF8_IS_4BYTE :: "'a::len word \<Rightarrow> bool" where
  "UJSON_UTF8_IS_4BYTE ch \<longleftrightarrow> ch AND 0xf8 = 0xf0"

definition UJSON_UTF8_NBYTE_MASK :: "32 word" where
  "UJSON_UTF8_NBYTE_MASK = 0x3f"

text \<open>A \<open>char\<close> as a byte, and sign extended to 32 bits by \<open>uint32_t s = *str\<close> (where
  \<open>char\<close> is unsigned the upper bits are zero: every test masks them off).\<close>

definition byte_of :: "char \<Rightarrow> 8 word" where
  "byte_of c = of_char c"

definition char_of_byte :: "8 word \<Rightarrow> char" where
  "char_of_byte w = char_of (unat w)"

definition sext_of :: "char \<Rightarrow> 32 word" where
  "sext_of c = signed (byte_of c)"

section \<open>Pointers into a string\<close>

text \<open>A pointer is the suffix it points to, or \<open>None\<close> once it is behind the terminator.\<close>

type_synonym ptr = "string option"

definition ptr_get :: "ptr \<Rightarrow> char option" where
  "ptr_get p = map_option deref p"

definition ptr_inc :: "ptr \<Rightarrow> ptr" where
  "ptr_inc p = (case p of Some (c # s) \<Rightarrow> Some s | _ \<Rightarrow> None)"

text \<open>\<open>str[i]\<close>.\<close>

definition str_get :: "string \<Rightarrow> nat \<Rightarrow> char option" where
  "str_get str i = (if i \<le> length str then Some (deref (drop i str)) else None)"

section \<open>Decoder\<close>

definition ujson_utf8_next :: "ptr \<Rightarrow> (32 word \<times> ptr) option" where
  "ujson_utf8_next str = do {
     c0 \<leftarrow> ptr_get str;
     let s0 = sext_of c0;
     let str = ptr_inc str;
     if UJSON_UTF8_IS_ASCII s0 then Some (s0, str) else do {
     c1 \<leftarrow> ptr_get str;
     let s1 = sext_of c1;
     if \<not> UJSON_UTF8_IS_NBYTE s1 then Some (0, str) else do {
     let s1 = s1 AND UJSON_UTF8_NBYTE_MASK;
     let str = ptr_inc str;
     if UJSON_UTF8_IS_2BYTE s0 then Some (push_bit 6 (s0 AND 0x1f) OR s1, str) else do {
     c2 \<leftarrow> ptr_get str;
     let s2 = sext_of c2;
     if \<not> UJSON_UTF8_IS_NBYTE s2 then Some (0, str) else do {
     let s2 = s2 AND UJSON_UTF8_NBYTE_MASK;
     let str = ptr_inc str;
     if UJSON_UTF8_IS_3BYTE s0
     then Some (push_bit 12 (s0 AND 0x0f) OR push_bit 6 s1 OR s2, str) else do {
     let str = ptr_inc str;
     c3 \<leftarrow> ptr_get str;
     let s3 = sext_of c3;
     if \<not> UJSON_UTF8_IS_NBYTE s2 then Some (0, str) else do {
     let s3 = s3 AND UJSON_UTF8_NBYTE_MASK;
     if UJSON_UTF8_IS_4BYTE s0
     then Some (push_bit 18 (s0 AND 0x07) OR push_bit 12 s1 OR push_bit 6 s2 OR s3, str)
     else Some (0, str)
     }}}}}}}"

section \<open>Sizes\<close>

text \<open>The tests of the bytes behind the first one (label \<open>ret\<close>).\<close>

definition check_nbytes :: "string \<Rightarrow> nat \<Rightarrow> nat \<Rightarrow> int option" where
  "check_nbytes str off len = do {
     c1 \<leftarrow> str_get str (off + 1);
     if \<not> UJSON_UTF8_IS_NBYTE (byte_of c1) then Some (-1)
     else if len \<le> 2 then Some (int len) else do {
     c2 \<leftarrow> str_get str (off + 2);
     if \<not> UJSON_UTF8_IS_NBYTE (byte_of c2) then Some (-1)
     else if len \<le> 3 then Some (int len) else do {
     c3 \<leftarrow> str_get str (off + 3);
     if \<not> UJSON_UTF8_IS_NBYTE (byte_of c3) then Some (-1) else Some (int len)
     }}}"

definition ujson_utf8_next_chsz :: "string \<Rightarrow> nat \<Rightarrow> int option" where
  "ujson_utf8_next_chsz str off = do {
     c \<leftarrow> str_get str off;
     let ch = byte_of c;
     if ch = 0 then Some 0
     else if UJSON_UTF8_IS_ASCII ch then Some 1
     else if UJSON_UTF8_IS_2BYTE ch then check_nbytes str off 2
     else if UJSON_UTF8_IS_3BYTE ch then check_nbytes str off 3
     else if UJSON_UTF8_IS_4BYTE ch then check_nbytes str off 4
     else Some (-1)
   }"

definition ujson_utf8_prev_chsz :: "string \<Rightarrow> nat \<Rightarrow> int option" where
  "ujson_utf8_prev_chsz str off =
     (if off = 0 then Some 0 else do {
      let off = off - 1;
      c \<leftarrow> str_get str off;
      if UJSON_UTF8_IS_ASCII (byte_of c) then Some 1
      else if \<not> UJSON_UTF8_IS_NBYTE (byte_of c) then Some (-1)
      else if off < 1 then Some (-1) else do {
      let off = off - 1;
      c \<leftarrow> str_get str off;
      if UJSON_UTF8_IS_2BYTE (byte_of c) then Some 2
      else if \<not> UJSON_UTF8_IS_NBYTE (byte_of c) then Some (-1)
      else if off < 1 then Some (-1) else do {
      let off = off - 1;
      c \<leftarrow> str_get str off;
      if UJSON_UTF8_IS_3BYTE (byte_of c) then Some 3
      else if \<not> UJSON_UTF8_IS_NBYTE (byte_of c) then Some (-1)
      else if off < 1 then Some (-1) else do {
      let off = off - 1;
      c \<leftarrow> str_get str off;
      if UJSON_UTF8_IS_4BYTE (byte_of c) then Some 4 else Some (-1)
      }}}})"

section \<open>Encoder\<close>

definition ujson_utf8_bytes :: "32 word \<Rightarrow> nat" where
  "ujson_utf8_bytes unicode =
     (if unicode < 0x0080 then 1
      else if unicode < 0x0800 then 2
      else if unicode < 0x10000 then 3
      else 4)"

text \<open>The bytes stored in \<open>buf\<close>; their number is the returned value.\<close>

definition utf8_byte :: "32 word \<Rightarrow> char" where
  "utf8_byte w = char_of_byte (ucast w)"

definition ujson_to_utf8 :: "32 word \<Rightarrow> string" where
  "ujson_to_utf8 unicode =
     (if unicode < 0x0080 then [utf8_byte (unicode AND 0x007f)]
      else if unicode < 0x0800 then
        [utf8_byte (0xc0 OR (0x1f AND drop_bit 6 unicode)),
         utf8_byte (0x80 OR (0x3f AND unicode))]
      else if unicode < 0x10000 then
        [utf8_byte (0xe0 OR (0x0f AND drop_bit 12 unicode)),
         utf8_byte (0x80 OR (0x3f AND drop_bit 6 unicode)),
         utf8_byte (0x80 OR (0x3f AND unicode))]
      else
        [utf8_byte (0xf0 OR (0x07 AND drop_bit 18 unicode)),
         utf8_byte (0x80 OR (0x3f AND drop_bit 12 unicode)),
         utf8_byte (0x80 OR (0x3f AND drop_bit 6 unicode)),
         utf8_byte (0x80 OR (0x3f AND unicode))])"

section \<open>The number of characters\<close>

text \<open>What is left to read; every call of \<^const>\<open>ujson_utf8_next\<close> makes it smaller.\<close>

definition ptr_size :: "ptr \<Rightarrow> nat" where
  "ptr_size p = (case p of None \<Rightarrow> 0 | Some s \<Rightarrow> Suc (length s))"

lemma ptr_inc_size: "p \<noteq> None \<Longrightarrow> ptr_size (ptr_inc p) < ptr_size p" "ptr_size (ptr_inc p) \<le> ptr_size p"
  by (auto simp: ptr_inc_def ptr_size_def split: option.splits list.splits)

lemma utf8_next_size [termination_simp]:
  assumes "ujson_utf8_next p = Some (v, p')"
  shows "ptr_size p' < ptr_size p"
proof -
  have "p \<noteq> None"
    using assms by (cases p) (auto simp: ujson_utf8_next_def ptr_get_def)
  then have 1: "ptr_size (ptr_inc p) < ptr_size p" by (rule ptr_inc_size)
  have "p' \<in> {ptr_inc p, ptr_inc (ptr_inc p), ptr_inc (ptr_inc (ptr_inc p)), ptr_inc (ptr_inc (ptr_inc (ptr_inc p)))}"
    using assms by (auto simp: ujson_utf8_next_def Let_def split: bind_splits if_split_asm)
  then show ?thesis
    using 1 ptr_inc_size(2) [of "ptr_inc p"] ptr_inc_size(2) [of "ptr_inc (ptr_inc p)"]
      ptr_inc_size(2) [of "ptr_inc (ptr_inc (ptr_inc p))"] by auto
qed

function strlen_loop :: "ptr \<Rightarrow> nat \<Rightarrow> nat option" where
  "strlen_loop str cnt =
     (case ujson_utf8_next str of
        None \<Rightarrow> None
      | Some (v, str') \<Rightarrow> if v = 0 then Some cnt else strlen_loop str' (cnt + 1))"
  by pat_completeness auto
termination
  by (relation "measure (\<lambda>(str, cnt). ptr_size str)") (auto simp: utf8_next_size)

declare strlen_loop.simps [simp del]

definition ujson_utf8_strlen :: "string \<Rightarrow> nat option" where
  "ujson_utf8_strlen str = strlen_loop (Some str) 0"

section \<open>Decoding what the encoder stored\<close>

lemma byte_of_utf8_byte [simp]: "byte_of (utf8_byte w) = ucast w"
proof -
  have lt: "unat (ucast w :: 8 word) < 256"
    using unsigned_less [of "ucast w :: 8 word", where 'a = nat] by simp
  have "byte_of (utf8_byte w) = of_nat (of_char (char_of (unat (ucast w :: 8 word))))"
    by (simp only: byte_of_def utf8_byte_def char_of_byte_def of_nat_of_char)
  also have "\<dots> = ucast w"
    using lt by (simp add: of_char_of del: of_nat_of_char)
  finally show ?thesis .
qed

lemma small_word_bit:
  fixes w :: "32 word"
  assumes "w < 2 ^ k" "k < 32" "bit w n"
  shows "n < k"
proof -
  have "uint w < 2 ^ k"
    using assms(1,2) word_2p_lem [of k w] by (simp add: word_size)
  then have "take_bit k (uint w) = uint w"
    by (simp add: take_bit_int_eq_self)
  then have "bit (take_bit k (uint w)) n"
    using assms(3) by (simp add: bit_unsigned_iff)
  then show ?thesis by (simp add: bit_take_bit_iff)
qed

lemma sext_mask: "m < 0x100 \<Longrightarrow> sext_of (utf8_byte w) AND m = w AND m"
proof (rule bit_word_eqI)
  fix n assume "m < 0x100" "n < LENGTH(32)"
  then show "bit (sext_of (utf8_byte w) AND m) n = bit (w AND m) n"
    using small_word_bit [of m 8 n] by (cases "n = 7") (auto simp: sext_of_def bit_simps min_def not_le)
qed

lemma mask_numerals:
  "(0x3f :: 32 word) = mask 6" "(0x1f :: 32 word) = mask 5" "(0x0f :: 32 word) = mask 4" "(0x07 :: 32 word) = mask 3"
  "(0x7f :: 32 word) = mask 7"
  by (simp_all add: mask_eq_exp_minus_1)

lemma join2: "u < 0x800 \<Longrightarrow> push_bit 6 (0x1f AND drop_bit 6 u) OR (0x3f AND u) = u" for u :: "32 word"
proof (rule bit_word_eqI)
  fix n assume "u < 0x800" "n < LENGTH(32)"
  then show "bit (push_bit 6 (0x1f AND drop_bit 6 u) OR (0x3f AND u)) n = bit u n"
    using small_word_bit [of u 11 n] by (auto simp: mask_numerals bit_simps)
qed

lemma join3: "u < 0x10000 \<Longrightarrow> push_bit 12 (0x0f AND drop_bit 12 u) OR push_bit 6 (0x3f AND drop_bit 6 u) OR (0x3f AND u) = u" for u :: "32 word"
proof (rule bit_word_eqI)
  fix n assume "u < 0x10000" "n < LENGTH(32)"
  then show "bit (push_bit 12 (0x0f AND drop_bit 12 u) OR push_bit 6 (0x3f AND drop_bit 6 u) OR (0x3f AND u)) n = bit u n"
    using small_word_bit [of u 16 n] by (auto simp: mask_numerals bit_simps)
qed

lemma or_and_mask: "(a OR (m AND x)) AND k = (a AND k) OR ((m AND k) AND x)" for a :: "32 word"
  by (rule bit_word_eqI) (auto simp: bit_simps)

lemma classes:
  "((0x80 OR (0x3f AND x)) AND 0xc0 :: 32 word) = 0x80"
  "((0x80 OR (0x3f AND x)) AND 0x80 :: 32 word) = 0x80"
  "((0x80 OR (0x3f AND x)) AND 0x3f :: 32 word) = 0x3f AND x"
  "((0xc0 OR (0x1f AND x)) AND 0x80 :: 32 word) = 0x80"
  "((0xc0 OR (0x1f AND x)) AND 0xe0 :: 32 word) = 0xc0"
  "((0xc0 OR (0x1f AND x)) AND 0x1f :: 32 word) = 0x1f AND x"
  "((0xe0 OR (0x0f AND x)) AND 0x80 :: 32 word) = 0x80"
  "((0xe0 OR (0x0f AND x)) AND 0xe0 :: 32 word) = 0xe0"
  "((0xe0 OR (0x0f AND x)) AND 0xf0 :: 32 word) = 0xe0"
  "((0xe0 OR (0x0f AND x)) AND 0x0f :: 32 word) = 0x0f AND x"
  "((0xf0 OR (0x07 AND x)) AND 0x80 :: 32 word) = 0x80"
  "((0xf0 OR (0x07 AND x)) AND 0xe0 :: 32 word) = 0xe0"
  "((0xf0 OR (0x07 AND x)) AND 0xf0 :: 32 word) = 0xf0"
  "((0xf0 OR (0x07 AND x)) AND 0xf8 :: 32 word) = 0xf0"
  by (simp_all add: or_and_mask)


lemma sext_utf8_byte:
  "UJSON_UTF8_IS_ASCII (sext_of (utf8_byte w)) = (w AND 0x80 = 0)"
  "UJSON_UTF8_IS_NBYTE (sext_of (utf8_byte w)) = (w AND 0xc0 = 0x80)"
  "UJSON_UTF8_IS_2BYTE (sext_of (utf8_byte w)) = (w AND 0xe0 = 0xc0)"
  "UJSON_UTF8_IS_3BYTE (sext_of (utf8_byte w)) = (w AND 0xf0 = 0xe0)"
  "UJSON_UTF8_IS_4BYTE (sext_of (utf8_byte w)) = (w AND 0xf8 = 0xf0)"
  by (simp_all add: UJSON_UTF8_IS_ASCII_def UJSON_UTF8_IS_NBYTE_def UJSON_UTF8_IS_2BYTE_def
      UJSON_UTF8_IS_3BYTE_def UJSON_UTF8_IS_4BYTE_def sext_mask)

lemma byte_eq8: "(ucast w :: 8 word) AND ucast m = ucast k \<longleftrightarrow> w AND m = k"
  if "m < 0x100" "k < 0x100" for w m k :: "32 word"
proof
  assume eq: "(ucast w :: 8 word) AND ucast m = ucast k"
  show "w AND m = k"
  proof (rule bit_word_eqI)
    fix n assume "n < LENGTH(32)"
    show "bit (w AND m) n = bit k n"
      using arg_cong [OF eq, of "\<lambda>x. bit x n"] small_word_bit [of m 8 n] small_word_bit [of k 8 n] that
      by (auto simp: bit_simps)
  qed
qed (auto simp: unsigned_and_eq)

lemma byte_utf8_byte:
  fixes w :: "32 word"
  shows
  "UJSON_UTF8_IS_ASCII (ucast w :: 8 word) = (w AND 0x80 = 0)"
  "UJSON_UTF8_IS_NBYTE (ucast w :: 8 word) = (w AND 0xc0 = 0x80)"
  "UJSON_UTF8_IS_2BYTE (ucast w :: 8 word) = (w AND 0xe0 = 0xc0)"
  "UJSON_UTF8_IS_3BYTE (ucast w :: 8 word) = (w AND 0xf0 = 0xe0)"
  "UJSON_UTF8_IS_4BYTE (ucast w :: 8 word) = (w AND 0xf8 = 0xf0)"
  using byte_eq8 [of "0x80" 0 w] byte_eq8 [of "0xc0" "0x80" w] byte_eq8 [of "0xe0" "0xc0" w]
    byte_eq8 [of "0xf0" "0xe0" w] byte_eq8 [of "0xf8" "0xf0" w]
  by (simp_all add: UJSON_UTF8_IS_ASCII_def UJSON_UTF8_IS_NBYTE_def UJSON_UTF8_IS_2BYTE_def
      UJSON_UTF8_IS_3BYTE_def UJSON_UTF8_IS_4BYTE_def)

lemma ascii_word: "u < 0x80 \<Longrightarrow> u AND 0x7f = u" "u < 0x80 \<Longrightarrow> u AND 0x80 = 0" for u :: "32 word"
proof -
  assume u: "u < 0x80"
  have b: "bit u n \<Longrightarrow> n < 7" for n using small_word_bit [of u 7 n] u by simp
  then show "u AND 0x7f = u"
    by (intro bit_word_eqI) (auto simp: mask_numerals bit_simps)
  then have "u AND 0x80 = u AND (0x7f AND 0x80)"
    by (metis and.assoc)
  then show "u AND 0x80 = 0" by simp
qed

lemma sext_ascii: "u < 0x80 \<Longrightarrow> sext_of (utf8_byte u) = u"
proof (rule bit_word_eqI)
  fix n assume "u < 0x80" "n < LENGTH(32)"
  then show "bit (sext_of (utf8_byte u)) n = bit u n"
    using small_word_bit [of u 7 n] small_word_bit [of u 7 7] by (auto simp: sext_of_def bit_simps min_def not_le)
qed

lemma utf8_next_encoded:
  assumes "u < 0x10000"
  shows "ujson_utf8_next (Some (ujson_to_utf8 u @ s)) = Some (u, Some s)"
proof -
  consider "u < 0x80" | "\<not> u < 0x80" "u < 0x800" | "\<not> u < 0x80" "\<not> u < 0x800" by blast
  then show ?thesis
  proof cases
    case 1
    then show ?thesis
      by (simp add: ujson_utf8_next_def ujson_to_utf8_def ptr_get_def ptr_inc_def Let_def ascii_word UJSON_UTF8_IS_ASCII_def sext_ascii)
  next
    case 2
    then show ?thesis
      using join2 [of u]
      by (simp add: ujson_utf8_next_def ujson_to_utf8_def ptr_get_def ptr_inc_def Let_def sext_utf8_byte sext_mask
          UJSON_UTF8_NBYTE_MASK_def classes)
  next
    case 3
    then show ?thesis
      using join3 [OF assms] assms
      by (simp add: ujson_utf8_next_def ujson_to_utf8_def ptr_get_def ptr_inc_def Let_def sext_utf8_byte sext_mask
          UJSON_UTF8_NBYTE_MASK_def classes)
  qed
qed

lemma utf8_next_encoded4:
  assumes "\<not> u < 0x10000"
  shows "ujson_utf8_next (Some (ujson_to_utf8 u @ s)) = Some (0, Some s)"
    and "ujson_utf8_next (Some (take 3 (ujson_to_utf8 u))) = None"
proof -
  have u: "\<not> u < 0x80" "\<not> u < 0x800"
    using assms by (auto simp: word_less_nat_alt)
  have n: "(0x3f AND x) AND 0xc0 \<noteq> (0x80 :: 32 word)" for x
  proof -
    have "(0x3f AND x) AND 0xc0 = (0x3f AND 0xc0) AND (x :: 32 word)"
      by (metis and.assoc and.commute)
    then show ?thesis by simp
  qed
  show "ujson_utf8_next (Some (ujson_to_utf8 u @ s)) = Some (0, Some s)"
    "ujson_utf8_next (Some (take 3 (ujson_to_utf8 u))) = None"
    using assms u n
    by (simp_all add: ujson_utf8_next_def ujson_to_utf8_def ptr_get_def ptr_inc_def Let_def sext_utf8_byte sext_mask
          UJSON_UTF8_NBYTE_MASK_def UJSON_UTF8_IS_NBYTE_def classes)
qed

section \<open>Sizes of encoded characters\<close>

lemma byte_of_NUL: "byte_of NUL = 0"
  by (simp add: byte_of_def)

lemma not_nbyte_NUL: "\<not> UJSON_UTF8_IS_NBYTE (byte_of NUL)"
  by (simp add: byte_of_NUL UJSON_UTF8_IS_NBYTE_def)

lemma str_get_append: "str_get (p @ s) (length p + i) = str_get s i"
  by (simp add: str_get_def)

lemma str_get_append0: "str_get (p @ s) (length p) = str_get s 0"
  using str_get_append [of p s 0] by simp

lemma utf8_bytes_length: "length (ujson_to_utf8 u) = ujson_utf8_bytes u"
  by (simp add: ujson_to_utf8_def ujson_utf8_bytes_def)

lemma ucast_nz: "u AND m \<noteq> 0 \<Longrightarrow> m < 0x100 \<Longrightarrow> (ucast u :: 8 word) \<noteq> 0" for u m :: "32 word"
  using byte_eq8 [of m 0 u] by auto

lemma nbyte_not_lead:
  assumes "w AND 0xc0 = (0x80 :: 32 word)"
  shows "w AND 0xe0 \<noteq> 0xc0" "w AND 0xf0 \<noteq> 0xe0" "w AND 0xf8 \<noteq> 0xf0"
proof -
  have "w AND m = k \<Longrightarrow> w AND (m AND 0xc0) = k AND 0xc0" for m k
    by (metis and.assoc)
  from this [of "0xe0" "0xc0"] this [of "0xf0" "0xe0"] this [of "0xf8" "0xf0"]
  show "w AND 0xe0 \<noteq> 0xc0" "w AND 0xf0 \<noteq> 0xe0" "w AND 0xf8 \<noteq> 0xf0"
    using assms by auto
qed

lemma next_chsz_encoded:
  assumes "u \<noteq> 0"
  shows "ujson_utf8_next_chsz (p @ ujson_to_utf8 u @ s) (length p) = Some (int (ujson_utf8_bytes u))"
proof -
  have get: "str_get (p @ c # t) (length p) = Some c"
    "str_get (p @ c # d # t) (Suc (length p)) = Some d"
    "str_get (p @ c # d # e # t) (length p + 2) = Some e"
    "str_get (p @ c # d # e # t) (Suc (Suc (length p))) = Some e"
    "str_get (p @ c # d # e # f # t) (length p + 3) = Some f"
    "str_get (p @ c # d # e # t) (2 + length p) = Some e"
    "str_get (p @ c # d # e # f # t) (3 + length p) = Some f" for c d e f t
    by (simp_all add: str_get_def numeral_eq_Suc)
  have nz: "u < 0x80 \<Longrightarrow> (ucast u :: 8 word) \<noteq> 0"
    "(ucast (0xc0 OR (0x1f AND x) :: 32 word) :: 8 word) \<noteq> 0"
    "(ucast (0xe0 OR (0x0f AND x) :: 32 word) :: 8 word) \<noteq> 0"
    "(ucast (0xf0 OR (0x07 AND x) :: 32 word) :: 8 word) \<noteq> 0" for x
    using assms ascii_word(1) [of u] ucast_nz [of u "0x7f"] ucast_nz [of _ "0x80"] by (simp_all add: classes)
  show ?thesis
    using nz
    by (simp add: ujson_utf8_next_chsz_def ujson_to_utf8_def ujson_utf8_bytes_def check_nbytes_def get
      byte_utf8_byte classes ascii_word Let_def)
qed

lemma prev_chsz_encoded:
  "ujson_utf8_prev_chsz (p @ ujson_to_utf8 u @ s) (length p + ujson_utf8_bytes u) = Some (int (ujson_utf8_bytes u))"
proof -
  have get: "str_get (p @ c # t) (length p) = Some c"
    "str_get (p @ c # d # t) (Suc (length p)) = Some d"
    "str_get (p @ c # d # e # t) (length p + 2) = Some e"
    "str_get (p @ c # d # e # t) (Suc (Suc (length p))) = Some e"
    "str_get (p @ c # d # e # f # t) (length p + 3) = Some f"
    "str_get (p @ c # d # e # t) (2 + length p) = Some e"
    "str_get (p @ c # d # e # f # t) (3 + length p) = Some f" for c d e f t
    by (simp_all add: str_get_def numeral_eq_Suc)
  show ?thesis
    by (simp add: ujson_utf8_prev_chsz_def ujson_to_utf8_def ujson_utf8_bytes_def get
      byte_utf8_byte classes nbyte_not_lead ascii_word Let_def)
qed

lemma str_get_nbyte:
  "str_get str i = Some c \<Longrightarrow> UJSON_UTF8_IS_NBYTE (byte_of c) \<Longrightarrow> i < length str"
  using not_nbyte_NUL by (cases "i = length str") (auto simp: str_get_def split: if_splits)

lemma str_get_Some: "i \<le> length str \<Longrightarrow> str_get str i = Some (deref (drop i str))"
  by (simp add: str_get_def)

lemma check_nbytes_safe:
  assumes "off < length str" "2 \<le> len" "len \<le> 4"
  shows "\<exists>r. check_nbytes str off len = Some r \<and> (r = -1 \<or> r = int len \<and> off + len \<le> length str)"
proof -
  have n: "UJSON_UTF8_IS_NBYTE (byte_of (deref (drop i str))) \<Longrightarrow> i < length str" for i
    using not_nbyte_NUL by (cases "i < length str") auto
  show ?thesis
    using assms n [of "off + 1"] n [of "off + 2"] n [of "off + 3"]
    by (auto simp: check_nbytes_def str_get_Some)
qed

lemma next_chsz_safe:
  assumes "off \<le> length str"
  shows "\<exists>r. ujson_utf8_next_chsz str off = Some r \<and> (r = -1 \<or> r \<in> {0..4} \<and> off + nat r \<le> length str)"
proof (cases "off = length str")
  case True
  then show ?thesis by (simp add: ujson_utf8_next_chsz_def str_get_def byte_of_NUL)
next
  case False
  then show ?thesis
    using assms check_nbytes_safe [of off str 2] check_nbytes_safe [of off str 3] check_nbytes_safe [of off str 4]
    by (auto simp: ujson_utf8_next_chsz_def str_get_Some Let_def)
qed

lemma strlen_loop_encoded:
  "\<forall>u \<in> set us. u \<noteq> 0 \<and> u < 0x10000 \<Longrightarrow> strlen_loop (Some (concat (map ujson_to_utf8 us))) cnt = Some (cnt + length us)"
proof (induction us arbitrary: cnt)
  case Nil
  have "ujson_utf8_next (Some []) = Some (0, None)"
    by (simp add: ujson_utf8_next_def ptr_get_def ptr_inc_def sext_of_def byte_of_NUL UJSON_UTF8_IS_ASCII_def Let_def)
  then show ?case by (simp add: strlen_loop.simps)
next
  case (Cons u us)
  then show ?case
    using strlen_loop.simps [of "Some (ujson_to_utf8 u @ concat (map ujson_to_utf8 us))" cnt]
    by (simp add: utf8_next_encoded)
qed

section \<open>Properties\<close>

text \<open>C39: Decoding the bytes stored for a code point of the Basic Multilingual Plane gives the
  code point back and leaves the pointer exactly behind these bytes, as many as
  \<^const>\<open>ujson_utf8_bytes\<close> announced.\<close>
theorem utf8_decode_encode:
  assumes "u < 0x10000"
  shows "ujson_utf8_next (Some (ujson_to_utf8 u @ s)) = Some (u, Some s)
    \<and> length (ujson_to_utf8 u) = ujson_utf8_bytes u"
  using utf8_next_encoded [OF assms] by (simp add: utf8_bytes_length)

theorem utf8_decode_encode_witness:
  "(0x20ac :: 32 word) < 0x10000 \<and> ujson_utf8_next (Some (ujson_to_utf8 0x20ac @ ''x'')) = Some (0x20ac, Some ''x'')"
  using utf8_decode_encode [of "0x20ac" "''x''"] by simp

text \<open>A four byte sequence never decodes: \<open>ujson_utf8_next\<close> tests the third byte again, after
  its marker bits were masked away, and reports the end of the string for every code point above
  the Basic Multilingual Plane, although both size functions see a valid character of four bytes.
  When the fourth byte is missing the decoder reads behind the terminating NUL.\<close>
theorem utf8_four_bytes_lost:
  assumes "\<not> u < 0x10000"
  shows "ujson_utf8_next (Some (ujson_to_utf8 u @ s)) = Some (0, Some s)
    \<and> ujson_utf8_next_chsz (ujson_to_utf8 u @ s) 0 = Some 4
    \<and> ujson_utf8_prev_chsz (ujson_to_utf8 u @ s) 4 = Some 4
    \<and> ujson_utf8_next (Some (take 3 (ujson_to_utf8 u))) = None"
proof -
  have "u \<noteq> 0" "ujson_utf8_bytes u = 4"
    using assms by (auto simp: ujson_utf8_bytes_def word_less_nat_alt)
  then show ?thesis
    using utf8_next_encoded4 [OF assms] next_chsz_encoded [of u "[]" s] prev_chsz_encoded [of "[]" u s] by simp
qed

theorem utf8_four_bytes_lost_witness:
  "\<not> (0x1f600 :: 32 word) < 0x10000 \<and> ujson_utf8_next (Some (ujson_to_utf8 0x1f600 @ ''x'')) = Some (0, Some ''x'')"
  using utf8_four_bytes_lost [of "0x1f600" "''x''"] by simp

text \<open>At the boundary before (behind) an encoded character, anywhere in a string, the size of the
  next (previous) character is the number of bytes the encoder used.\<close>
theorem utf8_chsz_encoded:
  assumes "u \<noteq> 0"
  shows "ujson_utf8_next_chsz (p @ ujson_to_utf8 u @ s) (length p) = Some (int (ujson_utf8_bytes u))
    \<and> ujson_utf8_prev_chsz (p @ ujson_to_utf8 u @ s) (length p + ujson_utf8_bytes u) = Some (int (ujson_utf8_bytes u))"
  using next_chsz_encoded [OF assms] prev_chsz_encoded by blast

theorem utf8_chsz_encoded_witness:
  "(0xe9 :: 32 word) \<noteq> 0 \<and> ujson_utf8_prev_chsz (''caf'' @ ujson_to_utf8 0xe9 @ ''s'') (length ''caf'' + 2) = Some 2"
  using utf8_chsz_encoded [of "0xe9" "''caf''" "''s''"] by (simp add: ujson_utf8_bytes_def)

text \<open>\<open>ujson_utf8_strlen\<close> of an encoded text is its number of characters.\<close>
theorem utf8_strlen_encoded:
  assumes "\<forall>u \<in> set us. u \<noteq> 0 \<and> u < 0x10000"
  shows "ujson_utf8_strlen (concat (map ujson_to_utf8 us)) = Some (length us)"
  using strlen_loop_encoded [OF assms] by (simp add: ujson_utf8_strlen_def)

theorem utf8_strlen_encoded_witness:
  "ujson_utf8_strlen (concat (map ujson_to_utf8 [0x63, 0xe9, 0x20ac])) = Some 3"
  using utf8_strlen_encoded [of "[0x63, 0xe9, 0x20ac]"] by simp

end
