(* ===== verification/Ujson_Reader.thy ===== *)
theory Ujson_Reader
  imports Ujson_Common Ujson_Utf
begin

text \<open>
  The JSON reader (\<open>libs/ujson/ujson_reader.c\<close>, \<open>include/ujson_reader.h\<close>): the cursor,
  strings, IDs and numbers, values, iteration over arrays and objects, attribute filters, skipping,
  the sorted lookup and the error reports.

  The reader is threaded through the operations. \<open>json\<close> is the text up to its terminating NUL,
  \<open>printed\<close> holds the lines handed to \<open>err_print()\<close>, and a flag stands for the handler
  being set. A \<open>char *\<close> argument that may be NULL is an option; where the code stores bytes at
  increasing positions of a buffer the model appends them, and separate lemmas bound their number
  by the size of the buffer. The argument of the conversion to \<open>double\<close> stands for the
  \<open>double\<close>.
\<close>

section \<open>Data\<close>

record ujson_reader =
  json :: string
  len :: nat
  off :: nat
  sub_off :: nat
  depth :: int
  max_depth :: int
  strict :: bool
  err_print :: bool
  err :: string
  printed :: "string list"

definition UJSON_READER_INIT :: "string \<Rightarrow> nat \<Rightarrow> bool \<Rightarrow> ujson_reader" where
  "UJSON_READER_INIT text text_len rflags =
     \<lparr>json = text, len = text_len, off = 0, sub_off = 0, depth = 0, max_depth = int UJSON_RECURSION_MAX,
      strict = rflags, err_print = True, err = [], printed = []\<rparr>"

text \<open>The member of the union written last, and the source of \<open>val_float\<close>.\<close>

datatype ujson_union = Val_none | Val_bool int | Val_int int | Val_str "string option"

datatype ujson_double = Double_zero | Double_of_long int | Double_strtod string

record ujson_val =
  vtype :: ujson_type
  vbuf :: "string option"
  buf_size :: nat
  idx :: "nat option"
  val_u :: ujson_union
  val_float :: ujson_double
  val_id :: string

definition UJSON_VAL_INIT :: "string option \<Rightarrow> nat \<Rightarrow> ujson_val" where
  "UJSON_VAL_INIT sbuf sbuf_size =
     \<lparr>vtype = UJSON_VOID, vbuf = sbuf, buf_size = sbuf_size, idx = Some 0, val_u = Val_none,
      val_float = Double_zero, val_id = []\<rparr>"

text \<open>A value initialised by \<open>{}\<close>: no buffer for strings.\<close>

definition val_zero :: ujson_val where
  "val_zero = UJSON_VAL_INIT None 0"

definition ujson_val_alloc :: "bool \<Rightarrow> nat \<Rightarrow> ujson_val option" where
  "ujson_val_alloc malloc_ok bsize =
     (let bsize = (if bsize = 0 then 4096 else bsize) in
      if malloc_ok then Some (UJSON_VAL_INIT (Some []) bsize) else None)"

definition ujson_val_valid :: "ujson_val \<Rightarrow> bool" where
  "ujson_val_valid res \<longleftrightarrow> vtype res \<noteq> UJSON_VOID"

definition ujson_reader_err :: "ujson_reader \<Rightarrow> bool" where
  "ujson_reader_err buf \<longleftrightarrow> err buf \<noteq> []"

definition ujson_err :: "ujson_reader \<Rightarrow> string \<Rightarrow> ujson_reader" where
  "ujson_err buf msg = buf\<lparr>err := vsnprintf UJSON_ERR_MAX msg\<rparr>"

section \<open>Cursor\<close>

definition buf_empty :: "ujson_reader \<Rightarrow> bool" where
  "buf_empty buf \<longleftrightarrow> off buf \<ge> len buf"

definition is_ws :: "char \<Rightarrow> bool" where
  "is_ws c \<longleftrightarrow> c = CHR '' '' \<or> c = CHR 0x09 \<or> c = CHR 0x0A \<or> c = CHR 0x0D"

text \<open>What is left to read.\<close>

definition left_bytes :: "ujson_reader \<Rightarrow> nat" where
  "left_bytes buf = len buf - off buf"

function eatws_loop :: "ujson_reader \<Rightarrow> ujson_reader" where
  "eatws_loop buf =
     (if \<not> buf_empty buf \<and> is_ws (json buf ! off buf)
      then eatws_loop (buf\<lparr>off := off buf + 1\<rparr>)
      else buf)"
  by pat_completeness auto
termination
  by (relation "measure left_bytes") (auto simp: left_bytes_def buf_empty_def)

declare eatws_loop.simps [simp del]

definition eatws :: "ujson_reader \<Rightarrow> bool \<times> ujson_reader" where
  "eatws buf = (let buf = eatws_loop buf in (buf_empty buf, buf))"

definition getb :: "ujson_reader \<Rightarrow> char \<times> ujson_reader" where
  "getb buf = (if buf_empty buf then (NUL, buf) else (json buf ! off buf, buf\<lparr>off := off buf + 1\<rparr>))"

definition peekb_off :: "ujson_reader \<Rightarrow> nat \<Rightarrow> char" where
  "peekb_off buf i = (if off buf + i \<ge> len buf then NUL else json buf ! (off buf + i))"

definition peekb :: "ujson_reader \<Rightarrow> char" where
  "peekb buf = (if buf_empty buf then NUL else json buf ! off buf)"

definition eatb :: "ujson_reader \<Rightarrow> char \<Rightarrow> bool \<times> ujson_reader" where
  "eatb buf ch = (if peekb buf \<noteq> ch then (False, buf) else (True, snd (getb buf)))"

definition eatb2 :: "ujson_reader \<Rightarrow> char \<Rightarrow> char \<Rightarrow> bool \<times> ujson_reader" where
  "eatb2 buf ch1 ch2 =
     (if peekb buf \<noteq> ch1 \<and> peekb buf \<noteq> ch2 then (False, buf) else (True, snd (getb buf)))"

fun eatstr :: "ujson_reader \<Rightarrow> string \<Rightarrow> bool \<times> ujson_reader" where
  "eatstr buf [] = (True, buf)"
| "eatstr buf (c # str) =
     (let (ok, buf) = eatb buf c in
      if \<not> ok then (False, buf) else eatstr buf str)"

section \<open>Strings\<close>

definition hex2val :: "char \<Rightarrow> int" where
  "hex2val b =
     (if char_between (CHR ''0'') (CHR ''9'') b then of_char b - 48
      else if char_between (CHR ''a'') (CHR ''f'') b then of_char b - 97 + 10
      else if char_between (CHR ''A'') (CHR ''F'') b then of_char b - 65 + 10
      else -1)"

fun ucode_loop :: "nat \<Rightarrow> int \<Rightarrow> ujson_reader \<Rightarrow> int \<times> ujson_reader" where
  "ucode_loop 0 ret buf = (ret, buf)"
| "ucode_loop (Suc i) ret buf =
     (let (b, buf) = getb buf; v = hex2val b in
      if v < 0 then (-1, ujson_err buf ''Expected four hexadecimal digits'')
      else ucode_loop i (ret * 16 + v) buf)"

definition parse_ucode_cp :: "ujson_reader \<Rightarrow> int \<times> ujson_reader" where
  "parse_ucode_cp buf = ucode_loop 4 0 buf"

text \<open>\<open>str\<close> holds the bytes stored so far: its length is \<open>off\<close>.\<close>

definition parse_ucode_esc :: "ujson_reader \<Rightarrow> string option \<Rightarrow> nat \<Rightarrow> nat \<times> string option \<times> ujson_reader" where
  "parse_ucode_esc buf str n =
     (let (ucode, buf) = parse_ucode_cp buf in
      if ucode < 0 then (0, str, buf)
      else case str of
        None \<Rightarrow> (nat ucode, None, buf)
      | Some s \<Rightarrow>
          if ujson_utf8_bytes (of_int ucode) + 1 \<ge> n - length s
          then (0, str, ujson_err buf ''String buffer too short!'')
          else (ujson_utf8_bytes (of_int ucode), Some (s @ ujson_to_utf8 (of_int ucode)), buf))"

text \<open>The characters a backslash may quote, \<open>u\<close> apart.\<close>

definition unescape :: "char \<Rightarrow> char option" where
  "unescape b =
     (if b = CHR 0x22 \<or> b = CHR 0x5C \<or> b = CHR ''/'' then Some b
      else if b = CHR ''b'' then Some (CHR 0x08)
      else if b = CHR ''f'' then Some (CHR 0x0C)
      else if b = CHR ''n'' then Some (CHR 0x0A)
      else if b = CHR ''r'' then Some (CHR 0x0D)
      else if b = CHR ''t'' then Some (CHR 0x09)
      else None)"

text \<open>\<open>str[pos++] = b\<close>, unless \<open>str\<close> is NULL; \<open>None\<close> when there is no room.\<close>

definition store_char :: "string option \<Rightarrow> nat \<Rightarrow> char \<Rightarrow> string option option" where
  "store_char str n b =
     (case str of
        None \<Rightarrow> Some None
      | Some s \<Rightarrow> if length s + 1 \<ge> n then None else Some (Some (s @ [b])))"

definition hex_digit :: "nat \<Rightarrow> char" where
  "hex_digit d = ''0123456789abcdef'' ! d"

definition hex2 :: "char \<Rightarrow> string" where
  "hex2 b = [hex_digit (of_char b div 16), hex_digit (of_char b mod 16)]"

lemma getb_left: "left_bytes (snd (getb buf)) \<le> left_bytes buf"
  "\<not> buf_empty buf \<Longrightarrow> left_bytes (snd (getb buf)) < left_bytes buf"
  by (auto simp: getb_def left_bytes_def buf_empty_def)

lemma eatb_left: "left_bytes (snd (eatb buf c)) \<le> left_bytes buf"
  by (simp add: eatb_def getb_left)

lemma err_left [simp]: "left_bytes (ujson_err buf msg) = left_bytes buf"
  by (simp add: left_bytes_def ujson_err_def)

lemma ucode_loop_left: "left_bytes (snd (ucode_loop n ret buf)) \<le> left_bytes buf"
proof (induction n arbitrary: ret buf)
  case (Suc n)
  obtain b buf' where g: "getb buf = (b, buf')" by fastforce
  then have "left_bytes buf' \<le> left_bytes buf" using getb_left(1) [of buf] by simp
  then show ?case using Suc [of "ret * 16 + hex2val b" buf'] by (simp add: g Let_def)
qed simp

lemma ucode_esc_left: "parse_ucode_esc buf str n = (l, str', buf') \<Longrightarrow> left_bytes buf' \<le> left_bytes buf"
  using ucode_loop_left [of 4 0 buf]
  by (auto simp: parse_ucode_esc_def parse_ucode_cp_def Let_def split: prod.splits if_splits option.splits)

function copy_loop :: "ujson_reader \<Rightarrow> string option \<Rightarrow> nat \<Rightarrow> bool \<Rightarrow> bool \<times> string option \<times> ujson_reader" where
  "copy_loop buf str n esc =
     (if buf_empty buf then (True, str, ujson_err buf ''Unterminated string'')
      else if \<not> esc \<and> peekb buf = CHR 0x22 then (False, str, snd (getb buf))
      else
        let b = fst (getb buf); buf' = snd (getb buf) in
        if of_char b < (0x20 :: nat) then
          (True, str,
           if peekb buf' = NUL then ujson_err buf' ''Unterminated string''
           else ujson_err buf' (''Invalid string character 0x'' @ hex2 b))
        else if \<not> esc \<and> b = CHR 0x5C then copy_loop buf' str n True
        else if esc \<and> b = CHR ''u'' then
          (case parse_ucode_esc buf' str n of
             (l, str', buf'') \<Rightarrow> if l = 0 then (True, str', buf'') else copy_loop buf'' str' n False)
        else
          (case (if esc then unescape b else Some b) of
             None \<Rightarrow> (True, str, ujson_err buf' (''Invalid escape '' @ [CHR 0x5C, b]))
           | Some b \<Rightarrow>
               (case store_char str n b of
                  None \<Rightarrow> (True, str, ujson_err buf' ''String buffer too short!'')
                | Some str' \<Rightarrow> copy_loop buf' str' n False)))"
  by pat_completeness auto
termination
  by (relation "measure (\<lambda>(buf, str, n, esc). left_bytes buf)")
    (auto dest!: ucode_esc_left [OF sym] simp: getb_left(2) intro: le_less_trans)

declare copy_loop.simps [simp del]

definition copy_str :: "ujson_reader \<Rightarrow> string option \<Rightarrow> nat \<Rightarrow> bool \<times> string option \<times> ujson_reader" where
  "copy_str buf str n =
     copy_loop (snd (eatb buf (CHR 0x22))) (map_option (\<lambda>_. []) str) n False"

text \<open>A text between single quotes.\<close>

definition quoted :: "string \<Rightarrow> string" where
  "quoted s = [CHR 0x27] @ s @ [CHR 0x27]"

text \<open>The characters up to the closing quote of an ID: \<open>Inl\<close> an error message.\<close>

function id_loop :: "ujson_reader \<Rightarrow> string \<Rightarrow> nat \<Rightarrow> (string + string) \<times> ujson_reader" where
  "id_loop buf str n =
     (if buf_empty buf then (Inl ''Unterminated ID string'', buf)
      else if peekb buf = CHR 0x22 then (Inr str, snd (getb buf))
      else if length str \<ge> n - 1 then (Inl ''ID string too long'', buf)
      else id_loop (snd (getb buf)) (str @ [fst (getb buf)]) n)"
  by pat_completeness auto
termination
  by (relation "measure (\<lambda>(buf, str, n). left_bytes buf)") (auto simp: getb_left(2))

declare id_loop.simps [simp del]

text \<open>The stored ID is returned when its closing quote was found.\<close>

definition copy_id_str :: "ujson_reader \<Rightarrow> nat \<Rightarrow> bool \<times> string option \<times> ujson_reader" where
  "copy_id_str buf n =
     (let (e, buf) = eatws buf in
      if e then (True, None, ujson_err buf ''Expected ID string'') else
      let (q, buf) = eatb buf (CHR 0x22) in
      if \<not> q then (True, None, ujson_err buf ''Expected ID string'') else
      case id_loop buf [] n of
        (Inl msg, buf) \<Rightarrow> (True, None, ujson_err buf msg)
      | (Inr str, buf) \<Rightarrow>
          let (e, buf) = eatws buf in
          if e then (True, Some str, ujson_err buf (''Expected '' @ quoted '':'' @ '' after ID string'')) else
          let (c, buf) = eatb buf (CHR '':'') in
          if \<not> c then (True, Some str, ujson_err buf (''Expected '' @ quoted '':'' @ '' after ID string''))
          else (False, Some str, buf))"

section \<open>Numbers and literals\<close>

lemma digit_left: "isdigit (peekb buf) \<Longrightarrow> left_bytes (snd (getb buf)) < left_bytes buf"
  by (rule getb_left(2)) (auto simp: peekb_def isdigit_def char_between_def)

function int_digits :: "ujson_reader \<Rightarrow> int \<Rightarrow> int \<times> ujson_reader" where
  "int_digits buf v =
     (if isdigit (peekb buf)
      then int_digits (snd (getb buf)) (c_long (c_long (v * 10) + digit_val (fst (getb buf))))
      else (v, buf))"
  by pat_completeness auto
termination
  by (relation "measure (\<lambda>(buf, v). left_bytes buf)") (auto simp: digit_left)

declare int_digits.simps [simp del]

definition get_int :: "ujson_reader \<Rightarrow> ujson_val \<Rightarrow> bool \<times> ujson_val \<times> ujson_reader" where
  "get_int buf res =
     (let (neg, buf) = eatb buf (CHR ''-'') in
      if neg \<and> \<not> isdigit (peekb buf) then (True, res, ujson_err buf ''Expected digit(s)'')
      else if peekb buf = CHR ''0'' \<and> isdigit (peekb_off buf 1)
      then (True, res, ujson_err buf ''Leading zero in number!'')
      else
        let (v, buf) = int_digits buf 0; v = (if neg then c_long (- v) else v) in
        (False, res\<lparr>val_u := Val_int v, val_float := Double_of_long v\<rparr>, buf))"

function skip_digits :: "ujson_reader \<Rightarrow> ujson_reader" where
  "skip_digits buf = (if isdigit (peekb buf) then skip_digits (snd (getb buf)) else buf)"
  by pat_completeness auto
termination
  by (relation "measure left_bytes") (auto simp: digit_left)

declare skip_digits.simps [simp del]

definition eat_digits :: "ujson_reader \<Rightarrow> bool \<times> ujson_reader" where
  "eat_digits buf =
     (if \<not> isdigit (peekb buf) then (True, ujson_err buf ''Expected digit(s)'')
      else (False, skip_digits buf))"

text \<open>The part behind \<open>e\<close> or \<open>E\<close>, and the switch over the character behind the digits.\<close>

definition get_exponent :: "ujson_reader \<Rightarrow> bool \<times> ujson_reader" where
  "get_exponent buf = eat_digits (snd (eatb2 buf (CHR ''+'') (CHR ''-'')))"

definition get_fraction :: "ujson_reader \<Rightarrow> bool \<times> ujson_reader" where
  "get_fraction buf =
     (let (b, buf) = getb buf in
      if b = CHR ''.'' then
        let (e, buf) = eat_digits buf in
        if e then (True, buf) else
        let (ex, buf) = eatb2 buf (CHR ''e'') (CHR ''E'') in
        if \<not> ex then (False, buf) else get_exponent buf
      else if b = CHR ''e'' \<or> b = CHR ''E'' then get_exponent buf
      else (False, buf))"

definition get_float :: "ujson_reader \<Rightarrow> ujson_val \<Rightarrow> bool \<times> ujson_val \<times> ujson_reader" where
  "get_float buf res =
     (let start = off buf; buf = snd (eatb buf (CHR ''-'')) in
      if peekb buf = CHR ''0'' \<and> isdigit (peekb_off buf 1)
      then (True, res, ujson_err buf ''Leading zero in float'') else
      let (e, buf) = eat_digits buf in
      if e then (True, res, buf) else
      let (e, buf) = get_fraction buf in
      if e then (True, res, buf)
      else (False, res\<lparr>val_float := Double_strtod (take (off buf - start) (drop start (json buf)))\<rparr>, buf))"

definition get_bool :: "ujson_reader \<Rightarrow> ujson_val \<Rightarrow> bool \<times> ujson_val \<times> ujson_reader" where
  "get_bool buf res =
     (if peekb buf = CHR ''f'' then
        let (ok, buf) = eatstr buf ''false'' in
        if \<not> ok then (True, res, ujson_err buf (''Expected '' @ quoted ''false''))
        else (False, res\<lparr>val_u := Val_bool 0\<rparr>, buf)
      else if peekb buf = CHR ''t'' then
        let (ok, buf) = eatstr buf ''true'' in
        if \<not> ok then (True, res, ujson_err buf (''Expected '' @ quoted ''true''))
        else (False, res\<lparr>val_u := Val_bool 1\<rparr>, buf)
      else (False, res, buf))"

definition get_null :: "ujson_reader \<Rightarrow> bool \<times> ujson_reader" where
  "get_null buf =
     (let (ok, buf) = eatstr buf ''null'' in
      if \<not> ok then (True, ujson_err buf (''Expected '' @ quoted ''null'')) else (False, buf))"

section \<open>Values\<close>

function num_type_loop :: "ujson_reader \<Rightarrow> nat \<Rightarrow> ujson_type" where
  "num_type_loop buf i =
     (let b = peekb_off buf i in
      if b = NUL \<or> b = CHR '','' then UJSON_INT
      else if b = CHR ''.'' \<or> b = CHR ''e'' \<or> b = CHR ''E'' then UJSON_FLOAT
      else num_type_loop buf (i + 1))"
  by pat_completeness auto
termination
  by (relation "measure (\<lambda>(buf, i). len buf - (off buf + i))") (auto simp: peekb_off_def split: if_splits)

declare num_type_loop.simps [simp del]

definition next_num_type :: "ujson_reader \<Rightarrow> ujson_type" where
  "next_num_type buf = num_type_loop buf 0"

definition ujson_next_type :: "ujson_reader \<Rightarrow> ujson_type \<times> ujson_reader" where
  "ujson_next_type buf =
     (let (e, buf) = eatws buf in
      if e then (UJSON_VOID, ujson_err buf ''Unexpected end'') else
      let b = peekb buf in
      if b = CHR ''{'' then (UJSON_OBJ, buf)
      else if b = CHR ''['' then (UJSON_ARR, buf)
      else if b = CHR 0x22 then (UJSON_STR, buf)
      else if b = CHR ''-'' \<or> isdigit b then (next_num_type buf, buf)
      else if b = CHR ''f'' \<or> b = CHR ''t'' then (UJSON_BOOL, buf)
      else if b = CHR ''n'' then (UJSON_NULL, buf)
      else (UJSON_VOID, ujson_err buf ''Expected object, array, number or string''))"

definition ujson_reader_start :: "ujson_reader \<Rightarrow> ujson_type \<times> ujson_reader" where
  "ujson_reader_start buf =
     (let (t, buf) = ujson_next_type buf in
      if t = UJSON_ARR \<or> t = UJSON_OBJ \<or> t = UJSON_VOID then (t, buf)
      else (UJSON_VOID, ujson_err buf ''JSON can start only with array or object''))"

text \<open>The error branch behind the switch.\<close>

definition value_done :: "bool \<times> ujson_val \<times> ujson_reader \<Rightarrow> bool \<times> ujson_val \<times> ujson_reader" where
  "value_done r =
     (case r of (e, res, buf) \<Rightarrow>
        if e then (False, res\<lparr>vtype := UJSON_VOID\<rparr>, buf) else (True, res, buf))"

definition get_value :: "ujson_reader \<Rightarrow> ujson_val \<Rightarrow> bool \<times> ujson_val \<times> ujson_reader" where
  "get_value buf res =
     (let (t, buf) = ujson_next_type buf; res = res\<lparr>vtype := t\<rparr> in
      case t of
        UJSON_STR \<Rightarrow>
          (let (e, str, buf) = copy_str buf (vbuf res) (buf_size res); res = res\<lparr>vbuf := str\<rparr> in
           if e then (False, res\<lparr>vtype := UJSON_VOID\<rparr>, buf)
           else (True, res\<lparr>val_u := Val_str str\<rparr>, buf))
      | UJSON_INT \<Rightarrow> value_done (get_int buf res)
      | UJSON_FLOAT \<Rightarrow> value_done (get_float buf res)
      | UJSON_BOOL \<Rightarrow> value_done (get_bool buf res)
      | UJSON_NULL \<Rightarrow> (let (e, buf) = get_null buf in value_done (e, res, buf))
      | UJSON_VOID \<Rightarrow> (False, res, buf)
      | UJSON_ARR \<Rightarrow> (True, res, buf\<lparr>sub_off := off buf\<rparr>)
      | UJSON_OBJ \<Rightarrow> (True, res, buf\<lparr>sub_off := off buf\<rparr>))"

section \<open>Iteration over arrays and objects\<close>

text \<open>The checks return true to stop, and the value and the reader.\<close>

definition pre_next :: "ujson_reader \<Rightarrow> ujson_val \<Rightarrow> bool \<times> ujson_val \<times> ujson_reader" where
  "pre_next buf res =
     (let (c, buf) = eatb buf (CHR '','') in
      if \<not> c then (True, res\<lparr>vtype := UJSON_VOID\<rparr>, ujson_err buf (''Expected '' @ quoted '','')) else
      let (e, buf) = eatws buf in
      if e then (True, res\<lparr>vtype := UJSON_VOID\<rparr>, ujson_err buf ''Unexpected end'')
      else (False, res, buf))"

definition check_end :: "ujson_reader \<Rightarrow> ujson_val \<Rightarrow> char \<Rightarrow> bool \<times> ujson_val \<times> ujson_reader" where
  "check_end buf res b =
     (let (e, buf) = eatws buf in
      if e then (True, res, ujson_err buf ''Unexpected end'') else
      let (q, buf) = eatb buf b in
      if q then
        let buf = snd (eatws buf); buf = snd (eatb buf NUL) in
        (True, res\<lparr>vtype := UJSON_VOID\<rparr>, buf\<lparr>depth := c_uint (depth buf - 1)\<rparr>)
      else (False, res, buf))"

definition check_err :: "ujson_reader \<Rightarrow> ujson_val \<Rightarrow> bool \<times> ujson_val" where
  "check_err buf res =
     (if ujson_reader_err buf then (True, res\<lparr>vtype := UJSON_VOID\<rparr>) else (False, res))"

definition any_first :: "ujson_reader \<Rightarrow> char \<Rightarrow> bool \<times> ujson_reader" where
  "any_first buf b =
     (let (e, buf) = eatws buf in
      if e then (True, ujson_err buf ''Unexpected end'') else
      let (q, buf) = eatb buf b in
      if \<not> q then (True, ujson_err buf (''Expected '' @ quoted [b])) else
      let buf = buf\<lparr>depth := c_uint (depth buf + 1)\<rparr> in
      if depth buf > max_depth buf then (True, ujson_err buf ''Recursion too deep'')
      else (False, buf))"

definition obj_next :: "ujson_reader \<Rightarrow> ujson_val \<Rightarrow> bool \<times> ujson_val \<times> ujson_reader" where
  "obj_next buf res =
     (case copy_id_str buf UJSON_ID_MAX of
        (e, s, buf) \<Rightarrow>
          let res = (case s of None \<Rightarrow> res | Some s \<Rightarrow> res\<lparr>val_id := s\<rparr>) in
          if e then (False, res, buf) else get_value buf res)"

definition obj_pre_next :: "ujson_reader \<Rightarrow> ujson_val \<Rightarrow> bool \<times> ujson_val \<times> ujson_reader" where
  "obj_pre_next buf res =
     (if ujson_reader_err buf then (True, res, buf) else
      let (e, res, buf) = check_end buf res (CHR ''}'') in
      if e then (True, res, buf) else pre_next buf res)"

definition ujson_obj_first :: "ujson_reader \<Rightarrow> ujson_val \<Rightarrow> bool \<times> ujson_val \<times> ujson_reader" where
  "ujson_obj_first buf res =
     (let (e, res) = check_err buf res in
      if e then (False, res, buf) else
      let (e, buf) = any_first buf (CHR ''{'') in
      if e then (False, res, buf) else
      let (e, res, buf) = check_end buf res (CHR ''}'') in
      if e then (False, res, buf) else obj_next buf res)"

definition ujson_obj_next :: "ujson_reader \<Rightarrow> ujson_val \<Rightarrow> bool \<times> ujson_val \<times> ujson_reader" where
  "ujson_obj_next buf res =
     (let (e, res) = check_err buf res in
      if e then (False, res, buf) else
      let (e, res, buf) = obj_pre_next buf res in
      if e then (False, res, buf) else obj_next buf res)"

definition arr_next :: "ujson_reader \<Rightarrow> ujson_val \<Rightarrow> bool \<times> ujson_val \<times> ujson_reader" where
  "arr_next buf res = get_value buf res"

definition ujson_arr_first :: "ujson_reader \<Rightarrow> ujson_val \<Rightarrow> bool \<times> ujson_val \<times> ujson_reader" where
  "ujson_arr_first buf res =
     (let (e, res) = check_err buf res in
      if e then (False, res, buf) else
      let (e, buf) = any_first buf (CHR ''['') in
      if e then (False, res, buf) else
      let (e, res, buf) = check_end buf res (CHR '']'') in
      if e then (False, res, buf) else arr_next buf res)"

definition ujson_arr_next :: "ujson_reader \<Rightarrow> ujson_val \<Rightarrow> bool \<times> ujson_val \<times> ujson_reader" where
  "ujson_arr_next buf res =
     (let (e, res) = check_err buf res in
      if e then (False, res, buf) else
      let (e, res, buf) = check_end buf res (CHR '']'') in
      if e then (False, res, buf) else
      let (e, res, buf) = pre_next buf res in
      if e then (False, res, buf) else arr_next buf res)"

section \<open>Moving forward\<close>

text \<open>Every operation leaves the text alone and moves the cursor forward, inside the text.\<close>

definition advances :: "ujson_reader \<Rightarrow> ujson_reader \<Rightarrow> bool" where
  "advances buf buf' \<longleftrightarrow>
     json buf' = json buf \<and> len buf' = len buf \<and> max_depth buf' = max_depth buf \<and> strict buf' = strict buf
     \<and> off buf \<le> off buf' \<and> (off buf \<le> len buf \<longrightarrow> off buf' \<le> len buf)"

named_theorems adv_dests \<open>the operations of the reader move forward\<close>

lemma advances_refl [simp]: "advances buf buf"
  by (simp add: advances_def)

lemma advances_trans [trans]: "advances a b \<Longrightarrow> advances b c \<Longrightarrow> advances a c"
  by (auto simp: advances_def)

lemma advances_left: "advances a b \<Longrightarrow> left_bytes b \<le> left_bytes a"
  by (auto simp: advances_def left_bytes_def)

lemma advances_upd [simp]:
  "advances a (b\<lparr>depth := d\<rparr>) = advances a b"
  "advances a (b\<lparr>sub_off := s\<rparr>) = advances a b"
  "advances a (ujson_err b msg) = advances a b"
  "advances (b\<lparr>depth := d\<rparr>) c = advances b c"
  by (auto simp: advances_def ujson_err_def)

lemma advances_getb [intro!]: "advances a b \<Longrightarrow> advances a (snd (getb b))"
  by (auto simp: advances_def getb_def buf_empty_def)

lemma advances_getb_trans [adv_dests]: "advances (snd (getb b)) d \<Longrightarrow> advances b d"
  by (rule advances_trans [OF advances_getb [OF advances_refl]])

lemma advances_getb_eq [adv_dests]: "getb b = (c, b') \<Longrightarrow> advances b b'"
  using advances_getb [of b b] by simp

lemma advances_eatws_loop: "advances buf (eatws_loop buf)"
proof (induction buf rule: eatws_loop.induct)
  case (1 buf)
  then show ?case
    by (subst eatws_loop.simps) (auto, auto simp: advances_def buf_empty_def)
qed

lemma advances_eatws [adv_dests]: "eatws b = (e, b') \<Longrightarrow> advances b b'"
  using advances_eatws_loop [of b] by (auto simp: eatws_def Let_def)

lemma advances_snd_eatws [intro!]: "advances a b \<Longrightarrow> advances a (snd (eatws b))"
  using advances_eatws [of b] advances_trans by (cases "eatws b") auto

lemma advances_snd_eatb [intro!]: "advances a b \<Longrightarrow> advances a (snd (eatb b c))"
  by (auto simp: eatb_def)

lemma advances_eatb [adv_dests]: "eatb b c = (e, b') \<Longrightarrow> advances b b'"
  using advances_snd_eatb [of b b c] by simp

lemma advances_eatb_trans [adv_dests]: "advances (snd (eatb b c)) d \<Longrightarrow> advances b d"
  by (rule advances_trans [OF advances_snd_eatb [OF advances_refl]])

lemma advances_snd_eatb2 [intro!]: "advances a b \<Longrightarrow> advances a (snd (eatb2 b c d))"
  by (auto simp: eatb2_def)

lemma advances_eatb2 [adv_dests]: "eatb2 b c d = (e, b') \<Longrightarrow> advances b b'"
  using advances_snd_eatb2 [of b b c d] by simp

lemma advances_eatb2_trans [adv_dests]: "advances (snd (eatb2 b c c')) d \<Longrightarrow> advances b d"
  by (rule advances_trans [OF advances_snd_eatb2 [OF advances_refl]])

lemma advances_eatstr [adv_dests]: "eatstr b s = (e, b') \<Longrightarrow> advances b b'"
proof (induction s arbitrary: b)
  case (Cons c s)
  obtain ok b1 where "eatb b c = (ok, b1)" by fastforce
  with Cons.prems Cons.IH [of b1] show ?case
    by (auto dest!: adv_dests split: if_splits intro: advances_trans)
qed simp

lemma advances_ucode_loop [adv_dests]: "ucode_loop n r b = (e, b') \<Longrightarrow> advances b b'"
proof (induction n arbitrary: r b)
  case (Suc n)
  obtain c b1 where "getb b = (c, b1)" by fastforce
  with Suc.prems Suc.IH [of "r * 16 + hex2val c" b1] show ?case
    by (auto simp: Let_def dest!: adv_dests split: if_splits intro: advances_trans)
qed simp

lemma advances_ucode_esc [adv_dests]: "parse_ucode_esc b str n = (l, str', b') \<Longrightarrow> advances b b'"
  by (auto simp: parse_ucode_esc_def parse_ucode_cp_def Let_def dest!: adv_dests split: prod.splits if_splits option.splits)

lemma advances_copy_loop [adv_dests]: "copy_loop b str n esc = (e, str', b') \<Longrightarrow> advances b b'"
proof (induction b str n esc rule: copy_loop.induct)
  case (1 b str n esc)
  obtain l s1 b1 where p: "parse_ucode_esc (snd (getb b)) str n = (l, s1, b1)"
    by (metis prod_cases3)
  then have "advances b b1" by (auto dest!: adv_dests)
  then have "advances b1 b' \<Longrightarrow> advances b b'" by (rule advances_trans)
  with 1(4) show ?case
    by (subst (asm) copy_loop.simps)
      (auto simp: Let_def p split: if_split_asm option.splits
        dest: 1(1) [OF _ _ refl refl] 1(2) [OF _ _ refl refl _ _ _ p [symmetric] refl] 1(3) [OF _ _ refl refl]
        dest!: advances_getb_trans)
qed

lemma advances_copy_str [adv_dests]: "copy_str b str n = (e, str', b') \<Longrightarrow> advances b b'"
  by (auto simp: copy_str_def dest!: adv_dests)

lemma advances_id_loop [adv_dests]: "id_loop b str n = (r, b') \<Longrightarrow> advances b b'"
proof (induction b str n rule: id_loop.induct)
  case (1 b str n)
  have g: "advances b (snd (getb b))" by auto
  from 1 show ?case
    by (subst (asm) (2) id_loop.simps) (auto split: if_split_asm intro: advances_trans [OF g])
qed

lemma advances_int_digits [adv_dests]: "int_digits b v = (v', b') \<Longrightarrow> advances b b'"
proof (induction b v rule: int_digits.induct)
  case (1 b v)
  have g: "advances b (snd (getb b))" by auto
  from 1 show ?case
    by (subst (asm) (2) int_digits.simps) (auto split: if_split_asm intro: advances_trans [OF g])
qed

lemma advances_skip_digits [intro!]: "advances a b \<Longrightarrow> advances a (skip_digits b)"
proof (induction b rule: skip_digits.induct)
  case (1 b)
  then show ?case by (subst skip_digits.simps) auto
qed

lemma advances_eat_digits [adv_dests]: "eat_digits b = (e, b') \<Longrightarrow> advances b b'"
  by (auto simp: eat_digits_def split: if_split_asm)

lemma advances_get_exponent [adv_dests]: "get_exponent b = (e, b') \<Longrightarrow> advances b b'"
  by (auto simp: get_exponent_def dest!: adv_dests)

lemma advances_get_fraction [adv_dests]: "get_fraction b = (e, b') \<Longrightarrow> advances b b'"
  by (auto simp: get_fraction_def Let_def simp del: eatstr.simps split: prod.splits if_split_asm sum.splits ujson_type.splits
      dest!: adv_dests; simp add: advances_def)

lemma advances_copy_id_str [adv_dests]: "copy_id_str b n = (e, s, b') \<Longrightarrow> advances b b'"
  by (auto simp: copy_id_str_def Let_def simp del: eatstr.simps split: prod.splits if_split_asm sum.splits ujson_type.splits
      dest!: adv_dests; simp add: advances_def)

lemma advances_get_int [adv_dests]: "get_int b res = (e, res', b') \<Longrightarrow> advances b b'"
  by (auto simp: get_int_def Let_def simp del: eatstr.simps split: prod.splits if_split_asm sum.splits ujson_type.splits
      dest!: adv_dests; simp add: advances_def)

lemma advances_get_float [adv_dests]: "get_float b res = (e, res', b') \<Longrightarrow> advances b b'"
  by (auto simp: get_float_def Let_def simp del: eatstr.simps split: prod.splits if_split_asm sum.splits ujson_type.splits
      dest!: adv_dests; simp add: advances_def)

lemma advances_get_bool [adv_dests]: "get_bool b res = (e, res', b') \<Longrightarrow> advances b b'"
  by (auto simp: get_bool_def Let_def simp del: eatstr.simps split: prod.splits if_split_asm sum.splits ujson_type.splits
      dest!: adv_dests; simp add: advances_def)

lemma advances_get_null [adv_dests]: "get_null b = (e, b') \<Longrightarrow> advances b b'"
  by (auto simp: get_null_def Let_def simp del: eatstr.simps split: prod.splits if_split_asm sum.splits ujson_type.splits
      dest!: adv_dests; simp add: advances_def)

lemma advances_next_type [adv_dests]: "ujson_next_type b = (t, b') \<Longrightarrow> advances b b'"
  by (auto simp: ujson_next_type_def Let_def simp del: eatstr.simps split: prod.splits if_split_asm sum.splits ujson_type.splits
      dest!: adv_dests; simp add: advances_def)

lemma advances_get_value [adv_dests]: "get_value b res = (r, res', b') \<Longrightarrow> advances b b'"
  by (auto simp: get_value_def value_done_def Let_def simp del: eatstr.simps split: prod.splits if_split_asm sum.splits ujson_type.splits
      dest!: adv_dests; simp add: advances_def)

lemma advances_pre_next [adv_dests]: "pre_next b res = (r, res', b') \<Longrightarrow> advances b b'"
  by (auto simp: pre_next_def Let_def simp del: eatstr.simps split: prod.splits if_split_asm sum.splits ujson_type.splits
      dest!: adv_dests; simp add: advances_def)

lemma advances_check_end [adv_dests]: "check_end b res c = (r, res', b') \<Longrightarrow> advances b b'"
  by (auto simp: check_end_def Let_def simp del: eatstr.simps split: prod.splits if_split_asm sum.splits ujson_type.splits
      dest!: adv_dests; simp add: advances_def)

lemma advances_any_first [adv_dests]: "any_first b c = (r, b') \<Longrightarrow> advances b b'"
  by (auto simp: any_first_def Let_def simp del: eatstr.simps split: prod.splits if_split_asm sum.splits ujson_type.splits
      dest!: adv_dests; simp add: advances_def)

lemma advances_obj_next [adv_dests]: "obj_next b res = (r, res', b') \<Longrightarrow> advances b b'"
  by (auto simp: obj_next_def Let_def simp del: eatstr.simps split: prod.splits if_split_asm sum.splits ujson_type.splits
      dest!: adv_dests; simp add: advances_def)

lemma advances_obj_pre_next [adv_dests]: "obj_pre_next b res = (r, res', b') \<Longrightarrow> advances b b'"
  by (auto simp: obj_pre_next_def Let_def simp del: eatstr.simps split: prod.splits if_split_asm sum.splits ujson_type.splits
      dest!: adv_dests; simp add: advances_def)

lemma advances_obj_first [adv_dests]: "ujson_obj_first b res = (r, res', b') \<Longrightarrow> advances b b'"
  by (auto simp: ujson_obj_first_def check_err_def Let_def simp del: eatstr.simps split: prod.splits if_split_asm sum.splits ujson_type.splits
      dest!: adv_dests; simp add: advances_def)

lemma advances_ujson_obj_next [adv_dests]: "ujson_obj_next b res = (r, res', b') \<Longrightarrow> advances b b'"
  by (auto simp: ujson_obj_next_def check_err_def Let_def simp del: eatstr.simps split: prod.splits if_split_asm sum.splits ujson_type.splits
      dest!: adv_dests; simp add: advances_def)

lemma advances_arr_first [adv_dests]: "ujson_arr_first b res = (r, res', b') \<Longrightarrow> advances b b'"
  by (auto simp: ujson_arr_first_def arr_next_def check_err_def Let_def simp del: eatstr.simps split: prod.splits if_split_asm sum.splits ujson_type.splits
      dest!: adv_dests; simp add: advances_def)

lemma advances_arr_next [adv_dests]: "ujson_arr_next b res = (r, res', b') \<Longrightarrow> advances b b'"
  by (auto simp: ujson_arr_next_def arr_next_def check_err_def Let_def simp del: eatstr.simps split: prod.splits if_split_asm sum.splits ujson_type.splits
      dest!: adv_dests; simp add: advances_def)

section \<open>Skipping\<close>

text \<open>The loops of \<open>UJSON_OBJ_FOREACH\<close> and \<open>UJSON_ARR_FOREACH\<close> in the skip functions,
  with fuel; \<open>None\<close> is a loop that ran out of it. The result is the returned value and the reader.\<close>

fun obj_skip_fuel :: "nat \<Rightarrow> ujson_reader \<Rightarrow> (bool \<times> ujson_reader) option"
  and arr_skip_fuel :: "nat \<Rightarrow> ujson_reader \<Rightarrow> (bool \<times> ujson_reader) option"
  and obj_skip_loop :: "nat \<Rightarrow> ujson_val \<Rightarrow> ujson_reader \<Rightarrow> (bool \<times> ujson_reader) option"
  and arr_skip_loop :: "nat \<Rightarrow> ujson_val \<Rightarrow> ujson_reader \<Rightarrow> (bool \<times> ujson_reader) option" where
  "obj_skip_fuel 0 buf = None"
| "obj_skip_fuel (Suc n) buf = (let (_, res, buf) = ujson_obj_first buf val_zero in obj_skip_loop n res buf)"
| "arr_skip_fuel 0 buf = None"
| "arr_skip_fuel (Suc n) buf = (let (_, res, buf) = ujson_arr_first buf val_zero in arr_skip_loop n res buf)"
| "obj_skip_loop 0 res buf = None"
| "obj_skip_loop (Suc n) res buf =
     (if \<not> ujson_val_valid res then Some (False, buf) else
      case (case vtype res of
              UJSON_OBJ \<Rightarrow> obj_skip_fuel n buf
            | UJSON_ARR \<Rightarrow> arr_skip_fuel n buf
            | _ \<Rightarrow> Some (False, buf)) of
        None \<Rightarrow> None
      | Some (True, buf) \<Rightarrow> Some (True, buf)
      | Some (False, buf) \<Rightarrow> (let (_, res, buf) = ujson_obj_next buf res in obj_skip_loop n res buf))"
| "arr_skip_loop 0 res buf = None"
| "arr_skip_loop (Suc n) res buf =
     (if \<not> ujson_val_valid res then Some (False, buf) else
      case (case vtype res of
              UJSON_OBJ \<Rightarrow> obj_skip_fuel n buf
            | UJSON_ARR \<Rightarrow> arr_skip_fuel n buf
            | _ \<Rightarrow> Some (False, buf)) of
        None \<Rightarrow> None
      | Some (True, buf) \<Rightarrow> Some (True, buf)
      | Some (False, buf) \<Rightarrow> (let (_, res, buf) = ujson_arr_next buf res in arr_skip_loop n res buf))"

text \<open>Two units of fuel per byte left, twice: enough by \<open>skip_total\<close> below.\<close>

definition skip_fuel :: "ujson_reader \<Rightarrow> nat" where
  "skip_fuel buf = 4 * left_bytes buf + 4"

definition ujson_obj_skip :: "ujson_reader \<Rightarrow> bool \<times> ujson_reader" where
  "ujson_obj_skip buf = the (obj_skip_fuel (skip_fuel buf) buf)"

definition ujson_arr_skip :: "ujson_reader \<Rightarrow> bool \<times> ujson_reader" where
  "ujson_arr_skip buf = the (arr_skip_fuel (skip_fuel buf) buf)"

text \<open>What a loop uses up: a byte, or the state without an error.\<close>

definition skip_measure :: "ujson_reader \<Rightarrow> nat" where
  "skip_measure buf = 2 * left_bytes buf + (if ujson_reader_err buf then 0 else 1)"

lemma skip_measureI: "left_bytes b' < left_bytes b \<Longrightarrow> skip_measure b' < skip_measure b"
  by (simp add: skip_measure_def)

lemma eatb_left_less: "eatb b c = (True, b') \<Longrightarrow> c \<noteq> NUL \<Longrightarrow> left_bytes b' < left_bytes b"
  by (auto simp: eatb_def peekb_def intro!: getb_left(2) split: if_splits)

lemma any_first_left: "any_first b c = (False, b') \<Longrightarrow> c \<noteq> NUL \<Longrightarrow> left_bytes b' < left_bytes b"
  by (auto simp: any_first_def Let_def split: prod.splits if_split_asm
      dest!: eatb_left_less advances_eatws [THEN advances_left] simp: left_bytes_def)

lemma pre_next_left: "pre_next b res = (False, res', b') \<Longrightarrow> left_bytes b' < left_bytes b"
  by (auto simp: pre_next_def Let_def split: prod.splits if_split_asm
      dest!: eatb_left_less advances_eatws [THEN advances_left])

lemma obj_first_measure:
  assumes "ujson_obj_first b val_zero = (r, res, b')" "ujson_val_valid res"
  shows "skip_measure b' < skip_measure b"
proof -
  obtain b1 where a: "any_first b (CHR ''{'') = (False, b1)" and "advances b1 b'"
    using assms
    by (auto simp: ujson_obj_first_def check_err_def val_zero_def UJSON_VAL_INIT_def ujson_val_valid_def
        dest!: adv_dests intro: advances_trans split: prod.splits if_split_asm)
  then show ?thesis
    using any_first_left [OF a] advances_left [of b1 b'] by (intro skip_measureI) simp
qed

lemma arr_first_measure:
  assumes "ujson_arr_first b val_zero = (r, res, b')" "ujson_val_valid res"
  shows "skip_measure b' < skip_measure b"
proof -
  obtain b1 where a: "any_first b (CHR ''['') = (False, b1)" and "advances b1 b'"
    using assms
    by (auto simp: ujson_arr_first_def arr_next_def check_err_def val_zero_def UJSON_VAL_INIT_def ujson_val_valid_def
        dest!: adv_dests intro: advances_trans split: prod.splits if_split_asm)
  then show ?thesis
    using any_first_left [OF a] advances_left [of b1 b'] by (intro skip_measureI) simp
qed

text \<open>\<open>check_end\<close> keeps a valid type only where it sets an error or did nothing.\<close>

lemma check_end_cases:
  assumes "check_end b res c = (e, res', b')"
  obtains "e" "\<not> ujson_val_valid res'" | "e" "ujson_reader_err b'" | "\<not> e" "res' = res"
  using assms
  by (auto simp: check_end_def ujson_val_valid_def Let_def ujson_reader_err_def ujson_err_def UJSON_ERR_MAX_def
      vsnprintf_def split: prod.splits if_split_asm)

lemma skip_measure_err:
  "advances b b' \<Longrightarrow> ujson_reader_err b' \<Longrightarrow> \<not> ujson_reader_err b \<Longrightarrow> skip_measure b' < skip_measure b"
  by (drule advances_left) (simp add: skip_measure_def)

lemma pre_next_invalid: "pre_next b res = (True, res', b') \<Longrightarrow> \<not> ujson_val_valid res'"
  by (auto simp: pre_next_def ujson_val_valid_def Let_def split: prod.splits if_split_asm)

lemma obj_next_measure:
  assumes "ujson_obj_next b res = (r, res', b')" "ujson_val_valid res'"
  shows "skip_measure b' < skip_measure b"
proof -
  have noerr: "\<not> ujson_reader_err b"
    using assms by (auto simp: ujson_obj_next_def check_err_def ujson_val_valid_def split: if_splits)
  obtain e1 res1 b1 where c: "check_end b res (CHR ''}'') = (e1, res1, b1)"
    by (metis prod_cases3)
  obtain e2 res2 b2 where p: "pre_next b1 res1 = (e2, res2, b2)"
    by (metis prod_cases3)
  note adv = advances_left [OF advances_check_end [OF c]]
  show ?thesis
  proof (cases e1)
    case True
    then have "res' = res1" "b' = b1"
      using assms noerr c by (auto simp: ujson_obj_next_def obj_pre_next_def check_err_def)
    then show ?thesis
      using True check_end_cases [OF c] assms(2) skip_measure_err [OF advances_check_end [OF c]] noerr by auto
  next
    case False
    have "\<not> e2"
      using False assms noerr c p pre_next_invalid [of b1 res1 res2 b2]
      by (auto simp: ujson_obj_next_def obj_pre_next_def check_err_def)
    moreover from this have "obj_next b2 res2 = (r, res', b')"
      using False assms noerr c p by (auto simp: ujson_obj_next_def obj_pre_next_def check_err_def)
    ultimately show ?thesis
      using adv pre_next_left [of b1 res1 res2 b2] p advances_left [OF advances_obj_next, of b2 res2 r res' b']
      by (intro skip_measureI) simp
  qed
qed

lemma arr_next_measure:
  assumes "ujson_arr_next b res = (r, res', b')" "ujson_val_valid res'"
  shows "skip_measure b' < skip_measure b"
proof -
  have noerr: "\<not> ujson_reader_err b"
    using assms by (auto simp: ujson_arr_next_def check_err_def ujson_val_valid_def split: if_splits)
  obtain e1 res1 b1 where c: "check_end b res (CHR '']'') = (e1, res1, b1)"
    by (metis prod_cases3)
  obtain e2 res2 b2 where p: "pre_next b1 res1 = (e2, res2, b2)"
    by (metis prod_cases3)
  note adv = advances_left [OF advances_check_end [OF c]]
  show ?thesis
  proof (cases e1)
    case True
    then have "res' = res1" "b' = b1"
      using assms noerr c by (auto simp: ujson_arr_next_def check_err_def)
    then show ?thesis
      using True check_end_cases [OF c] assms(2) skip_measure_err [OF advances_check_end [OF c]] noerr by auto
  next
    case False
    have "\<not> e2"
      using False assms noerr c p pre_next_invalid [of b1 res1 res2 b2]
      by (auto simp: ujson_arr_next_def check_err_def)
    moreover from this have "get_value b2 res2 = (r, res', b')"
      using False assms noerr c p by (auto simp: ujson_arr_next_def arr_next_def check_err_def)
    ultimately show ?thesis
      using adv pre_next_left [of b1 res1 res2 b2] p advances_left [OF advances_get_value, of b2 res2 r res' b']
      by (intro skip_measureI) simp
  qed
qed

text \<open>An error stops every operation.\<close>

lemma err_first_next:
  assumes "ujson_reader_err b"
  shows "ujson_obj_first b res = (False, res\<lparr>vtype := UJSON_VOID\<rparr>, b)"
    "ujson_obj_next b res = (False, res\<lparr>vtype := UJSON_VOID\<rparr>, b)"
    "ujson_arr_first b res = (False, res\<lparr>vtype := UJSON_VOID\<rparr>, b)"
    "ujson_arr_next b res = (False, res\<lparr>vtype := UJSON_VOID\<rparr>, b)"
  using assms
  by (simp_all add: ujson_obj_first_def ujson_obj_next_def ujson_arr_first_def ujson_arr_next_def check_err_def)

lemma skip_err:
  assumes "ujson_reader_err b"
  shows "obj_skip_fuel (Suc (Suc n)) b = Some (False, b)" "arr_skip_fuel (Suc (Suc n)) b = Some (False, b)"
  using assms by (simp_all add: err_first_next ujson_val_valid_def val_zero_def)

text \<open>A skip that ends leaves the text alone, moves forward, returns 0 and does not take back an error.\<close>

definition skip_ok :: "ujson_reader \<Rightarrow> (bool \<times> ujson_reader) option \<Rightarrow> bool" where
  "skip_ok b r \<longleftrightarrow> (case r of Some (False, b') \<Rightarrow> advances b b' \<and> skip_measure b' \<le> skip_measure b | _ \<Rightarrow> False)"

lemma skip_okE:
  assumes "skip_ok b r"
  obtains b' where "r = Some (False, b')" "advances b b'" "skip_measure b' \<le> skip_measure b"
  using assms by (auto simp: skip_ok_def split: option.splits bool.splits)

lemma skip_ok_trans: "advances b b1 \<Longrightarrow> skip_measure b1 \<le> skip_measure b \<Longrightarrow> skip_ok b1 r \<Longrightarrow> skip_ok b r"
  by (auto simp: skip_ok_def split: option.splits bool.splits intro: advances_trans)

lemma skip_ok_self: "skip_ok b (Some (False, b))"
  by (simp add: skip_ok_def)


lemma measure_le: "advances b b' \<Longrightarrow> \<not> ujson_reader_err b \<Longrightarrow> skip_measure b' \<le> skip_measure b"
  by (drule advances_left) (simp add: skip_measure_def)

lemma next_measure_le:
  "ujson_obj_first b res = (r, res', b') \<Longrightarrow> skip_measure b' \<le> skip_measure b"
  "ujson_arr_first b res = (r, res', b') \<Longrightarrow> skip_measure b' \<le> skip_measure b"
  "ujson_obj_next b res = (r, res', b') \<Longrightarrow> skip_measure b' \<le> skip_measure b"
  "ujson_arr_next b res = (r, res', b') \<Longrightarrow> skip_measure b' \<le> skip_measure b"
  by - (cases "ujson_reader_err b"; auto simp: err_first_next dest!: adv_dests intro: measure_le)+

lemma skip_total:
  "2 * skip_measure b + 2 \<le> n \<Longrightarrow> skip_ok b (obj_skip_fuel n b)"
  "2 * skip_measure b + 2 \<le> n \<Longrightarrow> skip_ok b (arr_skip_fuel n b)"
  "2 * skip_measure b + 3 \<le> n \<or> \<not> ujson_val_valid res \<and> 0 < n \<Longrightarrow> skip_ok b (obj_skip_loop n res b)"
  "2 * skip_measure b + 3 \<le> n \<or> \<not> ujson_val_valid res \<and> 0 < n \<Longrightarrow> skip_ok b (arr_skip_loop n res b)"
proof (induction n arbitrary: b res)
  case (Suc n)
  {
    case 1
    obtain r res' b' where f: "ujson_obj_first b val_zero = (r, res', b')" by (metis prod_cases3)
    have "skip_ok b' (obj_skip_loop n res' b')"
      using 1 obj_first_measure [OF f] by (intro Suc.IH) auto
    then show ?case
      using f next_measure_le(1) [OF f] advances_obj_first [OF f] by (auto intro: skip_ok_trans)
  next
    case 2
    obtain r res' b' where f: "ujson_arr_first b val_zero = (r, res', b')" by (metis prod_cases3)
    have "skip_ok b' (arr_skip_loop n res' b')"
      using 2 arr_first_measure [OF f] by (intro Suc.IH) auto
    then show ?case
      using f next_measure_le(2) [OF f] advances_arr_first [OF f] by (auto intro: skip_ok_trans)
  next
    case 3
    have inner: "ujson_val_valid res \<Longrightarrow> skip_ok b (case vtype res of
              UJSON_OBJ \<Rightarrow> obj_skip_fuel n b | UJSON_ARR \<Rightarrow> arr_skip_fuel n b | _ \<Rightarrow> Some (False, b))"
      using 3 by (auto split: ujson_type.split intro: Suc.IH skip_ok_self)
    show ?case
    proof (cases "ujson_val_valid res")
      case True
      then obtain b1 where 1: "(case vtype res of
              UJSON_OBJ \<Rightarrow> obj_skip_fuel n b | UJSON_ARR \<Rightarrow> arr_skip_fuel n b | _ \<Rightarrow> Some (False, b)) = Some (False, b1)"
        "advances b b1" "skip_measure b1 \<le> skip_measure b"
        using inner by (auto elim: skip_okE)
      obtain r res' b' where f: "ujson_obj_next b1 res = (r, res', b')" by (metis prod_cases3)
      have "skip_ok b' (obj_skip_loop n res' b')"
        using 3 True 1(3) obj_next_measure [OF f] by (intro Suc.IH) auto
      then show ?thesis
        using True 1 f next_measure_le(3) [OF f] advances_ujson_obj_next [OF f]
        by (auto intro: skip_ok_trans)
    qed (simp add: skip_ok_self)
  next
    case 4
    have inner: "ujson_val_valid res \<Longrightarrow> skip_ok b (case vtype res of
              UJSON_OBJ \<Rightarrow> obj_skip_fuel n b | UJSON_ARR \<Rightarrow> arr_skip_fuel n b | _ \<Rightarrow> Some (False, b))"
      using 4 by (auto split: ujson_type.split intro: Suc.IH skip_ok_self)
    show ?case
    proof (cases "ujson_val_valid res")
      case True
      then obtain b1 where 1: "(case vtype res of
              UJSON_OBJ \<Rightarrow> obj_skip_fuel n b | UJSON_ARR \<Rightarrow> arr_skip_fuel n b | _ \<Rightarrow> Some (False, b)) = Some (False, b1)"
        "advances b b1" "skip_measure b1 \<le> skip_measure b"
        using inner by (auto elim: skip_okE)
      obtain r res' b' where f: "ujson_arr_next b1 res = (r, res', b')" by (metis prod_cases3)
      have "skip_ok b' (arr_skip_loop n res' b')"
        using 4 True 1(3) arr_next_measure [OF f] by (intro Suc.IH) auto
      then show ?thesis
        using True 1 f next_measure_le(4) [OF f] advances_arr_next [OF f]
        by (auto intro: skip_ok_trans)
    qed (simp add: skip_ok_self)
  }
qed auto

lemma skip_returns:
  obtains b' where "ujson_obj_skip b = (False, b')" "advances b b'"
  and "obj_skip_fuel (skip_fuel b) b = Some (False, b')"
proof -
  have "2 * skip_measure b + 2 \<le> skip_fuel b"
    by (simp add: skip_fuel_def skip_measure_def)
  from skip_total(1) [OF this] show ?thesis
    using that by (auto elim!: skip_okE simp: ujson_obj_skip_def)
qed

lemma arr_skip_returns:
  obtains b' where "ujson_arr_skip b = (False, b')" "advances b b'"
  and "arr_skip_fuel (skip_fuel b) b = Some (False, b')"
proof -
  have "2 * skip_measure b + 2 \<le> skip_fuel b"
    by (simp add: skip_fuel_def skip_measure_def)
  from skip_total(2) [OF this] show ?thesis
    using that by (auto elim!: skip_okE simp: ujson_arr_skip_def)
qed

lemma advances_skip [adv_dests]:
  "ujson_obj_skip b = (e, b') \<Longrightarrow> advances b b'" "ujson_arr_skip b = (e, b') \<Longrightarrow> advances b b'"
  by (metis skip_returns prod.inject, metis arr_skip_returns prod.inject)

section \<open>Error reports\<close>

definition ERR_LINES :: nat where "ERR_LINES = 10"

definition err_print_line :: "ujson_reader \<Rightarrow> string \<Rightarrow> ujson_reader" where
  "err_print_line buf line = buf\<lparr>printed := printed buf @ [line]\<rparr>"

definition printf_line :: "ujson_reader \<Rightarrow> string \<Rightarrow> ujson_reader" where
  "printf_line buf msg = err_print_line buf (vsnprintf (UJSON_ERR_MAX + 1) msg)"

text \<open>A position in the text stands for the pointer \<open>buf_pos\<close>; the text ends with a NUL.\<close>

definition json_line :: "string \<Rightarrow> nat \<Rightarrow> nat \<Rightarrow> string" where
  "json_line text line_nr pos =
     (let prefix = dec_pad3 line_nr @ '': '';
          chars = takeWhile (\<lambda>c. c \<noteq> NUL \<and> c \<noteq> CHR 0x0A) (drop pos text) in
      prefix @ take (UJSON_ERR_MAX - length prefix) chars)"

definition printf_json_line :: "ujson_reader \<Rightarrow> nat \<Rightarrow> nat \<Rightarrow> ujson_reader" where
  "printf_json_line buf line_nr pos = err_print_line buf (json_line (json buf) line_nr pos)"

definition arrow_line :: "string \<Rightarrow> nat \<Rightarrow> nat \<Rightarrow> string" where
  "arrow_line text pos cnt =
     replicate 5 (CHR '' '') @
     map (\<lambda>c. if c = CHR 0x09 then CHR 0x09 else CHR '' '') (take cnt (drop pos text)) @ ''^''"

definition print_arrow :: "ujson_reader \<Rightarrow> nat \<Rightarrow> nat \<Rightarrow> ujson_reader" where
  "print_arrow buf pos cnt = err_print_line buf (arrow_line (json buf) pos cnt)"

function line_end :: "ujson_reader \<Rightarrow> nat \<Rightarrow> nat" where
  "line_end buf cur_off =
     (if cur_off < len buf \<and> json buf ! cur_off \<noteq> CHR 0x0A then line_end buf (cur_off + 1) else cur_off)"
  by pat_completeness auto
termination
  by (relation "measure (\<lambda>(buf, cur_off). len buf - cur_off)") auto

declare line_end.simps [simp del]

lemma line_end_ge: "cur_off \<le> line_end buf cur_off"
proof (induction buf cur_off rule: line_end.induct)
  case (1 buf cur_off)
  then show ?case by (subst line_end.simps) auto
qed

text \<open>The ring of line starts, the number of lines and the offset into the last one.\<close>

function snippet_loop :: "ujson_reader \<Rightarrow> nat list \<Rightarrow> nat \<Rightarrow> nat \<Rightarrow> nat \<Rightarrow> nat list \<times> nat \<times> nat" where
  "snippet_loop buf lines cur_line cur_off last_off =
     (let lines = lines[cur_line mod ERR_LINES := cur_off]; e = line_end buf cur_off in
      if e \<ge> off buf then (lines, cur_line + 1, last_off)
      else snippet_loop buf lines (cur_line + 1) (e + 1) (off buf - (e + 1)))"
  by pat_completeness auto
termination
proof (relation "measure (\<lambda>(buf, lines, cur_line, cur_off, last_off). off buf - cur_off)", simp, clarsimp)
  fix buf :: ujson_reader and cur_off :: nat
  assume "\<not> off buf \<le> line_end buf cur_off"
  then show "off buf - Suc (line_end buf cur_off) < off buf - cur_off"
    using line_end_ge [of cur_off buf] by linarith
qed

declare snippet_loop.simps [simp del]

definition print_snippet :: "ujson_reader \<Rightarrow> string \<Rightarrow> ujson_reader" where
  "print_snippet buf what =
     (let (lines, cur_line, last_off) = snippet_loop buf (replicate ERR_LINES 0) 0 0 (off buf);
          buf = printf_line buf (what @ '' at line '' @ dec_pad3 cur_line);
          buf = err_print_line buf [];
          buf = foldl (\<lambda>buf i. printf_json_line buf (cur_line - i + 1) (lines ! ((cur_line - i) mod ERR_LINES)))
                  buf (rev [1..<min ERR_LINES cur_line + 1]) in
      print_arrow buf (lines ! ((cur_line - 1) mod ERR_LINES)) last_off)"

definition ujson_err_print :: "ujson_reader \<Rightarrow> ujson_reader" where
  "ujson_err_print buf =
     (if \<not> err_print buf then buf
      else err_print_line (print_snippet buf ''Parse error'') (err buf))"

definition ujson_warn :: "ujson_reader \<Rightarrow> string \<Rightarrow> ujson_reader" where
  "ujson_warn buf msg =
     (if strict buf then ujson_err buf msg
      else if \<not> err_print buf then buf
      else printf_line (print_snippet buf ''Warning'') msg)"

definition ujson_reader_consumed :: "ujson_reader \<Rightarrow> bool" where
  "ujson_reader_consumed buf \<longleftrightarrow> off buf \<ge> len buf"

definition ujson_reader_finish :: "ujson_reader \<Rightarrow> ujson_reader" where
  "ujson_reader_finish buf =
     (if ujson_reader_err buf then ujson_err_print buf
      else if \<not> ujson_reader_consumed buf then
        let buf = ujson_warn buf ''Garbage after JSON string!'' in
        if ujson_reader_err buf then ujson_err_print buf else buf
      else buf)"

section \<open>Saved positions\<close>

record ujson_reader_state =
  state_off :: nat
  state_depth :: int

definition ujson_reader_state_save :: "ujson_reader \<Rightarrow> ujson_reader_state" where
  "ujson_reader_state_save buf = \<lparr>state_off = sub_off buf, state_depth = depth buf\<rparr>"

definition ujson_reader_state_load :: "ujson_reader \<Rightarrow> ujson_reader_state \<Rightarrow> ujson_reader" where
  "ujson_reader_state_load buf state =
     (if ujson_reader_err buf then buf
      else buf\<lparr>off := state_off state, sub_off := state_off state, depth := state_depth state\<rparr>)"

definition ujson_reader_reset :: "ujson_reader \<Rightarrow> ujson_reader" where
  "ujson_reader_reset buf = buf\<lparr>off := 0, sub_off := 0, depth := 0, err := []\<rparr>"

section \<open>Objects with attribute lists\<close>

fun strcmp :: "string \<Rightarrow> string \<Rightarrow> int" where
  "strcmp [] [] = 0"
| "strcmp [] (d # t) = -1"
| "strcmp (c # s) [] = 1"
| "strcmp (c # s) (d # t) =
     (if c = d then strcmp s t else if of_char c < (of_char d :: nat) then -1 else 1)"

text \<open>\<open>None\<close> is \<open>(size_t)-1\<close>; \<open>Inl\<close> the result, \<open>Inr\<close> the bounds and \<open>mid\<close> when the loop ends.\<close>

function lookup_loop :: "string list \<Rightarrow> string \<Rightarrow> nat \<Rightarrow> nat \<Rightarrow> nat option \<Rightarrow> nat + nat \<times> nat \<times> nat option" where
  "lookup_loop arr key l r mid =
     (if r - l > 1 then
        let m = (l + r) div 2; ret = strcmp (arr ! m) key in
        if ret = 0 then Inl m
        else if ret < 0 then lookup_loop arr key m r (Some m)
        else lookup_loop arr key l m (Some m)
      else Inr (l, r, mid))"
  by pat_completeness auto
termination
  by (relation "measure (\<lambda>(arr, key, l, r, mid). r - l)") auto

declare lookup_loop.simps [simp del]

definition ujson_lookup :: "string list \<Rightarrow> string \<Rightarrow> nat option" where
  "ujson_lookup arr key =
     (if arr = [] then None
      else case lookup_loop arr key 0 (length arr - 1) None of
        Inl m \<Rightarrow> Some m
      | Inr (l, r, mid) \<Rightarrow>
          if mid \<noteq> Some r \<and> strcmp (arr ! r) key = 0 then Some r
          else if mid \<noteq> Some l \<and> strcmp (arr ! l) key = 0 then Some l
          else None)"

text \<open>A list of attributes: keys and types.\<close>

type_synonym ujson_obj = "(string \<times> ujson_type) list"

definition ujson_empty_obj :: ujson_obj where "ujson_empty_obj = []"

definition ujson_obj_lookup :: "ujson_obj \<Rightarrow> string \<Rightarrow> nat option" where
  "ujson_obj_lookup obj key = ujson_lookup (map fst obj) key"

definition skip_obj_val :: "ujson_reader \<Rightarrow> bool \<times> ujson_reader" where
  "skip_obj_val buf =
     (let (ok, dummy, buf) = get_value buf val_zero in
      if \<not> ok then (False, buf) else
      case vtype dummy of
        UJSON_OBJ \<Rightarrow> (let (r, buf) = ujson_obj_skip buf in (\<not> r, buf))
      | UJSON_ARR \<Rightarrow> (let (r, buf) = ujson_arr_skip buf in (\<not> r, buf))
      | _ \<Rightarrow> (True, buf))"

definition attr_matches :: "ujson_type \<Rightarrow> ujson_type \<Rightarrow> bool" where
  "attr_matches attr_type t \<longleftrightarrow>
     attr_type = UJSON_VOID \<or> attr_type = t \<or> attr_type = UJSON_FLOAT \<and> t = UJSON_INT"

text \<open>One round of the filter loop: \<open>Inl\<close> returns, \<open>Inr\<close> goes on with the next member.\<close>

definition filter_item ::
  "ujson_reader \<Rightarrow> ujson_val \<Rightarrow> ujson_obj option \<Rightarrow> ujson_obj option
    \<Rightarrow> bool \<times> ujson_val \<times> ujson_reader + ujson_val \<times> ujson_reader" where
  "filter_item buf res obj ign =
     (case copy_id_str buf UJSON_ID_MAX of
        (e, s, buf) \<Rightarrow>
          let res = (case s of None \<Rightarrow> res | Some s \<Rightarrow> res\<lparr>val_id := s\<rparr>) in
          if e then Inl (False, res, buf) else
          let key = c_str (val_id res);
              res = res\<lparr>idx := (case obj of None \<Rightarrow> None | Some attrs \<Rightarrow> ujson_obj_lookup attrs key)\<rparr> in
          case idx res of
            Some i \<Rightarrow>
              (let (ok, res, buf) = get_value buf res; attr = the obj ! i in
               if \<not> ok then Inl (False, res, buf)
               else if attr_matches (snd attr) (vtype res) then Inl (True, res, buf)
               else Inr (res, ujson_warn buf
                      (''Wrong '' @ quoted (fst attr) @ '' type expected '' @ ujson_type_name (snd attr))))
          | None \<Rightarrow>
              (let (ok, buf) = skip_obj_val buf in
               if \<not> ok then Inl (False, res, buf)
               else Inr (res,
                 case ign of
                   None \<Rightarrow> buf
                 | Some ig \<Rightarrow>
                     if ujson_obj_lookup ig key = None then ujson_warn buf (''Unexpected key '' @ quoted key) else buf)))"

lemma advances_printed [simp]: "advances a (b\<lparr>printed := p\<rparr>) = advances a b"
  by (simp add: advances_def)

lemma advances_print [simp]:
  "advances a (err_print_line b line) = advances a b" "advances a (printf_line b msg) = advances a b"
  "advances a (printf_json_line b i j) = advances a b" "advances a (print_arrow b i j) = advances a b"
  by (simp_all add: err_print_line_def printf_line_def printf_json_line_def print_arrow_def Let_def)

lemma advances_json_lines: "advances a (foldl (\<lambda>b i. printf_json_line b (f i) (g i)) b xs) = advances a b"
  by (induction xs arbitrary: b) auto

lemma advances_snippet [simp]: "advances a (print_snippet b what) = advances a b"
  by (simp add: print_snippet_def Let_def advances_json_lines split: prod.split)

lemma advances_warn [simp]: "advances a (ujson_warn b msg) = advances a b"
  by (simp add: ujson_warn_def)

lemma advances_skip_obj_val [adv_dests]: "skip_obj_val b = (ok, b') \<Longrightarrow> advances b b'"
  by (auto simp: skip_obj_val_def Let_def split: prod.splits if_split_asm ujson_type.splits
      dest!: adv_dests; simp add: advances_def)

lemma advances_filter_item:
  "filter_item b res obj ign = Inl (r, res', b') \<Longrightarrow> advances b b'"
  "filter_item b res obj ign = Inr (res', b') \<Longrightarrow> advances b b'"
  by (auto simp: filter_item_def Let_def split: prod.splits if_split_asm option.splits
      dest!: adv_dests; simp add: advances_def)+

lemma obj_pre_next_left: "obj_pre_next b res = (False, res', b') \<Longrightarrow> left_bytes b' < left_bytes b"
  by (auto simp: obj_pre_next_def split: prod.splits if_split_asm
      dest!: pre_next_left advances_check_end [THEN advances_left])

function obj_next_filter ::
  "ujson_reader \<Rightarrow> ujson_val \<Rightarrow> ujson_obj option \<Rightarrow> ujson_obj option \<Rightarrow> bool \<times> ujson_val \<times> ujson_reader" where
  "obj_next_filter buf res obj ign =
     (case filter_item buf res obj ign of
        Inl r \<Rightarrow> r
      | Inr (res, buf) \<Rightarrow>
          (case obj_pre_next buf res of
             (True, res, buf) \<Rightarrow> (False, res, buf)
           | (False, res, buf) \<Rightarrow> obj_next_filter buf res obj ign))"
  by pat_completeness auto
termination
  by (relation "measure (\<lambda>(buf, res, obj, ign). left_bytes buf)")
    (auto dest!: advances_filter_item(2) [THEN advances_left] obj_pre_next_left [OF sym] sym [of "Inr _"])

declare obj_next_filter.simps [simp del]

definition ujson_obj_first_filter ::
  "ujson_reader \<Rightarrow> ujson_val \<Rightarrow> ujson_obj option \<Rightarrow> ujson_obj option \<Rightarrow> bool \<times> ujson_val \<times> ujson_reader" where
  "ujson_obj_first_filter buf res obj ign =
     (let (e, res) = check_err buf res in
      if e then (False, res, buf) else
      let (e, buf) = any_first buf (CHR ''{'') in
      if e then (False, res, buf) else
      let (e, res, buf) = check_end buf res (CHR ''}'') in
      if e then (False, res, buf) else obj_next_filter buf res obj ign)"

definition ujson_obj_next_filter ::
  "ujson_reader \<Rightarrow> ujson_val \<Rightarrow> ujson_obj option \<Rightarrow> ujson_obj option \<Rightarrow> bool \<times> ujson_val \<times> ujson_reader" where
  "ujson_obj_next_filter buf res obj ign =
     (let (e, res) = check_err buf res in
      if e then (False, res, buf) else
      let (e, res, buf) = obj_pre_next buf res in
      if e then (False, res, buf) else obj_next_filter buf res obj ign)"

section \<open>Loading a file\<close>

text \<open>\<open>rd k m\<close> is what the \<open>k\<close>-th \<open>read()\<close> of at most \<open>m\<close> bytes delivers,
  \<open>None\<close> a failed one; the result is \<open>None\<close> when the loop does not end.\<close>

partial_function (option) load_loop ::
  "(nat \<Rightarrow> nat \<Rightarrow> string option) \<Rightarrow> nat \<Rightarrow> nat \<Rightarrow> string \<Rightarrow> string option option" where
  "load_loop rd k n text =
     (if length text < n then
        case rd k (n - length text) of
          None \<Rightarrow> Some None
        | Some chunk \<Rightarrow> load_loop rd (k + 1) n (text @ chunk)
      else Some (Some text))"

text \<open>\<open>size\<close> is the end of the file as \<open>lseek()\<close> reports it; the flags say whether
  \<open>open()\<close>, the second \<open>lseek()\<close> and \<open>malloc()\<close> succeed.\<close>

definition ujson_reader_load ::
  "bool \<Rightarrow> nat option \<Rightarrow> bool \<Rightarrow> bool \<Rightarrow> (nat \<Rightarrow> nat \<Rightarrow> string option) \<Rightarrow> ujson_reader option option" where
  "ujson_reader_load open_ok fsize rewind_ok malloc_ok rd =
     (if \<not> open_ok then Some None
      else case fsize of
        None \<Rightarrow> Some None
      | Some n \<Rightarrow>
          if \<not> rewind_ok \<or> \<not> malloc_ok then Some None
          else map_option (map_option (\<lambda>text. UJSON_READER_INIT text n False)) (load_loop rd 0 n []))"

end
