(* ===== verification/Ujson_Reader_Safety.thy ===== *)
theory Ujson_Reader_Safety
  imports Ujson_Reader
begin

text \<open>
  Robustness of the JSON reader on arbitrary texts: strings and IDs stay inside their buffers, the
  binary search for attributes is correct, errors are reported at the place of the cursor, and
  loading a file returns if reads make progress.
\<close>

section \<open>Buffers\<close>

text \<open>The bytes stored so far and the terminating NUL fit into a buffer of size \<open>n\<close>.\<close>

definition str_bounded :: "nat \<Rightarrow> string option \<Rightarrow> bool" where
  "str_bounded n str \<longleftrightarrow> (case str of None \<Rightarrow> True | Some s \<Rightarrow> length s < n)"

lemma ucode_esc_bound:
  "parse_ucode_esc b str n = (l, str', b') \<Longrightarrow> str_bounded n str \<Longrightarrow> str_bounded n str'"
  by (auto simp: parse_ucode_esc_def str_bounded_def Let_def utf8_bytes_length split: prod.splits if_splits option.splits)

lemma store_char_bound: "store_char str n c = Some str' \<Longrightarrow> str_bounded n str'"
  by (auto simp: store_char_def str_bounded_def split: if_splits option.splits)

lemma copy_loop_bound: "copy_loop b str n esc = (e, str', b') \<Longrightarrow> str_bounded n str \<Longrightarrow> str_bounded n str'"
proof (induction b str n esc rule: copy_loop.induct)
  case (1 b str n esc)
  obtain l s1 b1 where p: "parse_ucode_esc (snd (getb b)) str n = (l, s1, b1)"
    by (metis prod_cases3)
  with 1(5) have s1: "str_bounded n s1" using ucode_esc_bound by blast
  note IH = 1(1) [OF _ _ refl refl _ _ _ 1(5)] 1(2) [OF _ _ refl refl _ _ _ p [symmetric] refl _ _ s1]
    1(3) [OF _ _ refl refl]
  from 1(4,5) s1 show ?case
    by (subst (asm) copy_loop.simps)
      (auto simp: Let_def p split: if_split_asm option.splits intro: IH store_char_bound)
qed

lemma id_loop_bound: "id_loop b s n = (Inr s', b') \<Longrightarrow> length s < n \<Longrightarrow> length s' < n"
proof (induction b s n rule: id_loop.induct)
  case (1 b s n)
  from 1(2,3) show ?case
    by (subst (asm) id_loop.simps) (auto split: if_split_asm dest: 1(1))
qed

section \<open>The sorted lookup\<close>

lemma strcmp_eq [simp]: "strcmp a b = 0 \<longleftrightarrow> a = b"
  by (induction a b rule: strcmp.induct) auto

lemma strcmp_sym: "strcmp a b < 0 \<longleftrightarrow> 0 < strcmp b a"
  by (induction a b rule: strcmp.induct) auto

definition sorted_keys :: "string list \<Rightarrow> bool" where
  "sorted_keys arr \<longleftrightarrow> sorted_wrt (\<lambda>a b. strcmp a b < 0) arr"

lemma sorted_keys_less:
  "sorted_keys arr \<Longrightarrow> i < length arr \<Longrightarrow> j < length arr \<Longrightarrow> strcmp (arr ! i) (arr ! j) < 0 \<longleftrightarrow> i < j"
  using sorted_wrt_nth_less [of "\<lambda>a b. strcmp a b < 0" arr i j] sorted_wrt_nth_less [of "\<lambda>a b. strcmp a b < 0" arr j i]
    strcmp_sym [of "arr ! j" "arr ! i"]
  by (cases i j rule: linorder_cases) (auto simp: sorted_keys_def)

lemma lookup_loop_correct:
  assumes "sorted_keys arr" "l \<le> r" "r < length arr" "j < length arr" "arr ! j = key"
    and "l \<le> j" "j \<le> r" "mid \<noteq> Some j"
  shows "case lookup_loop arr key l r mid of
      Inl m \<Rightarrow> m = j
    | Inr (l', r', mid') \<Rightarrow> (j = l' \<or> j = r') \<and> mid' \<noteq> Some j"
  using assms
proof (induction arr key l r mid rule: lookup_loop.induct)
  case (1 arr key l r mid)
  define m where "m = (l + r) div 2"
  show ?case
  proof (cases "r - l > 1")
    case True
    have "m < length arr" "l \<le> m" "m \<le> r" using True 1(5) by (auto simp: m_def)
    moreover have "strcmp (arr ! m) key < 0 \<longleftrightarrow> m < j" "strcmp (arr ! m) key = 0 \<longleftrightarrow> m = j"
      using sorted_keys_less [OF 1(3), of m j] sorted_keys_less [OF 1(3), of j m] 1(6,7) \<open>m < length arr\<close>
        strcmp_sym [of "arr ! j" "arr ! m"]
      by (auto simp: nth_eq_iff_index_eq)
    ultimately show ?thesis
      using 1(1,2) [OF True m_def refl] 1(3-) True
      by (subst lookup_loop.simps) (auto simp: m_def [symmetric] Let_def)
  next
    case False
    then show ?thesis using 1(4-) by (subst lookup_loop.simps) auto
  qed
qed

lemma lookup_loop_sound:
  "l \<le> r \<Longrightarrow> r < length arr \<Longrightarrow>
    (case lookup_loop arr key l r mid of
      Inl m \<Rightarrow> m < length arr \<and> arr ! m = key
    | Inr (l', r', mid') \<Rightarrow> l' \<le> r' \<and> r' < length arr)"
proof (induction arr key l r mid rule: lookup_loop.induct)
  case (1 arr key l r mid)
  then show ?case
    by (subst lookup_loop.simps) (auto simp: Let_def split: if_splits)
qed


lemma ujson_lookup_sound:
  "ujson_lookup arr key = Some i \<Longrightarrow> i < length arr \<and> arr ! i = key"
  using lookup_loop_sound [of 0 "length arr - 1" arr key None]
  by (cases "lookup_loop arr key 0 (length arr - 1) None")
    (auto simp: ujson_lookup_def split: if_splits prod.splits)

lemma ujson_lookup_complete:
  assumes "sorted_keys arr" "i < length arr" "arr ! i = key"
  shows "ujson_lookup arr key = Some i"
proof -
  have b: "0 \<le> length arr - 1" "length arr - 1 < length arr" "0 \<le> i" "i \<le> length arr - 1"
    using assms(2) by auto
  have "\<exists>j. ujson_lookup arr key = Some j"
    using lookup_loop_correct [OF assms(1) b(1,2) assms(2,3) b(3,4), of None] assms(2,3)
    by (cases "lookup_loop arr key 0 (length arr - 1) None")
      (auto simp: ujson_lookup_def split: if_splits prod.splits)
  then obtain j where j: "ujson_lookup arr key = Some j" ..
  then have "j < length arr" "arr ! j = key"
    using ujson_lookup_sound by auto
  then have "\<not> i < j" "\<not> j < i"
    using sorted_keys_less [OF assms(1), of i j] sorted_keys_less [OF assms(1), of j i] assms(2,3) by auto
  with j show ?thesis by simp
qed

section \<open>Error reports\<close>

text \<open>The positions at which the lines start, up to the one of the cursor.\<close>

definition line_starts :: "string \<Rightarrow> nat \<Rightarrow> nat list" where
  "line_starts text pos = 0 # map Suc (filter (\<lambda>i. text ! i = CHR 0x0A) [0..<pos])"

lemma line_end_spec:
  "\<forall>i. c \<le> i \<and> i < line_end b c \<longrightarrow> json b ! i \<noteq> CHR 0x0A"
  "line_end b c < len b \<Longrightarrow> json b ! line_end b c = CHR 0x0A"
proof (induction b c rule: line_end.induct)
  case (1 b c)
  {
    case 1
    show ?case
    proof (cases "c < len b \<and> json b ! c \<noteq> CHR 0x0A")
      case True
      then have e: "line_end b c = line_end b (c + 1)" by (simp add: line_end.simps [of b c])
      have "json b ! i \<noteq> CHR 0x0A" if "c \<le> i" "i < line_end b c" for i
        using that e True "1.IH"(1) [OF True] by (cases "i = c") auto
      then show ?thesis by blast
    next
      case False
      then show ?thesis by (subst line_end.simps) auto
    qed
  next
    case 2
    with "1.IH"(2) show ?case
      by (cases "c < len b \<and> json b ! c \<noteq> CHR 0x0A") (auto simp: line_end.simps [of b c])
  }
qed

lemma line_starts_step:
  assumes "c \<le> e" "\<forall>i. c \<le> i \<and> i < e \<longrightarrow> text ! i \<noteq> CHR 0x0A" 
  shows "line_starts text e = line_starts text c"
    and "text ! e = CHR 0x0A \<Longrightarrow> line_starts text (Suc e) = line_starts text c @ [Suc e]"
proof -
  have "[0..<e] = [0..<c] @ [c..<e]" using assms(1) by (metis le_add_diff_inverse upt_add_eq_append zero_le)
  moreover have "filter (\<lambda>i. text ! i = CHR 0x0A) [c..<e] = []"
    using assms(2) by (auto simp: filter_empty_conv)
  ultimately show "line_starts text e = line_starts text c" by (simp add: line_starts_def)
  then show "text ! e = CHR 0x0A \<Longrightarrow> line_starts text (Suc e) = line_starts text c @ [Suc e]"
    by (simp add: line_starts_def)
qed

text \<open>The ring holds the starts of the last lines seen.\<close>

definition ring_ok :: "nat list \<Rightarrow> nat list \<Rightarrow> bool" where
  "ring_ok ring st \<longleftrightarrow>
     length ring = ERR_LINES \<and> (\<forall>j < length st. length st \<le> j + ERR_LINES \<longrightarrow> ring ! (j mod ERR_LINES) = st ! j)"

lemma ring_ok_snoc: "ring_ok ring st \<Longrightarrow> ring_ok (ring[length st mod ERR_LINES := x]) (st @ [x])"
proof -
  assume r: "ring_ok ring st"
  have ne: "length st mod ERR_LINES \<noteq> j mod ERR_LINES" if "j < length st" "length st < j + ERR_LINES" for j
  proof
    assume "length st mod ERR_LINES = j mod ERR_LINES"
    then have "ERR_LINES dvd length st - j" using that(1) by (simp add: mod_eq_dvd_iff_nat)
    from dvd_imp_le [OF this] show False using that by simp
  qed
  have "ring[length st mod ERR_LINES := x] ! (j mod ERR_LINES) = (st @ [x]) ! j"
    if j: "j < length (st @ [x])" "length (st @ [x]) \<le> j + ERR_LINES" for j
  proof (cases "j = length st")
    case True
    then show ?thesis using r by (simp add: ring_ok_def ERR_LINES_def)
  next
    case False
    then show ?thesis using r j ne [of j] by (simp add: ring_ok_def nth_append)
  qed
  with r show ?thesis by (simp add: ring_ok_def)
qed

lemma snippet_loop_correct:
  assumes "off b \<le> len b" "c \<le> off b" "line_starts (json b) c = st @ [c]" "ring_ok ring st" "last_off = off b - c"
  shows "case snippet_loop b ring (length st) c last_off of
      (ring', n, last') \<Rightarrow> let st' = line_starts (json b) (off b) in
        ring_ok ring' st' \<and> n = length st' \<and> last' = off b - last st'"
  using assms
proof (induction b ring "length st" c last_off arbitrary: st rule: snippet_loop.induct)
  case (1 b ring c last_off)
  define e where "e = line_end b c"
  have spec: "c \<le> e" "\<forall>i. c \<le> i \<and> i < e \<longrightarrow> json b ! i \<noteq> CHR 0x0A"
    using line_end_ge [of c b] line_end_spec(1) [of c b] by (auto simp: e_def)
  have r: "ring_ok (ring[length st mod ERR_LINES := c]) (st @ [c])"
    using 1(5) by (rule ring_ok_snoc)
  show ?case
  proof (cases "off b \<le> e")
    case True
    then have "line_starts (json b) (off b) = st @ [c]"
      using line_starts_step(1) [OF 1(3), of "json b"] spec(2) 1(4) by auto
    then show ?thesis
      using True r 1(6) by (subst snippet_loop.simps) (simp add: e_def Let_def)
  next
    case False
    then have "json b ! e = CHR 0x0A" using line_end_spec(2) [of b c] 1(2) by (simp add: e_def)
    then have s: "line_starts (json b) (Suc e) = (st @ [c]) @ [Suc e]"
      using line_starts_step(2) [OF spec] 1(4) by simp
    have "case snippet_loop b (ring[length st mod ERR_LINES := c]) (length (st @ [c])) (e + 1) (off b - (e + 1)) of
      (ring', n, last') \<Rightarrow> let st' = line_starts (json b) (off b) in
        ring_ok ring' st' \<and> n = length st' \<and> last' = off b - last st'"
      by (rule 1(1) [OF refl refl, folded e_def]) (use False 1(2) s r in auto)
    then show ?thesis
      using False by (subst snippet_loop.simps) (simp add: e_def [symmetric] Let_def)
  qed
qed


lemma json_lines_printed:
  "foldl (\<lambda>b i. printf_json_line b (f i) (g i)) b xs
    = b\<lparr>printed := printed b @ map (\<lambda>i. json_line (json b) (f i) (g i)) xs\<rparr>"
  by (induction xs arbitrary: b) (simp_all add: printf_json_line_def err_print_line_def)

lemma rev_lines: "m \<le> n \<Longrightarrow> map (\<lambda>i. h (n - i)) (rev [1..<m + 1]) = map h [n - m..<n]"
  by (rule nth_equalityI) (auto simp: rev_nth simp del: upt_Suc)

text \<open>The report of a position: title, blank line, the last lines up to the position, the arrow.\<close>

definition report_lines :: "string \<Rightarrow> nat \<Rightarrow> string \<Rightarrow> string list" where
  "report_lines text pos what =
     (let st = line_starts text pos; n = length st in
      [take UJSON_ERR_MAX (what @ '' at line '' @ dec_pad3 n), []]
      @ map (\<lambda>i. json_line text (i + 1) (st ! i)) [n - min ERR_LINES n..<n]
      @ [arrow_line text (last st) (pos - last st)])"

lemma print_snippet_report:
  assumes "off b \<le> len b"
  shows "print_snippet b what = b\<lparr>printed := printed b @ report_lines (json b) (off b) what\<rparr>"
proof -
  define st where "st = line_starts (json b) (off b)"
  obtain ring n last_off where s: "snippet_loop b (replicate ERR_LINES 0) 0 0 (off b) = (ring, n, last_off)"
    by (metis prod_cases3)
  then have r: "ring_ok ring st" "n = length st" "last_off = off b - last st"
    using snippet_loop_correct [OF assms, of 0 "[]" "replicate ERR_LINES 0" "off b"]
    by (auto simp: ring_ok_def line_starts_def st_def)
  have ring: "ring ! ((n - i) mod ERR_LINES) = st ! (n - i)" if "Suc 0 \<le> i" "i < Suc (min ERR_LINES n)" for i
    using r that by (auto simp: ring_ok_def)
  have ne: "st \<noteq> []" by (simp add: st_def line_starts_def)
  have "map (\<lambda>i. json_line (json b) (n - i + 1) (ring ! ((n - i) mod ERR_LINES))) (rev [1..<min ERR_LINES n + 1])
      = map (\<lambda>i. json_line (json b) (n - i + 1) (st ! (n - i))) (rev [1..<min ERR_LINES n + 1])"
    by (auto simp: ring simp del: upt_Suc)
  also have "\<dots> = map (\<lambda>i. json_line (json b) (i + 1) (st ! i)) [n - min ERR_LINES n..<n]"
    by (rule rev_lines) simp
  finally have l: "map (\<lambda>i. json_line (json b) (n - i + 1) (ring ! ((n - i) mod ERR_LINES))) (rev [1..<min ERR_LINES n + 1])
      = map (\<lambda>i. json_line (json b) (i + 1) (st ! i)) [n - min ERR_LINES n..<n]" .
  have "ring ! ((n - 1) mod ERR_LINES) = last st"
    using ring [of 1] ne r(2) by (auto simp: ERR_LINES_def last_conv_nth Suc_le_eq)
  with l show ?thesis
    unfolding print_snippet_def s report_lines_def st_def [symmetric]
    by (simp del: upt_Suc add: Let_def json_lines_printed printf_line_def err_print_line_def print_arrow_def vsnprintf_def r(3)
        flip: r(2))
qed

section \<open>Loading a file\<close>

lemma load_loop_returns:
  assumes "\<And>k m. 0 < m \<Longrightarrow> case rd k m of None \<Rightarrow> True | Some c \<Rightarrow> 0 < length c \<and> length c \<le> m"
  shows "length acc \<le> n \<Longrightarrow> \<exists>r. load_loop rd k n acc = Some r \<and> (\<forall>t. r = Some t \<longrightarrow> length t = n)"
proof (induction "n - length acc" arbitrary: k acc rule: less_induct)
  case less
  show ?case
  proof (cases "length acc < n")
    case True
    show ?thesis
    proof (cases "rd k (n - length acc)")
      case None
      with True show ?thesis by (simp add: load_loop.simps [of rd k])
    next
      case (Some c)
      with assms [of "n - length acc" k] True have c: "0 < length c" "length c \<le> n - length acc" by auto
      have "\<exists>r. load_loop rd (k + 1) n (acc @ c) = Some r \<and> (\<forall>t. r = Some t \<longrightarrow> length t = n)"
      proof (rule less(1))
        show "n - length (acc @ c) < n - length acc" "length (acc @ c) \<le> n"
          using c True unfolding length_append by linarith+
      qed
      with True Some show ?thesis by (simp add: load_loop.simps [of rd k])
    qed
  next
    case False
    with less(2) show ?thesis by (simp add: load_loop.simps [of rd k])
  qed
qed

lemma load_loop_hangs:
  assumes "\<And>j m. k \<le> j \<Longrightarrow> rd j m = Some []" "length acc < n"
  shows "load_loop rd k n acc = None"
proof (rule ccontr)
  assume "load_loop rd k n acc \<noteq> None"
  then obtain r where "load_loop rd k n acc = Some r" by auto
  then have "rd = rd \<longrightarrow> k \<le> k \<longrightarrow> n = n \<longrightarrow> acc = acc \<longrightarrow> False"
  proof (rule load_loop.raw_induct [where P = "\<lambda>rd' j n' t r. rd' = rd \<longrightarrow> k \<le> j \<longrightarrow> n' = n \<longrightarrow> t = acc \<longrightarrow> False", rotated])
    fix f rd' j n' t r
    assume "\<And>rd' j n' t r. f rd' j n' t = Some r \<Longrightarrow> rd' = rd \<longrightarrow> k \<le> j \<longrightarrow> n' = n \<longrightarrow> t = acc \<longrightarrow> False"
      and "(if length t < n' then case rd' j (n' - length t) of None \<Rightarrow> Some None
          | Some chunk \<Rightarrow> f rd' (j + 1) n' (t @ chunk) else Some (Some t)) = Some r"
    from this(1) [of rd' "j + 1" n' t r] this(2) assms
    show "rd' = rd \<longrightarrow> k \<le> j \<longrightarrow> n' = n \<longrightarrow> t = acc \<longrightarrow> False"
      by auto
  qed
  then show False by simp
qed

section \<open>Properties\<close>

text \<open>C26: Whatever the text is, a string value and its terminating NUL stay inside the buffer of
  the \<open>ujson_val\<close>, and an ID stays inside its array.\<close>
theorem copy_in_bounds:
  assumes "0 < n" "copy_str b str n = (e, str', b')" "copy_id_str b UJSON_ID_MAX = (e', s, b'')"
  shows "(case str' of None \<Rightarrow> True | Some t \<Rightarrow> length t < n) \<and> (case s of None \<Rightarrow> True | Some t \<Rightarrow> length t < UJSON_ID_MAX)"
proof
  have "str_bounded n (map_option (\<lambda>_. []) str)"
    using assms(1) by (simp add: str_bounded_def split: option.split)
  then show "case str' of None \<Rightarrow> True | Some t \<Rightarrow> length t < n"
    using copy_loop_bound assms(2) by (auto simp: copy_str_def str_bounded_def)
  show "case s of None \<Rightarrow> True | Some t \<Rightarrow> length t < UJSON_ID_MAX"
    using assms(3)
    by (auto simp: copy_id_str_def Let_def UJSON_ID_MAX_def dest: id_loop_bound split: prod.splits if_splits sum.splits)
qed

theorem copy_in_bounds_witness:
  "\<exists>e str b'. copy_str (UJSON_READER_INIT ''abcdef'' 6 False) (Some []) 4 = (e, str, b')
    \<and> (case str of None \<Rightarrow> True | Some t \<Rightarrow> length t < 4)"
  using copy_in_bounds [of 4 "UJSON_READER_INIT ''abcdef'' 6 False" "Some []"] by (metis prod_cases3 zero_less_numeral)

text \<open>C14: On strictly sorted keys the binary search returns the index of the key, and \<open>(size_t)-1\<close>
  exactly when the key is not in the array.\<close>
theorem ujson_lookup_correct:
  assumes "sorted_keys arr"
  shows "(ujson_lookup arr key = Some i \<longleftrightarrow> i < length arr \<and> arr ! i = key)
    \<and> (ujson_lookup arr key = None \<longleftrightarrow> key \<notin> set arr)"
proof -
  have 1: "ujson_lookup arr key = Some i \<longleftrightarrow> i < length arr \<and> arr ! i = key" for i
    using ujson_lookup_sound ujson_lookup_complete [OF assms] by blast
  moreover have "ujson_lookup arr key = None \<longleftrightarrow> key \<notin> set arr"
    using 1 by (metis in_set_conv_nth not_None_eq)
  ultimately show ?thesis by blast
qed

theorem ujson_lookup_correct_witness:
  "ujson_lookup [''bool'', ''id'', ''number''] ''id'' = Some 1"
  using ujson_lookup_correct [of "[''bool'', ''id'', ''number'']" "''id''" 1] by (simp add: sorted_keys_def)

text \<open>An error is reported at its place: the line number printed is that of the cursor, the
  lines printed are the up to ten lines that end with it, numbered and each from its start, and the
  arrow is put under the column of the cursor.\<close>
theorem err_print_location:
  assumes "off b \<le> len b" "err_print b"
  shows "printed (ujson_err_print b) = printed b @ report_lines (json b) (off b) ''Parse error'' @ [err b]"
  using assms by (simp add: ujson_err_print_def print_snippet_report err_print_line_def)

theorem err_print_location_witness:
  "printed (ujson_err_print ((UJSON_READER_INIT (''[1,'' @ [CHR 0x0A] @ '' 2 x'') 8 False)\<lparr>off := 7, err := ''Expected comma''\<rparr>))
    = [''Parse error at line 002'', [], ''001: [1,'', ''002:  2 x'', ''        ^'', ''Expected comma'']"
proof -
  let ?b = "(UJSON_READER_INIT (''[1,'' @ [CHR 0x0A] @ '' 2 x'') 8 False)\<lparr>off := 7, err := ''Expected comma''\<rparr>"
  have "off ?b \<le> len ?b" "err_print ?b" by (simp_all add: UJSON_READER_INIT_def)
  then have "printed (ujson_err_print ?b) = printed ?b @ report_lines (json ?b) (off ?b) ''Parse error'' @ [err ?b]"
    by (rule err_print_location)
  also have "\<dots> = [''Parse error at line 002'', [], ''001: [1,'', ''002:  2 x'', ''        ^'', ''Expected comma'']"
    by code_simp
  finally show ?thesis .
qed



text \<open>When the file is shorter than \<open>lseek()\<close> said, \<open>read()\<close> returns 0 and loading it never ends.\<close>
theorem reader_load_hangs:
  assumes "0 < n"
  shows "ujson_reader_load True (Some n) True True (\<lambda>k m. Some []) = None"
  using load_loop_hangs [of 0 "\<lambda>k m. Some []" "[]" n] assms by (simp add: ujson_reader_load_def)

theorem reader_load_hangs_witness: "ujson_reader_load True (Some 3) True True (\<lambda>k m. Some []) = None"
  using reader_load_hangs [of 3] by simp

end
