(* ===== verification/Ujson_Grammar.thy ===== *)
theory Ujson_Grammar
  imports Ujson_Reader_Safety
begin

text \<open>
  What the JSON reader accepts and delivers: a grammar of JSON texts, the loops of a client that
  collects a document, and the proof that these loops return the document whose text is in front of
  the reader and stop exactly behind it. Skipping a value is such a loop without a string buffer.
\<close>

section \<open>The text in front of the reader\<close>

definition at_text :: "ujson_reader \<Rightarrow> string \<Rightarrow> bool" where
  "at_text b t \<longleftrightarrow>
     len b \<le> length (json b) \<and> off b \<le> len b \<and> drop (off b) (take (len b) (json b)) = t \<and> err b = []"

definition adv :: "nat \<Rightarrow> ujson_reader \<Rightarrow> ujson_reader" where
  "adv k b = b\<lparr>off := off b + k\<rparr>"

lemma adv_simps [simp]:
  "depth (adv k b) = depth b" "max_depth (adv k b) = max_depth b" "err (adv k b) = err b"
  "json (adv k b) = json b" "len (adv k b) = len b" "strict (adv k b) = strict b" "off (adv k b) = off b + k" "sub_off (adv k b) = sub_off b"
  "adv 0 b = b" "adv j (adv k b) = adv (k + j) b"
  "(adv k b)\<lparr>depth := d\<rparr> = adv k (b\<lparr>depth := d\<rparr>)"
  "adv k (b\<lparr>sub_off := s\<rparr>) = (adv k b)\<lparr>sub_off := s\<rparr>"
  "ujson_reader_err (adv k b) = ujson_reader_err b"
  by (simp_all add: adv_def add.assoc ujson_reader_err_def)

lemma at_text_upd [simp]:
  "at_text (b\<lparr>depth := d\<rparr>) t = at_text b t" "at_text (b\<lparr>sub_off := s\<rparr>) t = at_text b t"
  by (simp_all add: at_text_def)

lemma at_text_noerr: "at_text b t \<Longrightarrow> \<not> ujson_reader_err b"
  by (simp add: at_text_def ujson_reader_err_def)

lemma at_text_adv: "at_text b t \<Longrightarrow> k \<le> length t \<Longrightarrow> at_text (adv k b) (drop k t)"
  by (auto simp: at_text_def adv_def add.commute)

lemma at_text_append: "at_text b (s @ t) \<Longrightarrow> at_text (adv (length s) b) t"
  using at_text_adv [of b "s @ t" "length s"] by simp

lemma at_text_Cons: "at_text b (c # t) \<Longrightarrow> at_text (adv 1 b) t"
  using at_text_adv [of b "c # t" 1] by simp

lemma at_text_len: "at_text b t \<Longrightarrow> len b - off b = length t"
  by (auto simp: at_text_def)

lemma at_buf_empty: "at_text b t \<Longrightarrow> buf_empty b \<longleftrightarrow> t = []"
  by (auto simp: at_text_def buf_empty_def)

lemma at_nth: "at_text b t \<Longrightarrow> i < length t \<Longrightarrow> json b ! (off b + i) = t ! i"
  by (auto simp: at_text_def)

lemma at_peekb: "at_text b t \<Longrightarrow> peekb b = deref t"
  using at_nth [of b t 0] by (cases t) (auto simp: peekb_def at_buf_empty)

lemma at_peekb_off: "at_text b t \<Longrightarrow> peekb_off b i = deref (drop i t)"
  using at_nth [of b t i] at_text_len [of b t]
  by (cases "i < length t") (auto simp: peekb_off_def deref_def Cons_nth_drop_Suc [symmetric])

lemma at_getb: "at_text b (c # t) \<Longrightarrow> getb b = (c, adv 1 b)"
  using at_nth [of b "c # t" 0] by (simp add: getb_def at_buf_empty adv_def)

lemma at_getb_empty: "at_text b [] \<Longrightarrow> getb b = (NUL, b)"
  by (simp add: getb_def at_buf_empty)

lemma at_eatb: "at_text b t \<Longrightarrow> c \<noteq> NUL \<Longrightarrow> eatb b c = (if deref t = c then (True, adv 1 b) else (False, b))"
  by (cases t) (auto simp: eatb_def at_peekb at_getb)

definition ws :: "string \<Rightarrow> bool" where
  "ws w \<longleftrightarrow> list_all is_ws w"

lemma ws_simps [simp]: "ws []" "ws (c # w) \<longleftrightarrow> is_ws c \<and> ws w" "ws (v @ w) \<longleftrightarrow> ws v \<and> ws w"
  by (simp_all add: ws_def)

lemma at_eatws_loop:
  "at_text b (w @ t) \<Longrightarrow> ws w \<Longrightarrow> \<not> is_ws (deref t) \<Longrightarrow> eatws_loop b = adv (length w) b"
proof (induction w arbitrary: b)
  case Nil
  then show ?case
    using at_nth [of b t 0] by (cases t) (auto simp: at_buf_empty eatws_loop.simps [of b])
next
  case (Cons c w)
  then have "eatws_loop (adv 1 b) = adv (length w) (adv 1 b)"
    using at_text_Cons [of b c "w @ t"] by auto
  with Cons.prems show ?case
    using at_nth [of b "c # w @ t" 0] by (simp add: at_buf_empty eatws_loop.simps [of b] adv_def)
qed

lemma at_eatws:
  "at_text b (w @ t) \<Longrightarrow> ws w \<Longrightarrow> \<not> is_ws (deref t) \<Longrightarrow> eatws b = (t = [], adv (length w) b)"
  using at_text_append [of b w t] by (simp add: eatws_def at_eatws_loop at_buf_empty)

lemma at_eatws0: "at_text b t \<Longrightarrow> \<not> is_ws (deref t) \<Longrightarrow> eatws b = (t = [], b)"
  using at_eatws [of b "[]" t] by simp

lemma at_eatstr: "at_text b (s @ t) \<Longrightarrow> NUL \<notin> set s \<Longrightarrow> eatstr b s = (True, adv (length s) b)"
proof (induction s arbitrary: b)
  case (Cons c s)
  then show ?case using at_text_Cons [of b c "s @ t"] by (auto simp: at_eatb)
qed simp

section \<open>Strings\<close>

text \<open>A JSON string between its quotes and the bytes it stands for.\<close>

definition hex4 :: "string \<Rightarrow> bool" where
  "hex4 h \<longleftrightarrow> length h = 4 \<and> list_all (\<lambda>c. 0 \<le> hex2val c) h"

definition hex_num :: "string \<Rightarrow> int" where
  "hex_num h = foldl (\<lambda>v c. v * 16 + hex2val c) 0 h"

inductive str_body :: "string \<Rightarrow> string \<Rightarrow> bool" where
  nil: "str_body [] []"
| plain: "0x20 \<le> (of_char c :: nat) \<Longrightarrow> c \<noteq> CHR 0x22 \<Longrightarrow> c \<noteq> CHR 0x5C \<Longrightarrow> str_body t s \<Longrightarrow> str_body (c # t) (c # s)"
| esc: "unescape e = Some c \<Longrightarrow> str_body t s \<Longrightarrow> str_body (CHR 0x5C # e # t) (c # s)"
| ucode: "hex4 h \<Longrightarrow> hex_num h \<noteq> 0 \<Longrightarrow> str_body t s
    \<Longrightarrow> str_body (CHR 0x5C # CHR ''u'' # h @ t) (ujson_to_utf8 (of_int (hex_num h)) @ s)"

text \<open>There is room for \<open>k\<close> more bytes in a buffer of size \<open>n\<close>, or no buffer.\<close>

definition fits :: "string option \<Rightarrow> nat \<Rightarrow> nat \<Rightarrow> bool" where
  "fits str k n \<longleftrightarrow> (case str of None \<Rightarrow> True | Some p \<Rightarrow> length p + k + 1 < n)"

lemma fits_append [simp]: "fits (map_option (\<lambda>p. p @ u) str) k n = fits str (length u + k) n"
  by (simp add: fits_def add.assoc split: option.split)

lemma fits_store: "fits str (Suc k) n \<Longrightarrow> store_char str n c = Some (map_option (\<lambda>p. p @ [c]) str)"
  by (auto simp: fits_def store_char_def split: option.splits)

lemma at_ucode_loop:
  "at_text b (h @ t) \<Longrightarrow> list_all (\<lambda>c. 0 \<le> hex2val c) h
    \<Longrightarrow> ucode_loop (length h) r b = (foldl (\<lambda>v c. v * 16 + hex2val c) r h, adv (length h) b)"
proof (induction h arbitrary: b r)
  case (Cons c h)
  then show ?case using at_text_Cons [of b c "h @ t"] by (simp add: at_getb)
qed simp

lemma hex_num_nonneg: "list_all (\<lambda>c. 0 \<le> hex2val c) h \<Longrightarrow> 0 \<le> hex_num h"
  unfolding hex_num_def by (induction h rule: rev_induct) auto

lemma at_parse_ucode_esc:
  assumes "at_text b (h @ t)" "hex4 h" "hex_num h \<noteq> 0"
    and "fits str (length (ujson_to_utf8 (of_int (hex_num h))) + k) n"
  shows "\<exists>l. l \<noteq> 0 \<and> parse_ucode_esc b str n =
     (l, map_option (\<lambda>s. s @ ujson_to_utf8 (of_int (hex_num h))) str, adv (length h) b)"
proof -
  have cp: "parse_ucode_cp b = (hex_num h, adv (length h) b)"
    using at_ucode_loop [OF assms(1), of 0] assms(2) by (simp add: parse_ucode_cp_def hex4_def hex_num_def)
  have "0 < hex_num h"
    using hex_num_nonneg [of h] assms(2,3) by (simp add: hex4_def)
  then show ?thesis
    using assms(4) cp
    by (cases str) (auto simp: parse_ucode_esc_def utf8_bytes_length ujson_utf8_bytes_def fits_def)
qed

lemma at_copy_loop:
  assumes "str_body t s" "at_text b (t @ CHR 0x22 # z)" "fits str (length s) n"
  shows "copy_loop b str n False = (False, map_option (\<lambda>p. p @ s) str, adv (length t + 1) b)"
  using assms
proof (induction arbitrary: b str rule: str_body.induct)
  case nil
  then show ?case
    by (subst copy_loop.simps) (simp add: at_buf_empty at_peekb at_getb option.map_ident)
next
  case (plain c t s)
  have "store_char str n c = Some (map_option (\<lambda>p. p @ [c]) str)"
    using plain.prems(2) by (auto intro: fits_store)
  moreover have "copy_loop (adv 1 b) (map_option (\<lambda>p. p @ [c]) str) n False
      = (False, map_option (\<lambda>p. p @ c # s) str, adv (length t + 1) (adv 1 b))"
    using plain.IH [of "adv 1 b" "map_option (\<lambda>p. p @ [c]) str"] plain.prems at_text_Cons [of b c "t @ CHR 0x22 # z"]
    by (auto simp: option.map_comp comp_def)
  ultimately show ?case
    using plain.hyps plain.prems(1) by (subst copy_loop.simps) (simp add: at_buf_empty at_peekb at_getb)
next
  case (esc e c t s)
  have e: "e \<noteq> CHR ''u''" "\<not> of_char e < (0x20 :: nat)"
    using esc.hyps(1) by (auto simp: unescape_def split: if_splits)
  have at: "at_text (adv 1 b) (e # t @ CHR 0x22 # z)" "at_text (adv 2 b) (t @ CHR 0x22 # z)"
    using at_text_Cons [of b "CHR 0x5C" "e # t @ CHR 0x22 # z"] at_text_Cons [of "adv 1 b" e "t @ CHR 0x22 # z"] esc.prems(1)
    by (simp_all add: numeral_2_eq_2)
  have "store_char str n c = Some (map_option (\<lambda>p. p @ [c]) str)"
    using esc.prems(2) by (auto intro: fits_store)
  moreover have "copy_loop (adv 2 b) (map_option (\<lambda>p. p @ [c]) str) n False
      = (False, map_option (\<lambda>p. p @ c # s) str, adv (length t + 1) (adv 2 b))"
    using esc.IH [of "adv 2 b" "map_option (\<lambda>p. p @ [c]) str"] esc.prems at(2)
    by (auto simp: option.map_comp comp_def)
  ultimately show ?case
    using esc.prems(1) e esc.hyps(1) at(1)
    by (subst copy_loop.simps, subst copy_loop.simps)
      (simp add: at_buf_empty at_peekb at_getb numeral_2_eq_2)
next
  case (ucode h t s)
  let ?u = "ujson_to_utf8 (of_int (hex_num h))"
  have at: "at_text (adv 1 b) (CHR ''u'' # h @ t @ CHR 0x22 # z)" "at_text (adv 2 b) (h @ t @ CHR 0x22 # z)"
    "at_text (adv (2 + length h) b) (t @ CHR 0x22 # z)"
    using at_text_Cons [of b "CHR 0x5C" "CHR ''u'' # h @ t @ CHR 0x22 # z"]
      at_text_Cons [of "adv 1 b" "CHR ''u''" "h @ t @ CHR 0x22 # z"] at_text_append [of "adv 2 b" h] ucode.prems(1)
    by (simp_all add: numeral_2_eq_2)
  obtain l where l: "l \<noteq> 0" "parse_ucode_esc (adv 2 b) str n = (l, map_option (\<lambda>p. p @ ?u) str, adv (2 + length h) b)"
    using at_parse_ucode_esc [OF at(2) ucode.hyps(1,2), of str "length s" n] ucode.prems(2) by auto
  have "copy_loop (adv (2 + length h) b) (map_option (\<lambda>p. p @ ?u) str) n False
      = (False, map_option (\<lambda>p. p @ ?u @ s) str, adv (length t + 1) (adv (2 + length h) b))"
    using ucode.IH [of "adv (2 + length h) b" "map_option (\<lambda>p. p @ ?u) str"] ucode.prems(2) at(3)
    by (auto simp: option.map_comp comp_def)
  with l show ?case
    using ucode.prems(1) at(1)
    by (subst copy_loop.simps, subst copy_loop.simps)
      (simp add: at_buf_empty at_peekb at_getb numeral_2_eq_2 add.assoc)
qed

lemma at_copy_str:
  assumes "str_body t s" "at_text b (CHR 0x22 # t @ CHR 0x22 # z)" "str \<noteq> None \<longrightarrow> length s + 1 < n"
  shows "copy_str b str n = (False, map_option (\<lambda>_. s) str, adv (length t + 2) b)"
  using at_copy_loop [OF assms(1) at_text_Cons [OF assms(2)], of "map_option (\<lambda>_. []) str" n] assms(2,3)
  by (cases str) (auto simp: copy_str_def at_eatb fits_def)

section \<open>Numbers\<close>

definition int_part :: "string \<Rightarrow> bool" where
  "int_part ds \<longleftrightarrow> ds \<noteq> [] \<and> list_all isdigit ds \<and> (hd ds = CHR ''0'' \<longrightarrow> ds = ''0'')"

definition digits :: "string \<Rightarrow> bool" where
  "digits ds \<longleftrightarrow> ds \<noteq> [] \<and> list_all isdigit ds"

definition fraction :: "string \<Rightarrow> bool" where
  "fraction t \<longleftrightarrow> t \<noteq> [] \<and> hd t = CHR ''.'' \<and> digits (tl t)"

definition exponent :: "string \<Rightarrow> bool" where
  "exponent t \<longleftrightarrow> t \<noteq> [] \<and> (hd t = CHR ''e'' \<or> hd t = CHR ''E'')
     \<and> (digits (tl t) \<or> (deref (tl t) = CHR ''+'' \<or> deref (tl t) = CHR ''-'') \<and> digits (tl (tl t)))"

text \<open>A number with a fraction or an exponent.\<close>

inductive float_text :: "string \<Rightarrow> bool" where
  "sg = [] \<or> sg = ''-'' \<Longrightarrow> int_part ds \<Longrightarrow> fraction fr \<Longrightarrow> float_text (sg @ ds @ fr)"
| "sg = [] \<or> sg = ''-'' \<Longrightarrow> int_part ds \<Longrightarrow> exponent ex \<Longrightarrow> float_text (sg @ ds @ ex)"
| "sg = [] \<or> sg = ''-'' \<Longrightarrow> int_part ds \<Longrightarrow> fraction fr \<Longrightarrow> exponent ex \<Longrightarrow> float_text (sg @ ds @ fr @ ex)"

lemma digit_val_range: "isdigit c \<Longrightarrow> 0 \<le> digit_val c \<and> digit_val c \<le> 9"
proof -
  assume "isdigit c"
  then have n: "48 \<le> (of_char c :: nat)" "of_char c \<le> (57 :: nat)"
    by (simp_all add: isdigit_def char_between_def)
  have "digit_val c = int (of_char c) - 48" by (simp add: digit_val_def of_nat_of_char)
  with n show ?thesis by linarith
qed

lemma isdigit_simps [simp]:
  "\<not> isdigit NUL" "\<not> isdigit (CHR ''-'')" "\<not> isdigit (CHR ''.'')" "\<not> isdigit (CHR ''e'')" "\<not> isdigit (CHR ''E'')"
  "\<not> isdigit (CHR ''+'')" "\<not> isdigit (CHR '','')" "isdigit (CHR ''0'')"
  "\<not> isdigit (CHR ''n'')" "\<not> isdigit (CHR ''t'')" "\<not> isdigit (CHR ''f'')"
  by (simp_all add: isdigit_def char_between_def)

lemma dec_fold_ge: "0 \<le> v \<Longrightarrow> list_all isdigit ds \<Longrightarrow> v \<le> foldl (\<lambda>v c. v * 10 + digit_val c) v ds"
proof (induction ds arbitrary: v)
  case (Cons c ds)
  then have "v \<le> v * 10 + digit_val c" using digit_val_range [of c] by simp
  also have "\<dots> \<le> foldl (\<lambda>v c. v * 10 + digit_val c) (v * 10 + digit_val c) ds"
    using Cons digit_val_range [of c] by simp
  finally show ?case by simp
qed simp

lemma at_int_digits:
  assumes "at_text b (ds @ z)" "list_all isdigit ds" "\<not> isdigit (deref z)" "0 \<le> v"
    and "foldl (\<lambda>v c. v * 10 + digit_val c) v ds < 9223372036854775808"
  shows "int_digits b v = (foldl (\<lambda>v c. v * 10 + digit_val c) v ds, adv (length ds) b)"
  using assms
proof (induction ds arbitrary: b v)
  case Nil
  then show ?case by (subst int_digits.simps) (simp add: at_peekb)
next
  case (Cons c ds)
  have d: "0 \<le> digit_val c" using Cons.prems(2) digit_val_range [of c] by simp
  have "v * 10 + digit_val c < 9223372036854775808"
    using dec_fold_ge [of "v * 10 + digit_val c" ds] Cons.prems d by simp
  then have c: "c_long (c_long (v * 10) + digit_val c) = v * 10 + digit_val c"
    using d Cons.prems(4) by (simp add: c_simps)
  have "int_digits (adv 1 b) (v * 10 + digit_val c)
      = (foldl (\<lambda>v c. v * 10 + digit_val c) (v * 10 + digit_val c) ds, adv (length ds) (adv 1 b))"
    using Cons.prems d at_text_Cons [of b c "ds @ z"] by (intro Cons.IH) auto
  with c show ?case
    using Cons.prems by (subst int_digits.simps) (simp add: at_peekb at_getb)
qed

lemma int_part_zero:
  assumes "at_text b (ds @ z)" "int_part ds" "\<not> isdigit (deref z)"
  shows "\<not> (peekb b = CHR ''0'' \<and> isdigit (peekb_off b 1))"
  using assms by (cases ds) (auto simp: int_part_def at_peekb at_peekb_off drop_Suc)

lemma int_part_digit: "int_part ds \<Longrightarrow> isdigit (deref (ds @ z))"
  by (cases ds) (auto simp: int_part_def)

definition int_text :: "bool \<Rightarrow> string \<Rightarrow> string" where
  "int_text neg ds = (if neg then CHR ''-'' # ds else ds)"

definition int_text_val :: "bool \<Rightarrow> string \<Rightarrow> int" where
  "int_text_val neg ds = (if neg then - dec_val ds else dec_val ds)"

lemma at_get_int:
  assumes "at_text b (int_text neg ds @ z)" "int_part ds" "dec_val ds < 9223372036854775808" "\<not> isdigit (deref z)"
  shows "get_int b res =
     (False, res\<lparr>val_u := Val_int (int_text_val neg ds), val_float := Double_of_long (int_text_val neg ds)\<rparr>,
      adv (length (int_text neg ds)) b)"
proof -
  define b' where "b' = (if neg then adv 1 b else b)"
  have at: "at_text b' (ds @ z)"
    using assms(1) at_text_Cons [of b "CHR ''-''" "ds @ z"] by (auto simp: b'_def int_text_def split: if_splits)
  have e: "eatb b (CHR ''-'') = (neg, b')"
    using assms(1) int_part_digit [OF assms(2), of z]
    by (auto simp: at_eatb int_text_def b'_def)
  have i: "int_digits b' 0 = (dec_val ds, adv (length ds) b')"
    using at_int_digits [OF at, of 0] assms(2-4) by (simp add: int_part_def dec_val_def)
  have "0 \<le> dec_val ds"
    using dec_fold_ge [of 0 ds] assms(2) by (simp add: dec_val_def int_part_def)
  then have c: "c_long (- dec_val ds) = - dec_val ds"
    using assms(3) by (simp add: c_simps)
  have "get_int b res =
     (False, res\<lparr>val_u := Val_int (int_text_val neg ds), val_float := Double_of_long (int_text_val neg ds)\<rparr>,
      adv (length ds) b')"
    using int_part_zero [OF at assms(2,4)] int_part_digit [OF assms(2), of z] at_peekb [OF at]
    by (auto simp: get_int_def e i c Let_def int_text_val_def)
  then show ?thesis by (simp add: b'_def int_text_def)
qed

lemma at_skip_digits:
  "at_text b (ds @ z) \<Longrightarrow> list_all isdigit ds \<Longrightarrow> \<not> isdigit (deref z) \<Longrightarrow> skip_digits b = adv (length ds) b"
proof (induction ds arbitrary: b)
  case Nil
  then show ?case by (subst skip_digits.simps) (simp add: at_peekb)
next
  case (Cons c ds)
  then have "skip_digits (adv 1 b) = adv (length ds) (adv 1 b)"
    using at_text_Cons [of b c "ds @ z"] by auto
  with Cons.prems show ?case by (subst skip_digits.simps) (simp add: at_peekb at_getb)
qed

lemma at_eat_digits:
  "at_text b (ds @ z) \<Longrightarrow> digits ds \<Longrightarrow> \<not> isdigit (deref z) \<Longrightarrow> eat_digits b = (False, adv (length ds) b)"
  using at_skip_digits [of b ds z] by (cases ds) (auto simp: eat_digits_def digits_def at_peekb)

lemma at_eatb2:
  "at_text b t \<Longrightarrow> c \<noteq> NUL \<Longrightarrow> d \<noteq> NUL
    \<Longrightarrow> eatb2 b c d = (if deref t = c \<or> deref t = d then (True, adv 1 b) else (False, b))"
  by (cases t) (auto simp: eatb2_def at_peekb at_getb)

lemma at_get_exponent:
  assumes "at_text b (ex @ z)" "exponent ex" "\<not> isdigit (deref z)"
  shows "get_exponent (adv 1 b) = (False, adv (length ex) b)"
proof -
  obtain c t where ex: "ex = c # t" using assms(2) by (cases ex) (auto simp: exponent_def)
  have at: "at_text (adv 1 b) (t @ z)" using assms(1) ex at_text_Cons by simp
  show ?thesis
  proof (cases "digits t")
    case True
    then have "isdigit (deref (t @ z))" by (cases t) (auto simp: digits_def)
    then show ?thesis
      using at_eat_digits [OF at True assms(3)] at by (auto simp: get_exponent_def at_eatb2 ex)
  next
    case False
    then obtain d u where t: "t = d # u" "d = CHR ''+'' \<or> d = CHR ''-''" "digits u"
      using assms(2) by (cases t) (auto simp: exponent_def ex)
    then show ?thesis
      using at_eat_digits [OF at_text_Cons, of "adv 1 b" d u z] at assms(3)
      by (auto simp: get_exponent_def at_eatb2 ex)
  qed
qed

lemma exponent_hd: "exponent ex \<Longrightarrow> deref (ex @ z) = CHR ''e'' \<or> deref (ex @ z) = CHR ''E''"
  by (cases ex) (auto simp: exponent_def)

text \<open>What may follow a number.\<close>

definition num_follow :: "string \<Rightarrow> bool" where
  "num_follow z \<longleftrightarrow> \<not> isdigit (deref z) \<and> deref z \<noteq> CHR ''e'' \<and> deref z \<noteq> CHR ''E''"

lemma at_fraction:
  assumes "at_text b (fr @ z)" "fraction fr" "\<not> isdigit (deref z)"
  shows "getb b = (CHR ''.'', adv 1 b) \<and> eat_digits (adv 1 b) = (False, adv (length fr) b)"
proof -
  obtain u where fr: "fr = CHR ''.'' # u" "digits u" using assms(2) by (cases fr) (auto simp: fraction_def)
  then show ?thesis
    using at_eat_digits [OF at_text_Cons, of b "CHR ''.''" u z] assms(1,3) by (simp add: at_getb)
qed

lemma at_get_fraction_fr:
  assumes "at_text b (fr @ z)" "fraction fr" "num_follow z"
  shows "get_fraction b = (False, adv (length fr) b)"
  using at_fraction [OF assms(1,2)] assms(3) at_eatb2 [OF at_text_append [OF assms(1)], of "CHR ''e''" "CHR ''E''"]
  by (auto simp: get_fraction_def num_follow_def)

lemma at_get_fraction_ex:
  assumes "at_text b (ex @ z)" "exponent ex" "num_follow z"
  shows "get_fraction b = (False, adv (length ex) b)"
proof -
  obtain c u where ex: "ex = c # u" using assms(2) by (cases ex) (auto simp: exponent_def)
  then show ?thesis
    using at_get_exponent [OF assms(1,2)] exponent_hd [OF assms(2), of z] assms
    by (auto simp: get_fraction_def num_follow_def at_getb)
qed

lemma at_get_fraction_fr_ex:
  assumes "at_text b (fr @ ex @ z)" "fraction fr" "exponent ex" "num_follow z"
  shows "get_fraction b = (False, adv (length fr + length ex) b)"
proof -
  have "\<not> isdigit (deref (ex @ z))" using exponent_hd [OF assms(3), of z] by auto
  note f = at_fraction [OF assms(1,2) this]
  show ?thesis
    using f at_eatb2 [OF at_text_append [OF assms(1)], of "CHR ''e''" "CHR ''E''"] exponent_hd [OF assms(3), of z]
      at_get_exponent [OF at_text_append [OF assms(1)] assms(3)] assms(4)
    by (auto simp: get_fraction_def num_follow_def)
qed

lemma at_take: "at_text b (t @ z) \<Longrightarrow> take (length t) (drop (off b) (json b)) = t"
proof -
  assume "at_text b (t @ z)"
  then have "take (length t) (drop (off b) (take (len b) (json b))) = t"
    and "length t \<le> len b - off b"
    using at_text_len [of b "t @ z"] by (simp_all add: at_text_def)
  then show ?thesis by (simp add: drop_take min_def)
qed

lemma at_get_float_parts:
  assumes "at_text b (sg @ ds @ f @ z)" "sg = [] \<or> sg = ''-''" "int_part ds" "\<not> isdigit (deref (f @ z))"
    and "\<And>b'. at_text b' (f @ z) \<Longrightarrow> get_fraction b' = (False, adv (length f) b')"
  shows "get_float b res =
     (False, res\<lparr>val_float := Double_strtod (sg @ ds @ f)\<rparr>, adv (length (sg @ ds @ f)) b)"
proof -
  have s: "snd (eatb b (CHR ''-'')) = adv (length sg) b"
    using assms(1,2) int_part_digit [OF assms(3), of "f @ z"] by (auto simp: at_eatb)
  have at: "at_text (adv (length sg) b) (ds @ f @ z)"
    using assms(1) by (rule at_text_append)
  have d: "eat_digits (adv (length sg) b) = (False, adv (length sg + length ds) b)"
    using at_eat_digits [OF at _ assms(4)] assms(3) by (simp add: int_part_def digits_def)
  have f: "get_fraction (adv (length sg + length ds) b) = (False, adv (length sg + length ds + length f) b)"
    using assms(5) [OF at_text_append [OF at]] by simp
  have t: "take (length sg + (length ds + length f)) (drop (off b) (json b)) = sg @ ds @ f"
    using at_take [of b "sg @ ds @ f" z] assms(1) by simp
  show ?thesis
    using int_part_zero [OF at assms(3,4)] by (auto simp: get_float_def s d f t Let_def add.assoc)
qed

lemma at_get_float:
  assumes "float_text t" "at_text b (t @ z)" "num_follow z"
  shows "get_float b res = (False, res\<lparr>val_float := Double_strtod t\<rparr>, adv (length t) b)"
  using assms(1)
proof cases
  case (1 sg ds fr)
  then have "\<not> isdigit (deref (fr @ z))" by (cases fr) (auto simp: fraction_def)
  with 1 show ?thesis
    using at_get_float_parts [of b sg ds fr z res] at_get_fraction_fr [of _ fr z] assms(2,3) by simp
next
  case (2 sg ds ex)
  then have "\<not> isdigit (deref (ex @ z))" using exponent_hd [of ex z] by auto
  with 2 show ?thesis
    using at_get_float_parts [of b sg ds ex z res] at_get_fraction_ex [of _ ex z] assms(2,3) by simp
next
  case (3 sg ds fr ex)
  then have "\<not> isdigit (deref ((fr @ ex) @ z))" by (cases fr) (auto simp: fraction_def)
  with 3 show ?thesis
    using at_get_float_parts [of b sg ds "fr @ ex" z res] at_get_fraction_fr_ex [of _ fr ex z] assms(2,3) by simp
qed

text \<open>The type \<open>next_num_type\<close> sees.\<close>

fun num_type :: "string \<Rightarrow> ujson_type" where
  "num_type [] = UJSON_INT"
| "num_type (c # s) =
     (if c = NUL \<or> c = CHR '','' then UJSON_INT
      else if c = CHR ''.'' \<or> c = CHR ''e'' \<or> c = CHR ''E'' then UJSON_FLOAT
      else num_type s)"

lemma at_next_num_type:
  assumes "at_text b t"
  shows "next_num_type b = num_type t"
proof -
  have "num_type_loop b i = num_type (drop i t)" for i
  proof (induction "length t - i" arbitrary: i)
    case 0
    then show ?case by (subst num_type_loop.simps) (simp add: at_peekb_off [OF assms])
  next
    case (Suc n)
    then have "drop i t = t ! i # drop (Suc i) t" by (simp add: Cons_nth_drop_Suc)
    with Suc show ?case by (subst num_type_loop.simps) (simp add: at_peekb_off [OF assms])
  qed
  from this [of 0] show ?thesis by (simp add: next_num_type_def)
qed

lemma num_type_digits: "list_all isdigit ds \<Longrightarrow> num_type (ds @ z) = num_type z"
  by (induction ds) auto

lemma num_type_int: "int_part ds \<Longrightarrow> num_type (int_text neg ds @ z) = num_type z"
  by (simp add: int_text_def int_part_def num_type_digits)

lemma num_type_float: "float_text t \<Longrightarrow> num_type (t @ z) = UJSON_FLOAT"
proof (induction rule: float_text.induct)
  case (1 sg ds fr)
  then show ?case by (cases fr) (auto simp: fraction_def int_part_def num_type_digits)
next
  case (2 sg ds ex)
  then show ?case by (cases ex) (auto simp: exponent_def int_part_def num_type_digits)
next
  case (3 sg ds fr ex)
  then show ?case by (cases fr) (auto simp: fraction_def int_part_def num_type_digits)
qed

lemma float_text_hd: "float_text t \<Longrightarrow> deref (t @ z) = CHR ''-'' \<or> isdigit (deref (t @ z))"
  by (induction rule: float_text.induct) (auto simp: int_part_digit)

lemma int_text_hd: "int_part ds \<Longrightarrow> deref (int_text neg ds @ z) = CHR ''-'' \<or> isdigit (deref (int_text neg ds @ z))"
  by (auto simp: int_text_def int_part_digit)

section \<open>Ids\<close>

lemma at_id_loop:
  "at_text b (s @ CHR 0x22 # z) \<Longrightarrow> CHR 0x22 \<notin> set s \<Longrightarrow> length p + length s < n
    \<Longrightarrow> id_loop b p n = (Inr (p @ s), adv (length s + 1) b)"
proof (induction s arbitrary: b p)
  case Nil
  then show ?case by (subst id_loop.simps) (simp add: at_buf_empty at_peekb at_getb)
next
  case (Cons c s)
  then have "id_loop (adv 1 b) (p @ [c]) n = (Inr ((p @ [c]) @ s), adv (length s + 1) (adv 1 b))"
    using at_text_Cons [of b c "s @ CHR 0x22 # z"] by (intro Cons.IH) auto
  with Cons.prems show ?case by (subst id_loop.simps) (auto simp: at_buf_empty at_peekb at_getb)
qed

lemma not_ws [simp]:
  "\<not> is_ws NUL" "\<not> is_ws (CHR 0x22)" "\<not> is_ws (CHR '':'')" "\<not> is_ws (CHR '','')" "\<not> is_ws (CHR ''{'')" "\<not> is_ws (CHR ''}'')"
  "\<not> is_ws (CHR ''['')" "\<not> is_ws (CHR '']'')" "\<not> is_ws (CHR ''-'')" "\<not> is_ws (CHR ''n'')" "\<not> is_ws (CHR ''t'')" "\<not> is_ws (CHR ''f'')"
  by (simp_all add: is_ws_def)

text \<open>A member up to the value: the ID and the colon.\<close>

definition id_text :: "string \<Rightarrow> string \<Rightarrow> string" where
  "id_text s w = CHR 0x22 # s @ CHR 0x22 # w @ '':''"

definition id_ok :: "string \<Rightarrow> bool" where
  "id_ok s \<longleftrightarrow> CHR 0x22 \<notin> set s \<and> length s < UJSON_ID_MAX"

lemma at_copy_id_str:
  assumes "at_text b (id_text s w @ z)" "ws w" "id_ok s"
  shows "copy_id_str b UJSON_ID_MAX = (False, Some s, adv (length (id_text s w)) b)"
proof -
  have at1: "at_text (adv 1 b) (s @ CHR 0x22 # w @ CHR '':'' # z)"
    using assms(1) at_text_Cons [of b "CHR 0x22"] by (simp add: id_text_def)
  have at2: "at_text (adv (length s + 2) b) (w @ CHR '':'' # z)"
    using at_text_append [of "adv 1 b" "s @ [CHR 0x22]" "w @ CHR '':'' # z"] at1 by simp
  have at3: "at_text (adv (length s + 2 + length w) b) (CHR '':'' # z)"
    using at_text_append [OF at2] by simp
  have "id_loop (adv 1 b) [] UJSON_ID_MAX = (Inr s, adv (length s + 2) b)"
    using at_id_loop [OF at1, of "[]" UJSON_ID_MAX] assms(3) by (simp add: id_ok_def)
  then show ?thesis
    using assms(1) at_eatws [OF at2 assms(2)] at_eatb [OF at3] at_eatws0 [of b "id_text s w @ z"]
    by (simp add: copy_id_str_def id_text_def at_eatb)
qed

section \<open>The JSON grammar\<close>

datatype jvalue =
    J_null | J_bool bool | J_int int | J_float string | J_str string
  | J_arr "jvalue list" | J_obj "(string \<times> jvalue) list"

text \<open>Values and their texts; the texts of elements and members include the closing bracket.\<close>

inductive json_value :: "jvalue \<Rightarrow> string \<Rightarrow> bool"
  and json_elems :: "jvalue list \<Rightarrow> string \<Rightarrow> bool"
  and json_members :: "(string \<times> jvalue) list \<Rightarrow> string \<Rightarrow> bool" where
  null: "json_value J_null ''null''"
| true: "json_value (J_bool True) ''true''"
| false: "json_value (J_bool False) ''false''"
| int: "int_part ds \<Longrightarrow> dec_val ds < 9223372036854775808
    \<Longrightarrow> json_value (J_int (int_text_val neg ds)) (int_text neg ds)"
| float: "float_text t \<Longrightarrow> json_value (J_float t) t"
| str: "str_body t s \<Longrightarrow> json_value (J_str s) (CHR 0x22 # t @ [CHR 0x22])"
| arr0: "ws w \<Longrightarrow> json_value (J_arr []) (''['' @ w @ '']'')"
| arr: "ws w \<Longrightarrow> json_elems vs t \<Longrightarrow> json_value (J_arr vs) (''['' @ w @ t)"
| obj0: "ws w \<Longrightarrow> json_value (J_obj []) (''{'' @ w @ ''}'')"
| obj: "ws w \<Longrightarrow> json_members ms t \<Longrightarrow> json_value (J_obj ms) (''{'' @ w @ t)"
| elem: "json_value v t \<Longrightarrow> ws w \<Longrightarrow> json_elems [v] (t @ w @ '']'')"
| elems: "json_value v t \<Longrightarrow> ws w \<Longrightarrow> ws w' \<Longrightarrow> json_elems vs t'
    \<Longrightarrow> json_elems (v # vs) (t @ w @ '','' @ w' @ t')"
| memb: "id_ok k \<Longrightarrow> ws w1 \<Longrightarrow> ws w2 \<Longrightarrow> json_value v t \<Longrightarrow> ws w
    \<Longrightarrow> json_members [(k, v)] (id_text k w1 @ w2 @ t @ w @ ''}'')"
| membs: "id_ok k \<Longrightarrow> ws w1 \<Longrightarrow> ws w2 \<Longrightarrow> json_value v t \<Longrightarrow> ws w \<Longrightarrow> ws w' \<Longrightarrow> json_members ms t'
    \<Longrightarrow> json_members ((k, v) # ms) (id_text k w1 @ w2 @ t @ w @ '','' @ w' @ t')"

fun nest :: "jvalue \<Rightarrow> nat" where
  "nest (J_arr vs) = Suc (foldr max (map nest vs) 0)"
| "nest (J_obj ms) = Suc (foldr max (map (\<lambda>(k, v). nest v) ms) 0)"
| "nest _ = 0"

text \<open>The strings of a value fit into a buffer.\<close>

fun strs_fit :: "nat \<Rightarrow> jvalue \<Rightarrow> bool" where
  "strs_fit n (J_str s) \<longleftrightarrow> length s + 1 < n"
| "strs_fit n (J_arr vs) \<longleftrightarrow> list_all (strs_fit n) vs"
| "strs_fit n (J_obj ms) \<longleftrightarrow> list_all (\<lambda>(k, v). strs_fit n v) ms"
| "strs_fit n _ \<longleftrightarrow> True"

section \<open>Reading a document\<close>

text \<open>The loops a client of the reader writes with \<open>UJSON_ARR_FOREACH\<close> and
  \<open>UJSON_OBJ_FOREACH\<close> to collect a document; \<open>v0\<close> is the value every loop starts with.\<close>

definition leaf_of :: "ujson_val \<Rightarrow> jvalue" where
  "leaf_of res =
     (case (vtype res, val_u res) of
        (UJSON_BOOL, Val_bool i) \<Rightarrow> J_bool (i \<noteq> 0)
      | (UJSON_INT, Val_int i) \<Rightarrow> J_int i
      | (UJSON_STR, Val_str (Some s)) \<Rightarrow> J_str s
      | (UJSON_FLOAT, _) \<Rightarrow> (case val_float res of Double_strtod t \<Rightarrow> J_float t | _ \<Rightarrow> J_null)
      | _ \<Rightarrow> J_null)"

fun read_obj :: "nat \<Rightarrow> ujson_val \<Rightarrow> ujson_reader \<Rightarrow> ((string \<times> jvalue) list \<times> ujson_reader) option"
  and read_arr :: "nat \<Rightarrow> ujson_val \<Rightarrow> ujson_reader \<Rightarrow> (jvalue list \<times> ujson_reader) option"
  and obj_items :: "nat \<Rightarrow> ujson_val \<Rightarrow> ujson_val \<Rightarrow> ujson_reader \<Rightarrow> ((string \<times> jvalue) list \<times> ujson_reader) option"
  and arr_items :: "nat \<Rightarrow> ujson_val \<Rightarrow> ujson_val \<Rightarrow> ujson_reader \<Rightarrow> (jvalue list \<times> ujson_reader) option" where
  "read_obj 0 v0 b = None"
| "read_obj (Suc n) v0 b = (let (_, res, b) = ujson_obj_first b v0 in obj_items n v0 res b)"
| "read_arr 0 v0 b = None"
| "read_arr (Suc n) v0 b = (let (_, res, b) = ujson_arr_first b v0 in arr_items n v0 res b)"
| "obj_items 0 v0 res b = None"
| "obj_items (Suc n) v0 res b =
     (if \<not> ujson_val_valid res then Some ([], b) else
      case (case vtype res of
              UJSON_OBJ \<Rightarrow> map_option (\<lambda>r. (J_obj (fst r), snd r)) (read_obj n v0 b)
            | UJSON_ARR \<Rightarrow> map_option (\<lambda>r. (J_arr (fst r), snd r)) (read_arr n v0 b)
            | _ \<Rightarrow> Some (leaf_of res, b)) of
        None \<Rightarrow> None
      | Some (v, b) \<Rightarrow>
          (let (_, res', b) = ujson_obj_next b res in
           map_option (\<lambda>r. ((val_id res, v) # fst r, snd r)) (obj_items n v0 res' b)))"
| "arr_items 0 v0 res b = None"
| "arr_items (Suc n) v0 res b =
     (if \<not> ujson_val_valid res then Some ([], b) else
      case (case vtype res of
              UJSON_OBJ \<Rightarrow> map_option (\<lambda>r. (J_obj (fst r), snd r)) (read_obj n v0 b)
            | UJSON_ARR \<Rightarrow> map_option (\<lambda>r. (J_arr (fst r), snd r)) (read_arr n v0 b)
            | _ \<Rightarrow> Some (leaf_of res, b)) of
        None \<Rightarrow> None
      | Some (v, b) \<Rightarrow>
          (let (_, res', b) = ujson_arr_next b res in
           map_option (\<lambda>r. (v # fst r, snd r)) (arr_items n v0 res' b)))"

text \<open>The value of the current member or element.\<close>

definition read_item :: "nat \<Rightarrow> ujson_val \<Rightarrow> ujson_val \<Rightarrow> ujson_reader \<Rightarrow> (jvalue \<times> ujson_reader) option" where
  "read_item n v0 res b =
     (case vtype res of
        UJSON_OBJ \<Rightarrow> map_option (\<lambda>r. (J_obj (fst r), snd r)) (read_obj n v0 b)
      | UJSON_ARR \<Rightarrow> map_option (\<lambda>r. (J_arr (fst r), snd r)) (read_arr n v0 b)
      | _ \<Rightarrow> Some (leaf_of res, b))"

lemma items_Suc:
  "ujson_val_valid res \<Longrightarrow> obj_items (Suc n) v0 res b =
     (case read_item n v0 res b of
        None \<Rightarrow> None
      | Some (v, b) \<Rightarrow>
          (let (_, res', b) = ujson_obj_next b res in
           map_option (\<lambda>r. ((val_id res, v) # fst r, snd r)) (obj_items n v0 res' b)))"
  "ujson_val_valid res \<Longrightarrow> arr_items (Suc n) v0 res b =
     (case read_item n v0 res b of
        None \<Rightarrow> None
      | Some (v, b) \<Rightarrow>
          (let (_, res', b) = ujson_arr_next b res in
           map_option (\<lambda>r. (v # fst r, snd r)) (arr_items n v0 res' b)))"
  by (simp_all add: read_item_def)

text \<open>Skipping is reading without a buffer.\<close>

lemma skip_read:
  "obj_skip_fuel n b = map_option (\<lambda>r. (False, snd r)) (read_obj n val_zero b)"
  "arr_skip_fuel n b = map_option (\<lambda>r. (False, snd r)) (read_arr n val_zero b)"
  "obj_skip_loop n res b = map_option (\<lambda>r. (False, snd r)) (obj_items n val_zero res b)"
  "arr_skip_loop n res b = map_option (\<lambda>r. (False, snd r)) (arr_items n val_zero res b)"
  by (induction n arbitrary: b res)
    (auto simp: Let_def option.map_comp comp_def split: prod.split ujson_type.split option.split)

lemma read_mono:
  "read_obj n v0 b = Some r \<Longrightarrow> read_obj (Suc n) v0 b = Some r"
  "read_arr n v0 b = Some r' \<Longrightarrow> read_arr (Suc n) v0 b = Some r'"
  "obj_items n v0 res b = Some r \<Longrightarrow> obj_items (Suc n) v0 res b = Some r"
  "arr_items n v0 res b = Some r' \<Longrightarrow> arr_items (Suc n) v0 res b = Some r'"
proof (induction n arbitrary: b res r r')
  case (Suc n)
  {
    case 1
    then show ?case using Suc.IH(3) by (auto simp: Let_def split: prod.splits simp del: obj_items.simps)
  next
    case 2
    then show ?case using Suc.IH(4) by (auto simp: Let_def split: prod.splits simp del: arr_items.simps)
  next
    case 3
    have "read_item n v0 res b = Some x \<Longrightarrow> read_item (Suc n) v0 res b = Some x" for x
      using Suc.IH(1,2) by (auto simp: read_item_def split: ujson_type.splits simp del: read_obj.simps read_arr.simps)
    with 3 show ?case
      using Suc.IH(3)
      by (cases "ujson_val_valid res") (auto simp: items_Suc Let_def split: prod.splits option.splits simp del: obj_items.simps(2), simp)
  next
    case 4
    have "read_item n v0 res b = Some x \<Longrightarrow> read_item (Suc n) v0 res b = Some x" for x
      using Suc.IH(1,2) by (auto simp: read_item_def split: ujson_type.splits simp del: read_obj.simps read_arr.simps)
    with 4 show ?case
      using Suc.IH(4)
      by (cases "ujson_val_valid res") (auto simp: items_Suc Let_def split: prod.splits option.splits simp del: arr_items.simps(2), simp)
  }
qed auto

lemma read_mono_le:
  "m \<le> n \<Longrightarrow> read_obj m v0 b = Some r \<Longrightarrow> read_obj n v0 b = Some r"
  "m \<le> n \<Longrightarrow> read_arr m v0 b = Some r' \<Longrightarrow> read_arr n v0 b = Some r'"
  "m \<le> n \<Longrightarrow> obj_items m v0 res b = Some r \<Longrightarrow> obj_items n v0 res b = Some r"
  "m \<le> n \<Longrightarrow> arr_items m v0 res b = Some r' \<Longrightarrow> arr_items n v0 res b = Some r'"
  by (induction rule: dec_induct; blast intro: read_mono)+
section \<open>One step of a loop\<close>

definition same_buf :: "ujson_val \<Rightarrow> ujson_val \<Rightarrow> bool" where
  "same_buf v0 res \<longleftrightarrow> buf_size res = buf_size v0 \<and> (vbuf res = None \<longleftrightarrow> vbuf v0 = None)"

lemma same_buf_simps [simp]:
  "same_buf v0 v0" "same_buf v0 (res\<lparr>vtype := t\<rparr>) = same_buf v0 res" "same_buf v0 (res\<lparr>val_id := s\<rparr>) = same_buf v0 res"
  by (simp_all add: same_buf_def)

fun is_leaf :: "jvalue \<Rightarrow> bool" where
  "is_leaf (J_arr _) \<longleftrightarrow> False"
| "is_leaf (J_obj _) \<longleftrightarrow> False"
| "is_leaf _ \<longleftrightarrow> True"

text \<open>A value is delivered in the \<open>ujson_val\<close> (a string only where there is a buffer).\<close>

definition delivers :: "ujson_val \<Rightarrow> ujson_val \<Rightarrow> ujson_val \<Rightarrow> jvalue \<Rightarrow> bool" where
  "delivers v0 res res' v \<longleftrightarrow>
     ujson_val_valid res' \<and> vtype res' \<noteq> UJSON_ARR \<and> vtype res' \<noteq> UJSON_OBJ \<and> same_buf v0 res'
     \<and> val_id res' = val_id res \<and> (vbuf v0 \<noteq> None \<longrightarrow> leaf_of res' = v)"

lemma at_next_type:
  assumes "at_text b (w @ t)" "ws w" "t \<noteq> []" "\<not> is_ws (deref t)"
  shows "ujson_next_type b =
     (if deref t = CHR ''{'' then (UJSON_OBJ, adv (length w) b)
      else if deref t = CHR ''['' then (UJSON_ARR, adv (length w) b)
      else if deref t = CHR 0x22 then (UJSON_STR, adv (length w) b)
      else if deref t = CHR ''-'' \<or> isdigit (deref t) then (num_type t, adv (length w) b)
      else if deref t = CHR ''f'' \<or> deref t = CHR ''t'' then (UJSON_BOOL, adv (length w) b)
      else if deref t = CHR ''n'' then (UJSON_NULL, adv (length w) b)
      else (UJSON_VOID, ujson_err (adv (length w) b) ''Expected object, array, number or string''))"
  using at_eatws [OF assms(1,2,4)] at_peekb [OF at_text_append [OF assms(1)]]
    at_next_num_type [OF at_text_append [OF assms(1)]] assms(3)
  by (simp add: ujson_next_type_def Let_def)

lemma isdigit_not_special:
  "isdigit c \<Longrightarrow> c \<noteq> CHR ''{'' \<and> c \<noteq> CHR ''['' \<and> c \<noteq> CHR 0x22 \<and> c \<noteq> CHR '']'' \<and> c \<noteq> CHR ''}'' \<and> \<not> is_ws c"
  by (auto simp: isdigit_def char_between_def is_ws_def)

lemma at_get_value_num:
  assumes "at_text b (w @ t @ z)" "ws w" "deref (t @ z) = CHR ''-'' \<or> isdigit (deref (t @ z))"
  shows "get_value b res = (if num_type (t @ z) = UJSON_INT
     then value_done (get_int (adv (length w) b) (res\<lparr>vtype := UJSON_INT\<rparr>))
     else value_done (get_float (adv (length w) b) (res\<lparr>vtype := UJSON_FLOAT\<rparr>)))"
proof -
  have "t @ z \<noteq> []" using assms(3) by (cases "t @ z") auto
  moreover have "num_type u \<noteq> UJSON_INT \<longrightarrow> num_type u = UJSON_FLOAT" for u
    by (induction u) auto
  from this [of "t @ z"] have "num_type (t @ z) \<noteq> UJSON_INT \<Longrightarrow> num_type (t @ z) = UJSON_FLOAT" by simp
  moreover have "\<not> is_ws (deref (t @ z))" using assms(3) isdigit_not_special by fastforce
  ultimately show ?thesis
    using at_next_type [OF assms(1,2)] assms(3) isdigit_not_special [of "deref (t @ z)"]
    by (cases "num_type (t @ z) = UJSON_INT") (auto simp: get_value_def)
qed

lemma at_get_value_leaf:
  assumes "json_value v t" "is_leaf v" "at_text b (w @ t @ z)" "ws w" "num_follow z" "num_type z = UJSON_INT"
    and "same_buf v0 res" "vbuf v0 \<noteq> None \<longrightarrow> strs_fit (buf_size v0) v"
  shows "\<exists>res'. get_value b res = (True, res', adv (length w + length t) b) \<and> delivers v0 res res' v"
  using assms(1)
proof (cases rule: json_value.cases)
  case null
  then show ?thesis
    using assms at_next_type [OF assms(3,4)] at_eatstr [OF at_text_append [OF assms(3)]]
    by (simp add: get_value_def get_null_def value_done_def delivers_def ujson_val_valid_def leaf_of_def del: eatstr.simps)
next
  case true
  then show ?thesis
    using assms at_next_type [OF assms(3,4)] at_eatstr [OF at_text_append [OF assms(3)]] at_peekb [OF at_text_append [OF assms(3)]]
    by (simp add: get_value_def get_bool_def value_done_def delivers_def ujson_val_valid_def leaf_of_def same_buf_def del: eatstr.simps)
next
  case false
  then show ?thesis
    using assms at_next_type [OF assms(3,4)] at_eatstr [OF at_text_append [OF assms(3)]] at_peekb [OF at_text_append [OF assms(3)]]
    by (simp add: get_value_def get_bool_def value_done_def delivers_def ujson_val_valid_def leaf_of_def same_buf_def del: eatstr.simps)
next
  case (int ds neg)
  then show ?thesis
    using assms at_get_value_num [OF assms(3,4)] int_text_hd [of ds neg z]
      at_get_int [of "adv (length w) b" neg ds z] at_text_append [OF assms(3)]
    by (simp add: num_type_int num_follow_def value_done_def delivers_def ujson_val_valid_def leaf_of_def same_buf_def)
next
  case float
  then show ?thesis
    using assms at_get_value_num [OF assms(3,4)] float_text_hd [of t z]
      at_get_float [OF _ at_text_append [OF assms(3)] assms(5)]
    by (simp add: num_type_float value_done_def delivers_def ujson_val_valid_def leaf_of_def same_buf_def)
next
  case (str u s)
  have "copy_str (adv (length w) b) (vbuf res) (buf_size res)
      = (False, map_option (\<lambda>_. s) (vbuf res), adv (length u + 2) (adv (length w) b))"
    using at_text_append [OF assms(3)] str assms(7,8) by (intro at_copy_str) (auto simp: same_buf_def)
  then show ?thesis
    using assms str at_next_type [OF assms(3,4)]
    by (cases "vbuf res")
      (auto simp: get_value_def value_done_def delivers_def ujson_val_valid_def leaf_of_def same_buf_def)
qed (use assms(2) in auto)

lemma at_get_value_nested:
  assumes "at_text b (w @ c # t)" "ws w" "c = CHR ''['' \<or> c = CHR ''{''"
  shows "get_value b res =
     (True, res\<lparr>vtype := (if c = CHR ''['' then UJSON_ARR else UJSON_OBJ)\<rparr>,
      (adv (length w) b)\<lparr>sub_off := off b + length w\<rparr>)"
  using assms at_next_type [OF assms(1,2)] by (auto simp: get_value_def)


text \<open>\<open>check_end\<close> also eats the white space, and a NUL, behind a closing bracket.\<close>

definition trail :: "string \<Rightarrow> nat" where
  "trail z = length (takeWhile is_ws z)
     + (let r = dropWhile is_ws z in if r \<noteq> [] \<and> hd r = NUL then 1 else 0)"

lemma trail_ws: "ws w \<Longrightarrow> \<not> is_ws c \<Longrightarrow> c \<noteq> NUL \<Longrightarrow> trail (w @ c # z) = length w"
  by (simp add: trail_def ws_def list_all_iff takeWhile_append2 dropWhile_append2)

text \<open>The reader moved by \<open>k\<close> bytes and has depth \<open>d\<close>.\<close>

definition moved :: "ujson_reader \<Rightarrow> nat \<Rightarrow> int \<Rightarrow> ujson_reader \<Rightarrow> bool" where
  "moved b k d b' \<longleftrightarrow>
     json b' = json b \<and> len b' = len b \<and> max_depth b' = max_depth b \<and> err b' = err b
     \<and> off b' = off b + k \<and> depth b' = d"

lemma moved_trans: "moved b k d b1 \<Longrightarrow> moved b1 k' d' b2 \<Longrightarrow> moved b (k + k') d' b2"
  by (auto simp: moved_def)

lemma moved_adv [simp]:
  "moved b k (depth b) (adv k b)" "moved b k d (adv k (b\<lparr>depth := d\<rparr>))" "moved b k (depth b) ((adv k b)\<lparr>sub_off := s\<rparr>)"
  by (auto simp: moved_def adv_def)

lemma moved_at: "at_text b (s @ t) \<Longrightarrow> moved b (length s) d b' \<Longrightarrow> at_text b' t"
  using at_text_append [of b s t] by (auto simp: moved_def at_text_def)

lemma at_trail:
  assumes "at_text b z"
  shows "snd (eatb (snd (eatws b)) NUL) = adv (trail z) b"
proof -
  define w where "w = takeWhile is_ws z"
  define r where "r = dropWhile is_ws z"
  have z: "z = w @ r" "ws w"
    by (auto simp: w_def r_def ws_def list_all_iff dest: set_takeWhileD)
  moreover have "\<not> is_ws (deref r)"
    unfolding r_def by (induction z) auto
  ultimately have e: "eatws b = (r = [], adv (length w) b)" "at_text (adv (length w) b) r"
    using assms at_eatws [of b w r] at_text_append [of b w r] by auto
  show ?thesis
    using e at_getb_empty [of "adv (length w) b"] at_getb [of "adv (length w) b" "hd r" "tl r"]
    by (cases r) (auto simp: eatb_def at_peekb trail_def w_def [symmetric] r_def [symmetric])
qed

lemma at_check_end_close:
  assumes "at_text b (w @ c # z)" "ws w" "\<not> is_ws c" "c \<noteq> NUL"
  shows "check_end b res c =
     (True, res\<lparr>vtype := UJSON_VOID\<rparr>, adv (length w + 1 + trail z) (b\<lparr>depth := c_uint (depth b - 1)\<rparr>))"
  using at_eatws [OF assms(1,2)] at_eatb [OF at_text_append [OF assms(1)] assms(4)] assms(3)
    at_trail [OF at_text_Cons [OF at_text_append [OF assms(1)]]]
  by (simp add: check_end_def)

lemma at_check_end_open:
  assumes "at_text b (w @ t)" "ws w" "t \<noteq> []" "\<not> is_ws (deref t)" "deref t \<noteq> c" "c \<noteq> NUL"
  shows "check_end b res c = (False, res, adv (length w) b)"
  using at_eatws [OF assms(1,2,4)] at_eatb [OF at_text_append [OF assms(1)] assms(6)] assms
  by (simp add: check_end_def)

lemma at_any_first:
  assumes "at_text b (c # z)" "\<not> is_ws c" "c \<noteq> NUL" "0 \<le> depth b" "depth b + 1 \<le> max_depth b" "max_depth b < 2 ^ 32"
  shows "any_first b c = (False, adv 1 (b\<lparr>depth := depth b + 1\<rparr>))"
  using at_eatws0 [OF assms(1)] at_eatb [OF assms(1,3)] assms(2,4-6)
  by (simp add: any_first_def Let_def c_simps)

lemma at_pre_next:
  assumes "at_text b (CHR '','' # w @ t)" "ws w" "t \<noteq> []" "\<not> is_ws (deref t)"
  shows "pre_next b res = (False, res, adv (1 + length w) b)"
  using at_eatb [OF assms(1)] at_eatws [OF at_text_Cons [OF assms(1)] assms(2,4)] assms(3)
  by (simp add: pre_next_def)

lemma at_check_err: "at_text b t \<Longrightarrow> check_err b res = (False, res)"
  by (simp add: check_err_def at_text_noerr)

lemmas step_defs = ujson_arr_first_def ujson_arr_next_def ujson_obj_first_def ujson_obj_next_def obj_pre_next_def arr_next_def

lemma first_end:
  assumes "at_text b (c # w @ e # z)" "ws w" "0 \<le> depth b" "depth b + 1 \<le> max_depth b" "max_depth b < 2 ^ 32"
  shows "c = CHR ''['' \<Longrightarrow> e = CHR '']'' \<Longrightarrow> \<exists>b'. ujson_arr_first b res = (False, res\<lparr>vtype := UJSON_VOID\<rparr>, b')
      \<and> moved b (length w + 2 + trail z) (depth b) b'"
    and "c = CHR ''{'' \<Longrightarrow> e = CHR ''}'' \<Longrightarrow> \<exists>b'. ujson_obj_first b res = (False, res\<lparr>vtype := UJSON_VOID\<rparr>, b')
      \<and> moved b (length w + 2 + trail z) (depth b) b'"
proof -
  let ?b = "adv 1 (b\<lparr>depth := depth b + 1\<rparr>)"
  have at: "at_text ?b (w @ e # z)" using at_text_Cons [of "b\<lparr>depth := depth b + 1\<rparr>"] assms(1) by simp
  have d: "c_uint (depth b) = depth b" using assms(3-5) by (simp add: c_simps)
  show "c = CHR ''['' \<Longrightarrow> e = CHR '']'' \<Longrightarrow> \<exists>b'. ujson_arr_first b res = (False, res\<lparr>vtype := UJSON_VOID\<rparr>, b')
      \<and> moved b (length w + 2 + trail z) (depth b) b'"
    "c = CHR ''{'' \<Longrightarrow> e = CHR ''}'' \<Longrightarrow> \<exists>b'. ujson_obj_first b res = (False, res\<lparr>vtype := UJSON_VOID\<rparr>, b')
      \<and> moved b (length w + 2 + trail z) (depth b) b'"
    using at_any_first [OF assms(1) _ _ assms(3-5)] at_check_end_close [OF at assms(2), of res] d at_check_err [OF assms(1)]
    by (auto simp: step_defs moved_def adv_def)
qed

lemma first_item:
  assumes "at_text b (c # w @ t)" "ws w" "t \<noteq> []" "\<not> is_ws (deref t)"
    and "0 \<le> depth b" "depth b + 1 \<le> max_depth b" "max_depth b < 2 ^ 32"
  shows "c = CHR ''['' \<Longrightarrow> deref t \<noteq> CHR '']'' \<Longrightarrow> \<exists>b'. ujson_arr_first b res = get_value b' res
      \<and> moved b (1 + length w) (depth b + 1) b'"
    and "c = CHR ''{'' \<Longrightarrow> deref t \<noteq> CHR ''}'' \<Longrightarrow> \<exists>b'. ujson_obj_first b res = obj_next b' res
      \<and> moved b (1 + length w) (depth b + 1) b'"
proof -
  let ?b = "adv 1 (b\<lparr>depth := depth b + 1\<rparr>)"
  have at: "at_text ?b (w @ t)" using at_text_Cons [of "b\<lparr>depth := depth b + 1\<rparr>"] assms(1) by simp
  show "c = CHR ''['' \<Longrightarrow> deref t \<noteq> CHR '']'' \<Longrightarrow> \<exists>b'. ujson_arr_first b res = get_value b' res
      \<and> moved b (1 + length w) (depth b + 1) b'"
    "c = CHR ''{'' \<Longrightarrow> deref t \<noteq> CHR ''}'' \<Longrightarrow> \<exists>b'. ujson_obj_first b res = obj_next b' res
      \<and> moved b (1 + length w) (depth b + 1) b'"
    using at_any_first [OF assms(1) _ _ assms(5-7)] at_check_end_open [OF at assms(2-4), of _ res] at_check_err [OF assms(1)]
    by (auto simp: step_defs)
qed

lemma next_end:
  assumes "at_text b (w @ e # z)" "ws w" "1 \<le> depth b" "depth b < 2 ^ 32"
  shows "e = CHR '']'' \<Longrightarrow> \<exists>b'. ujson_arr_next b res = (False, res\<lparr>vtype := UJSON_VOID\<rparr>, b')
      \<and> moved b (length w + 1 + trail z) (depth b - 1) b'"
    and "e = CHR ''}'' \<Longrightarrow> \<exists>b'. ujson_obj_next b res = (False, res\<lparr>vtype := UJSON_VOID\<rparr>, b')
      \<and> moved b (length w + 1 + trail z) (depth b - 1) b'"
  using at_check_end_close [OF assms(1,2), of res] at_check_err [OF assms(1)] at_text_noerr [OF assms(1)] assms(3,4)
  by (auto simp: step_defs moved_def adv_def c_simps)

lemma next_item:
  assumes "at_text b (w @ CHR '','' # w' @ t)" "ws w" "ws w'" "t \<noteq> []" "\<not> is_ws (deref t)"
  shows "\<exists>b'. ujson_arr_next b res = get_value b' res \<and> moved b (length w + 1 + length w') (depth b) b'"
    and "\<exists>b'. ujson_obj_next b res = obj_next b' res \<and> moved b (length w + 1 + length w') (depth b) b'"
proof -
  let ?b = "adv (length w + 1 + length w') b"
  have c: "check_end b res c = (False, res, adv (length w) b)" if "c = CHR '']'' \<or> c = CHR ''}''" for c
    using at_check_end_open [OF assms(1,2), of c res] that by auto
  have p: "pre_next (adv (length w) b) res = (False, res, ?b)"
    using at_pre_next [OF at_text_append [OF assms(1)] assms(3-5), of res] by simp
  have "ujson_arr_next b res = get_value ?b res" "ujson_obj_next b res = obj_next ?b res"
    by (simp_all add: step_defs c p at_check_err [OF assms(1)] at_text_noerr [OF assms(1)])
  then show "\<exists>b'. ujson_arr_next b res = get_value b' res \<and> moved b (length w + 1 + length w') (depth b) b'"
    "\<exists>b'. ujson_obj_next b res = obj_next b' res \<and> moved b (length w + 1 + length w') (depth b) b'"
    using moved_adv(1) by blast+
qed

lemma obj_next_id:
  "at_text b (id_text k w @ t) \<Longrightarrow> ws w \<Longrightarrow> id_ok k
    \<Longrightarrow> obj_next b res = get_value (adv (length (id_text k w)) b) (res\<lparr>val_id := k\<rparr>)"
  using at_copy_id_str [of b k w t] by (simp add: obj_next_def)


section \<open>Reading what the grammar describes\<close>

definition nests :: "jvalue list \<Rightarrow> nat" where
  "nests vs = foldr max (map nest vs) 0"

lemma nests_simps [simp]: "nests [] = 0" "nests (v # vs) = max (nest v) (nests vs)"
  by (simp_all add: nests_def)

lemma nest_simps [simp]: "nest (J_arr vs) = Suc (nests vs)" "nest (J_obj ms) = Suc (nests (map snd ms))"
  by (simp_all add: nests_def comp_def case_prod_unfold)

declare nest.simps(1,2) [simp del]

text \<open>There is room for \<open>d\<close> more levels.\<close>

definition room :: "ujson_reader \<Rightarrow> nat \<Rightarrow> bool" where
  "room b d \<longleftrightarrow> 0 \<le> depth b \<and> depth b + int d \<le> max_depth b \<and> max_depth b < 2 ^ 32"

definition buf_ok :: "ujson_val \<Rightarrow> jvalue list \<Rightarrow> bool" where
  "buf_ok v0 vs \<longleftrightarrow> (vbuf v0 = None \<or> list_all (strs_fit (buf_size v0)) vs)"

definition value_reads :: "ujson_val \<Rightarrow> jvalue \<Rightarrow> string \<Rightarrow> bool" where
  "value_reads v0 v t \<longleftrightarrow>
     (\<forall>b w z res. at_text b (w @ t @ z) \<longrightarrow> ws w \<longrightarrow> num_follow z \<longrightarrow> num_type z = UJSON_INT
        \<longrightarrow> same_buf v0 res \<longrightarrow> buf_ok v0 [v] \<longrightarrow> room b (nest v) \<longrightarrow>
        (\<exists>n res' b1 b2 v' k. get_value b res = (True, res', b1) \<and> ujson_val_valid res' \<and> same_buf v0 res'
           \<and> val_id res' = val_id res \<and> read_item n v0 res' b1 = Some (v', b2) \<and> (vbuf v0 \<noteq> None \<longrightarrow> v' = v)
           \<and> moved b (length w + length t + k) (depth b) b2 \<and> (k = 0 \<or> k = trail z)))"

definition elems_read :: "ujson_val \<Rightarrow> jvalue list \<Rightarrow> string \<Rightarrow> bool" where
  "elems_read v0 vs t \<longleftrightarrow>
     (\<forall>b z res. at_text b (t @ z) \<longrightarrow> num_type z = UJSON_INT
        \<longrightarrow> same_buf v0 res \<longrightarrow> buf_ok v0 vs \<longrightarrow> 1 \<le> depth b \<longrightarrow> room b (nests vs) \<longrightarrow>
        (\<exists>n res' b1 b2 vs'. get_value b res = (True, res', b1)
           \<and> arr_items n v0 res' b1 = Some (vs', b2) \<and> (vbuf v0 \<noteq> None \<longrightarrow> vs' = vs)
           \<and> moved b (length t + trail z) (depth b - 1) b2))"

definition members_read :: "ujson_val \<Rightarrow> (string \<times> jvalue) list \<Rightarrow> string \<Rightarrow> bool" where
  "members_read v0 ms t \<longleftrightarrow>
     (\<forall>b z res. at_text b (t @ z) \<longrightarrow> num_type z = UJSON_INT
        \<longrightarrow> same_buf v0 res \<longrightarrow> buf_ok v0 (map snd ms) \<longrightarrow> 1 \<le> depth b \<longrightarrow> room b (nests (map snd ms)) \<longrightarrow>
        (\<exists>n res' b1 b2 ms'. obj_next b res = (True, res', b1)
           \<and> obj_items n v0 res' b1 = Some (ms', b2) \<and> (vbuf v0 \<noteq> None \<longrightarrow> ms' = ms)
           \<and> moved b (length t + trail z) (depth b - 1) b2))"

lemma value_reads_leaf:
  assumes "json_value v t" "is_leaf v"
  shows "value_reads v0 v t"
  unfolding value_reads_def
proof (intro allI impI)
  fix b w z res
  assume a: "at_text b (w @ t @ z)" "ws w" "num_follow z" "num_type z = UJSON_INT" "same_buf v0 res" "buf_ok v0 [v]"
  obtain res' where r: "get_value b res = (True, res', adv (length w + length t) b)" "delivers v0 res res' v"
    using at_get_value_leaf [OF assms a(1-5)] a(6) by (auto simp: buf_ok_def)
  moreover have "read_item 0 v0 res' (adv (length w + length t) b) = Some (leaf_of res', adv (length w + length t) b)"
    using r(2) by (auto simp: read_item_def delivers_def split: ujson_type.splits)
  ultimately show "\<exists>n res' b1 b2 v' k. get_value b res = (True, res', b1) \<and> ujson_val_valid res' \<and> same_buf v0 res'
           \<and> val_id res' = val_id res \<and> read_item n v0 res' b1 = Some (v', b2) \<and> (vbuf v0 \<noteq> None \<longrightarrow> v' = v)
           \<and> moved b (length w + length t + k) (depth b) b2 \<and> (k = 0 \<or> k = trail z)"
    by (auto simp: delivers_def intro!: exI [of _ "0 :: nat"])
qed

text \<open>Behind a nested value the reader stands behind the white space.\<close>

lemma moved_to_close:
  assumes "at_text b (w @ t @ w1 @ c # z)" "ws w1" "\<not> is_ws c" "c \<noteq> NUL" "moved b (length w + length t + k) d b2"
    and "k = 0 \<or> k = trail (w1 @ c # z)"
  obtains w2 where "at_text b2 (w2 @ c # z)" "ws w2" "k + length w2 = length w1"
proof (cases "k = 0")
  case True
  then have "at_text b2 (w1 @ c # z)"
    using assms moved_at [of b "w @ t" "w1 @ c # z" d b2] by simp
  then show ?thesis using that [of w1] True assms(2) by simp
next
  case False
  then have k: "k = length w1" using assms trail_ws by simp
  then have "at_text b2 (c # z)"
    using assms moved_at [of b "w @ t @ w1" "c # z" d b2] by (simp add: add.assoc)
  then show ?thesis using that [of "[]"] k by simp
qed

lemma follow_simps:
  "ws w \<Longrightarrow> c = CHR '']'' \<or> c = CHR ''}'' \<or> c = CHR '','' \<Longrightarrow> num_follow (w @ c # z)"
  by (cases w) (auto simp: num_follow_def is_ws_def isdigit_def char_between_def)

lemma num_type_ws: "ws w \<Longrightarrow> num_type (w @ z) = num_type z"
  by (induction w) (auto simp: is_ws_def)

lemma num_type_close:
  "ws w \<Longrightarrow> num_type z = UJSON_INT \<Longrightarrow> c = CHR '']'' \<or> c = CHR ''}'' \<or> c = CHR '','' \<Longrightarrow> num_type (w @ c # z) = UJSON_INT"
  by (auto simp: num_type_ws)

lemma room_mono: "room b d \<Longrightarrow> d' \<le> d \<Longrightarrow> room b d'"
  by (simp add: room_def)

lemma moved_room: "moved b k (depth b) b' \<Longrightarrow> room b d \<Longrightarrow> d' \<le> d \<Longrightarrow> room b' d'"
  by (auto simp: moved_def room_def)

lemma read_item_mono: "m \<le> n \<Longrightarrow> read_item m v0 res b = Some r \<Longrightarrow> read_item n v0 res b = Some r"
  by (auto simp: read_item_def read_mono_le split: ujson_type.splits)

lemma closing:
  "CHR '']'' = CHR '']'' \<or> CHR '']'' = CHR ''}'' \<or> CHR '']'' = CHR '',''"
  "CHR ''}'' = CHR '']'' \<or> CHR ''}'' = CHR ''}'' \<or> CHR ''}'' = CHR '',''"
  "CHR '','' = CHR '']'' \<or> CHR '','' = CHR ''}'' \<or> CHR '','' = CHR '',''"
  by simp_all

lemma value_then:
  assumes "value_reads v0 v t" "at_text b (w @ t @ w1 @ c # z)" "ws w" "ws w1"
    and "c = CHR '']'' \<or> c = CHR ''}'' \<or> c = CHR '',''" "c = CHR '','' \<or> num_type z = UJSON_INT"
    and "same_buf v0 res" "buf_ok v0 [v]" "room b (nest v)"
  obtains n res' b1 b2 v' w2 k where "get_value b res = (True, res', b1)" "ujson_val_valid res'" "same_buf v0 res'"
    "val_id res' = val_id res" "read_item n v0 res' b1 = Some (v', b2)" "vbuf v0 \<noteq> None \<longrightarrow> v' = v"
    "at_text b2 (w2 @ c # z)" "ws w2" "moved b (length w + length t + k) (depth b) b2" "k + length w2 = length w1"
proof -
  have nt: "num_type (w1 @ c # z) = UJSON_INT"
    using assms(4-6) by (auto simp: num_type_ws)
  obtain n res' b1 b2 v' k where v: "get_value b res = (True, res', b1)" "ujson_val_valid res'" "same_buf v0 res'"
    "val_id res' = val_id res" "read_item n v0 res' b1 = Some (v', b2)" "vbuf v0 \<noteq> None \<longrightarrow> v' = v"
    "moved b (length w + length t + k) (depth b) b2" "k = 0 \<or> k = trail (w1 @ c # z)"
    using assms(1) [unfolded value_reads_def, rule_format, OF assms(2,3) follow_simps [OF assms(4,5)] nt assms(7-9)]
    by blast
  moreover have "\<not> is_ws c" "c \<noteq> NUL" using assms(5) by auto
  ultimately show ?thesis
    using moved_to_close [OF assms(2,4) _ _ v(7,8)] that by metis
qed

lemma elems_read_one:
  assumes "value_reads v0 v t" "ws w"
  shows "elems_read v0 [v] (t @ w @ '']'')"
  unfolding elems_read_def
proof (intro allI impI)
  fix b z res
  assume a: "at_text b ((t @ w @ '']'') @ z)" "num_type z = UJSON_INT" "same_buf v0 res" "buf_ok v0 [v]" "1 \<le> depth b"
    "room b (nests [v])"
  have at: "at_text b ([] @ t @ w @ CHR '']'' # z)" using a(1) by simp
  have rm: "room b (nest v)" using a(6) by simp
  obtain n res' b1 b2 v' w2 k where v: "get_value b res = (True, res', b1)" "ujson_val_valid res'" "same_buf v0 res'"
    "val_id res' = val_id res" "read_item n v0 res' b1 = Some (v', b2)" "vbuf v0 \<noteq> None \<longrightarrow> v' = v"
    "at_text b2 (w2 @ CHR '']'' # z)" "ws w2" "moved b (length ([] :: string) + length t + k) (depth b) b2"
    "k + length w2 = length w"
    by (rule value_then [OF assms(1) at ws_simps(1) assms(2) closing(1) disjI2 [OF a(2)] a(3,4) rm])
  have d: "depth b2 = depth b" using v(9) by (simp add: moved_def)
  obtain b3 where b3: "ujson_arr_next b2 res' = (False, res'\<lparr>vtype := UJSON_VOID\<rparr>, b3)"
    "moved b2 (length w2 + 1 + trail z) (depth b2 - 1) b3"
    using next_end(1) [OF v(7,8), of res'] a(5,6) d by (auto simp: room_def)
  have "arr_items (Suc (Suc n)) v0 res' b1 = Some ([v'], b3)"
    using v(2) read_item_mono [OF _ v(5), of "Suc n"] b3(1) by (subst items_Suc) (auto simp: ujson_val_valid_def)
  moreover have "moved b (length (t @ w @ '']'') + trail z) (depth b - 1) b3"
    using moved_trans [OF v(9) b3(2)] d by (simp add: v(10) [symmetric] algebra_simps)
  ultimately show "\<exists>n res' b1 b2 vs'. get_value b res = (True, res', b1)
           \<and> arr_items n v0 res' b1 = Some (vs', b2) \<and> (vbuf v0 \<noteq> None \<longrightarrow> vs' = [v])
           \<and> moved b (length (t @ w @ '']'') + trail z) (depth b - 1) b2"
    using v(1,6) by fast
qed

lemma elems_hd:
  "json_value v t \<Longrightarrow> t \<noteq> [] \<and> \<not> is_ws (deref (t @ z)) \<and> deref (t @ z) \<noteq> CHR '']'' \<and> deref (t @ z) \<noteq> CHR ''}''"
  "json_elems vs u \<Longrightarrow> u \<noteq> [] \<and> \<not> is_ws (deref (u @ z)) \<and> deref (u @ z) \<noteq> CHR '']''"
  "json_members ms u' \<Longrightarrow> u' \<noteq> [] \<and> deref (u' @ z) = CHR 0x22"
proof (induction arbitrary: z and z and z rule: json_value_json_elems_json_members.inducts)
  case (int ds neg)
  then have "int_text neg ds \<noteq> []" by (auto simp: int_text_def int_part_def)
  then show ?case using int_text_hd [OF int(1), of neg z] isdigit_not_special [of "deref (int_text neg ds @ z)"] by auto
next
  case (float t)
  then have "t \<noteq> []" by (auto elim!: float_text.cases simp: int_part_def)
  then show ?case using float_text_hd [OF float(1), of z] isdigit_not_special [of "deref (t @ z)"] by auto
qed (auto simp: id_text_def)

lemma elems_read_Cons:
  assumes "value_reads v0 v t" "ws w" "ws w'" "json_elems vs t'" "elems_read v0 vs t'"
  shows "elems_read v0 (v # vs) (t @ w @ '','' @ w' @ t')"
  unfolding elems_read_def
proof (intro allI impI)
  fix b z res
  assume a: "at_text b ((t @ w @ '','' @ w' @ t') @ z)" "num_type z = UJSON_INT" "same_buf v0 res" "buf_ok v0 (v # vs)"
    "1 \<le> depth b" "room b (nests (v # vs))"
  have at: "at_text b ([] @ t @ w @ CHR '','' # w' @ t' @ z)" using a(1) by simp
  have bo: "buf_ok v0 [v]" "buf_ok v0 vs" using a(4) by (auto simp: buf_ok_def)
  have rm: "room b (nest v)" "room b (nests vs)" using room_mono [OF a(6)] by simp_all
  obtain n res' b1 b2 v' w2 k where v: "get_value b res = (True, res', b1)" "ujson_val_valid res'" "same_buf v0 res'"
    "val_id res' = val_id res" "read_item n v0 res' b1 = Some (v', b2)" "vbuf v0 \<noteq> None \<longrightarrow> v' = v"
    "at_text b2 (w2 @ CHR '','' # w' @ t' @ z)" "ws w2" "moved b (length ([] :: string) + length t + k) (depth b) b2"
    "k + length w2 = length w"
    by (rule value_then [OF assms(1) at ws_simps(1) assms(2) closing(3) disjI1 [OF refl] a(3) bo(1) rm(1)])
  have d: "depth b2 = depth b" using v(9) by (simp add: moved_def)
  obtain b3 where b3: "ujson_arr_next b2 res' = get_value b3 res'" "moved b2 (length w2 + 1 + length w') (depth b2) b3"
    using next_item(1) [OF v(7,8) assms(3), of res'] elems_hd(2) [OF assms(4), of z] by auto
  have "at_text b3 (t' @ z)" using moved_at [of b2 "w2 @ CHR '','' # w'" "t' @ z" "depth b2" b3] v(7) b3(2) by simp
  moreover have "1 \<le> depth b3" using a(5) b3(2) d by (simp add: moved_def)
  moreover have "room b3 (nests vs)"
    by (rule moved_room [OF b3(2) moved_room [OF v(9) rm(2) order_refl] order_refl])
  ultimately obtain m res2 b4 b5 vs' where e: "get_value b3 res' = (True, res2, b4)" "arr_items m v0 res2 b4 = Some (vs', b5)"
    "vbuf v0 \<noteq> None \<longrightarrow> vs' = vs" "moved b3 (length t' + trail z) (depth b3 - 1) b5"
    using assms(5) [unfolded elems_read_def, rule_format, OF _ a(2) v(3) bo(2)] by meson
  have "arr_items (Suc (n + m)) v0 res' b1 = Some (v' # vs', b5)"
    using v(2) read_item_mono [OF _ v(5), of "n + m"] read_mono_le(4) [OF _ e(2), of "n + m"] b3(1) e(1)
    by (subst items_Suc) auto
  moreover have "moved b (length (t @ w @ '','' @ w' @ t') + trail z) (depth b - 1) b5"
    using moved_trans [OF v(9) moved_trans [OF b3(2) e(4)]] d b3(2)
    by (simp add: v(10) [symmetric] algebra_simps moved_def)
  moreover have "vbuf v0 \<noteq> None \<longrightarrow> v' # vs' = v # vs" using v(6) e(3) by simp
  ultimately show "\<exists>n res' b1 b2 vs'. get_value b res = (True, res', b1)
           \<and> arr_items n v0 res' b1 = Some (vs', b2) \<and> (vbuf v0 \<noteq> None \<longrightarrow> vs' = v # vs)
           \<and> moved b (length (t @ w @ '','' @ w' @ t') + trail z) (depth b - 1) b2"
    using v(1) by blast
qed


lemma members_read_one:
  assumes "value_reads v0 v t" "ws w" "id_ok x" "ws w1" "ws w3"
  shows "members_read v0 [(x, v)] (id_text x w1 @ w3 @ t @ w @ ''}'')"
  unfolding members_read_def
proof (intro allI impI)
  fix b z res
  assume a: "at_text b ((id_text x w1 @ w3 @ t @ w @ ''}'') @ z)" "num_type z = UJSON_INT" "same_buf v0 res"
    "buf_ok v0 (map snd [(x, v)])" "1 \<le> depth b" "room b (nests (map snd [(x, v)]))"
  let ?b = "adv (length (id_text x w1)) b" and ?res = "res\<lparr>val_id := x\<rparr>"
  have at: "at_text ?b (w3 @ t @ w @ CHR ''}'' # z)"
    using a(1) at_text_append [of b "id_text x w1"] by simp
  have o: "obj_next b res = get_value ?b ?res"
    by (rule obj_next_id [of b x w1 "w3 @ t @ w @ CHR ''}'' # z"]) (use a(1) assms(3,4) in simp_all)
  have pre: "same_buf v0 ?res" "buf_ok v0 [v]" "room ?b (nest v)" using a(3,4,6) by (simp_all add: room_def)
  obtain n res' b1 b2 v' w2 k where v: "get_value ?b ?res = (True, res', b1)" "ujson_val_valid res'" "same_buf v0 res'"
    "val_id res' = val_id ?res" "read_item n v0 res' b1 = Some (v', b2)" "vbuf v0 \<noteq> None \<longrightarrow> v' = v"
    "at_text b2 (w2 @ CHR ''}'' # z)" "ws w2" "moved ?b (length w3 + length t + k) (depth ?b) b2"
    "k + length w2 = length w"
    by (rule value_then [OF assms(1) at assms(5,2) closing(2) disjI2 [OF a(2)] pre])
  have d: "depth b2 = depth b" using v(9) by (simp add: moved_def)
  have m: "moved b (length (id_text x w1) + (length w3 + length t + k)) (depth b) b2"
    using moved_trans [OF moved_adv(1) v(9)] by simp
  obtain b3 where b3: "ujson_obj_next b2 res' = (False, res'\<lparr>vtype := UJSON_VOID\<rparr>, b3)"
    "moved b2 (length w2 + 1 + trail z) (depth b2 - 1) b3"
    using next_end(2) [OF v(7,8), of res'] a(5,6) d by (auto simp: room_def)
  have "obj_items (Suc (Suc n)) v0 res' b1 = Some ([(x, v')], b3)"
    using v(2,4) read_item_mono [OF _ v(5), of "Suc n"] b3(1) by (subst items_Suc) (auto simp: ujson_val_valid_def)
  moreover have "moved b (length (id_text x w1 @ w3 @ t @ w @ ''}'') + trail z) (depth b - 1) b3"
    using moved_trans [OF m b3(2)] d by (simp add: v(10) [symmetric] algebra_simps)
  moreover have "vbuf v0 \<noteq> None \<longrightarrow> [(x, v')] = [(x, v)]" using v(6) by simp
  ultimately show "\<exists>n res' b1 b2 ms'. obj_next b res = (True, res', b1)
           \<and> obj_items n v0 res' b1 = Some (ms', b2) \<and> (vbuf v0 \<noteq> None \<longrightarrow> ms' = [(x, v)])
           \<and> moved b (length (id_text x w1 @ w3 @ t @ w @ ''}'') + trail z) (depth b - 1) b2"
    using v(1) o by metis
qed

lemma members_read_Cons:
  assumes "value_reads v0 v t" "ws w" "id_ok x" "ws w1" "ws w3" "ws w'" "json_members ms t'" "members_read v0 ms t'"
  shows "members_read v0 ((x, v) # ms) (id_text x w1 @ w3 @ t @ w @ '','' @ w' @ t')"
  unfolding members_read_def
proof (intro allI impI)
  fix b z res
  assume a: "at_text b ((id_text x w1 @ w3 @ t @ w @ '','' @ w' @ t') @ z)" "num_type z = UJSON_INT" "same_buf v0 res"
    "buf_ok v0 (map snd ((x, v) # ms))" "1 \<le> depth b" "room b (nests (map snd ((x, v) # ms)))"
  let ?b = "adv (length (id_text x w1)) b" and ?res = "res\<lparr>val_id := x\<rparr>"
  have at: "at_text ?b (w3 @ t @ w @ CHR '','' # w' @ t' @ z)"
    using a(1) at_text_append [of b "id_text x w1"] by simp
  have o: "obj_next b res = get_value ?b ?res"
    by (rule obj_next_id [of b x w1 "w3 @ t @ w @ CHR '','' # w' @ t' @ z"]) (use a(1) assms(3,4) in simp_all)
  have bo: "buf_ok v0 (map snd ms)" using a(4) by (auto simp: buf_ok_def)
  have rm: "room b (nest v)" "room b (nests (map snd ms))" using room_mono [OF a(6)] by simp_all
  have pre: "same_buf v0 ?res" "buf_ok v0 [v]" "room ?b (nest v)" using a(3,4) rm(1) by (auto simp: room_def buf_ok_def)
  obtain n res' b1 b2 v' w2 k where v: "get_value ?b ?res = (True, res', b1)" "ujson_val_valid res'" "same_buf v0 res'"
    "val_id res' = val_id ?res" "read_item n v0 res' b1 = Some (v', b2)" "vbuf v0 \<noteq> None \<longrightarrow> v' = v"
    "at_text b2 (w2 @ CHR '','' # w' @ t' @ z)" "ws w2" "moved ?b (length w3 + length t + k) (depth ?b) b2"
    "k + length w2 = length w"
    by (rule value_then [OF assms(1) at assms(5,2) closing(3) disjI1 [OF refl] pre])
  have d: "depth b2 = depth b" using v(9) by (simp add: moved_def)
  have m: "moved b (length (id_text x w1) + (length w3 + length t + k)) (depth b) b2"
    using moved_trans [OF moved_adv(1) v(9)] by simp
  obtain b3 where b3: "ujson_obj_next b2 res' = obj_next b3 res'" "moved b2 (length w2 + 1 + length w') (depth b2) b3"
    using next_item(2) [OF v(7,8) assms(6), of res'] elems_hd(3) [OF assms(7), of z] by auto
  have "at_text b3 (t' @ z)" using moved_at [of b2 "w2 @ CHR '','' # w'" "t' @ z" "depth b2" b3] v(7) b3(2) by simp
  moreover have "1 \<le> depth b3" using a(5) b3(2) d by (simp add: moved_def)
  moreover have "room b3 (nests (map snd ms))"
    by (rule moved_room [OF b3(2) moved_room [OF m rm(2) order_refl] order_refl])
  ultimately obtain i res2 b4 b5 ms' where e: "obj_next b3 res' = (True, res2, b4)" "obj_items i v0 res2 b4 = Some (ms', b5)"
    "vbuf v0 \<noteq> None \<longrightarrow> ms' = ms" "moved b3 (length t' + trail z) (depth b3 - 1) b5"
    using assms(8) [unfolded members_read_def, rule_format, OF _ a(2) v(3) bo] by meson
  have "obj_items (Suc (n + i)) v0 res' b1 = Some ((x, v') # ms', b5)"
    using v(2,4) read_item_mono [OF _ v(5), of "n + i"] read_mono_le(3) [OF _ e(2), of "n + i"] b3(1) e(1)
    by (subst items_Suc) auto
  moreover have "moved b (length (id_text x w1 @ w3 @ t @ w @ '','' @ w' @ t') + trail z) (depth b - 1) b5"
    using moved_trans [OF m moved_trans [OF b3(2) e(4)]] d b3(2)
    by (simp add: v(10) [symmetric] algebra_simps moved_def)
  moreover have "vbuf v0 \<noteq> None \<longrightarrow> (x, v') # ms' = (x, v) # ms" using v(6) e(3) by simp
  ultimately show "\<exists>n res' b1 b2 ms'. obj_next b res = (True, res', b1)
           \<and> obj_items n v0 res' b1 = Some (ms', b2) \<and> (vbuf v0 \<noteq> None \<longrightarrow> ms' = (x, v) # ms)
           \<and> moved b (length (id_text x w1 @ w3 @ t @ w @ '','' @ w' @ t') + trail z) (depth b - 1) b2"
    using v(1) o by metis
qed


definition arr_reads :: "ujson_val \<Rightarrow> jvalue list \<Rightarrow> string \<Rightarrow> bool" where
  "arr_reads v0 vs t \<longleftrightarrow>
     (\<forall>b z. at_text b (t @ z) \<longrightarrow> num_type z = UJSON_INT \<longrightarrow> buf_ok v0 vs \<longrightarrow> room b (Suc (nests vs)) \<longrightarrow>
        (\<exists>n b2 vs'. read_arr n v0 b = Some (vs', b2) \<and> (vbuf v0 \<noteq> None \<longrightarrow> vs' = vs)
           \<and> moved b (length t + trail z) (depth b) b2))"

definition obj_reads :: "ujson_val \<Rightarrow> (string \<times> jvalue) list \<Rightarrow> string \<Rightarrow> bool" where
  "obj_reads v0 ms t \<longleftrightarrow>
     (\<forall>b z. at_text b (t @ z) \<longrightarrow> num_type z = UJSON_INT \<longrightarrow> buf_ok v0 (map snd ms) \<longrightarrow> room b (Suc (nests (map snd ms))) \<longrightarrow>
        (\<exists>n b2 ms'. read_obj n v0 b = Some (ms', b2) \<and> (vbuf v0 \<noteq> None \<longrightarrow> ms' = ms)
           \<and> moved b (length t + trail z) (depth b) b2))"

lemma empty_reads:
  assumes "ws w"
  shows "arr_reads v0 [] (''['' @ w @ '']'')" "obj_reads v0 [] (''{'' @ w @ ''}'')"
proof -
  have "\<exists>n b2 vs'. read_arr n v0 b = Some (vs', b2) \<and> (vbuf v0 \<noteq> None \<longrightarrow> vs' = [])
           \<and> moved b (length (''['' @ w @ '']'') + trail z) (depth b) b2"
    if a: "at_text b ((''['' @ w @ '']'') @ z)" "room b 1" for b z
  proof -
    obtain b' where "ujson_arr_first b v0 = (False, v0\<lparr>vtype := UJSON_VOID\<rparr>, b')" "moved b (length w + 2 + trail z) (depth b) b'"
      using first_end(1) [of b "CHR ''[''" w "CHR '']''" z v0] a assms by (auto simp: room_def)
    then show ?thesis
      by (intro exI [of _ "2 :: nat"] exI [of _ b'] exI [of _ "[]"]) (simp add: numeral_2_eq_2 ujson_val_valid_def)
  qed
  then show "arr_reads v0 [] (''['' @ w @ '']'')" by (simp add: arr_reads_def)
  have "\<exists>n b2 ms'. read_obj n v0 b = Some (ms', b2) \<and> (vbuf v0 \<noteq> None \<longrightarrow> ms' = [])
           \<and> moved b (length (''{'' @ w @ ''}'') + trail z) (depth b) b2"
    if a: "at_text b ((''{'' @ w @ ''}'') @ z)" "room b 1" for b z
  proof -
    obtain b' where "ujson_obj_first b v0 = (False, v0\<lparr>vtype := UJSON_VOID\<rparr>, b')" "moved b (length w + 2 + trail z) (depth b) b'"
      using first_end(2) [of b "CHR ''{''" w "CHR ''}''" z v0] a assms by (auto simp: room_def)
    then show ?thesis
      by (intro exI [of _ "2 :: nat"] exI [of _ b'] exI [of _ "[]"]) (simp add: numeral_2_eq_2 ujson_val_valid_def)
  qed
  then show "obj_reads v0 [] (''{'' @ w @ ''}'')" by (simp add: obj_reads_def)
qed

lemma arr_reads_elems:
  assumes "ws w" "json_elems vs t" "elems_read v0 vs t"
  shows "arr_reads v0 vs (''['' @ w @ t)"
  unfolding arr_reads_def
proof (intro allI impI)
  fix b z
  assume a: "at_text b ((''['' @ w @ t) @ z)" "num_type z = UJSON_INT" "buf_ok v0 vs" "room b (Suc (nests vs))"
  obtain b' where b': "ujson_arr_first b v0 = get_value b' v0" "moved b (1 + length w) (depth b + 1) b'"
    using first_item(1) [of b "CHR ''[''" w "t @ z" v0] a(1,4) assms(1) elems_hd(2) [OF assms(2), of z] by (auto simp: room_def)
  have at: "at_text b' (t @ z)" using moved_at [of b "''['' @ w" "t @ z" "depth b + 1" b'] a(1) b'(2) by simp
  have r: "1 \<le> depth b'" "room b' (nests vs)" using a(4) b'(2) by (auto simp: moved_def room_def)
  obtain n res' b1 b2 vs' where e: "get_value b' v0 = (True, res', b1)" "arr_items n v0 res' b1 = Some (vs', b2)"
    "vbuf v0 \<noteq> None \<longrightarrow> vs' = vs" "moved b' (length t + trail z) (depth b' - 1) b2"
    using assms(3) [unfolded elems_read_def, rule_format, OF at a(2) same_buf_simps(1) a(3) r] by blast
  have "read_arr (Suc n) v0 b = Some (vs', b2)" using b'(1) e(1,2) by simp
  moreover have "moved b (length (''['' @ w @ t) + trail z) (depth b) b2"
    using moved_trans [OF b'(2) e(4)] b'(2) by (simp add: moved_def)
  ultimately show "\<exists>n b2 vs'. read_arr n v0 b = Some (vs', b2) \<and> (vbuf v0 \<noteq> None \<longrightarrow> vs' = vs)
           \<and> moved b (length (''['' @ w @ t) + trail z) (depth b) b2"
    using e(3) by blast
qed

lemma obj_reads_members:
  assumes "ws w" "json_members ms t" "members_read v0 ms t"
  shows "obj_reads v0 ms (''{'' @ w @ t)"
  unfolding obj_reads_def
proof (intro allI impI)
  fix b z
  assume a: "at_text b ((''{'' @ w @ t) @ z)" "num_type z = UJSON_INT" "buf_ok v0 (map snd ms)" "room b (Suc (nests (map snd ms)))"
  obtain b' where b': "ujson_obj_first b v0 = obj_next b' v0" "moved b (1 + length w) (depth b + 1) b'"
    using first_item(2) [of b "CHR ''{''" w "t @ z" v0] a(1,4) assms(1) elems_hd(3) [OF assms(2), of z] by (auto simp: room_def)
  have at: "at_text b' (t @ z)" using moved_at [of b "''{'' @ w" "t @ z" "depth b + 1" b'] a(1) b'(2) by simp
  have r: "1 \<le> depth b'" "room b' (nests (map snd ms))" using a(4) b'(2) by (auto simp: moved_def room_def)
  obtain n res' b1 b2 ms' where e: "obj_next b' v0 = (True, res', b1)" "obj_items n v0 res' b1 = Some (ms', b2)"
    "vbuf v0 \<noteq> None \<longrightarrow> ms' = ms" "moved b' (length t + trail z) (depth b' - 1) b2"
    using assms(3) [unfolded members_read_def, rule_format, OF at a(2) same_buf_simps(1) a(3) r] by blast
  have "read_obj (Suc n) v0 b = Some (ms', b2)" using b'(1) e(1,2) by simp
  moreover have "moved b (length (''{'' @ w @ t) + trail z) (depth b) b2"
    using moved_trans [OF b'(2) e(4)] b'(2) by (simp add: moved_def)
  ultimately show "\<exists>n b2 ms'. read_obj n v0 b = Some (ms', b2) \<and> (vbuf v0 \<noteq> None \<longrightarrow> ms' = ms)
           \<and> moved b (length (''{'' @ w @ t) + trail z) (depth b) b2"
    using e(3) by blast
qed

lemma value_reads_arr:
  assumes "arr_reads v0 vs (CHR ''['' # t)"
  shows "value_reads v0 (J_arr vs) (CHR ''['' # t)"
  unfolding value_reads_def
proof (intro allI impI)
  fix b w z res
  assume a: "at_text b (w @ (CHR ''['' # t) @ z)" "ws w" "num_type z = UJSON_INT" "same_buf v0 res"
    "buf_ok v0 [J_arr vs]" "room b (nest (J_arr vs))"
  let ?b = "(adv (length w) b)\<lparr>sub_off := off b + length w\<rparr>"
  have g: "get_value b res = (True, res\<lparr>vtype := UJSON_ARR\<rparr>, ?b)"
    using at_get_value_nested [of b w "CHR ''[''" "t @ z" res] a(1,2) by simp
  have at: "at_text ?b ((CHR ''['' # t) @ z)" using at_text_append [OF a(1)] by simp
  have "buf_ok v0 vs" "room ?b (Suc (nests vs))" using a(5,6) by (auto simp: buf_ok_def room_def)
  then obtain n b2 vs' where r: "read_arr n v0 ?b = Some (vs', b2)" "vbuf v0 \<noteq> None \<longrightarrow> vs' = vs"
    "moved ?b (length (CHR ''['' # t) + trail z) (depth ?b) b2"
    using assms [unfolded arr_reads_def, rule_format, OF at a(3)] by meson
  have "moved b (length w + length (CHR ''['' # t) + trail z) (depth b) b2"
    using r(3) by (simp add: moved_def)
  then show "\<exists>n res' b1 b2 v' k. get_value b res = (True, res', b1) \<and> ujson_val_valid res' \<and> same_buf v0 res'
           \<and> val_id res' = val_id res \<and> read_item n v0 res' b1 = Some (v', b2) \<and> (vbuf v0 \<noteq> None \<longrightarrow> v' = J_arr vs)
           \<and> moved b (length w + length (CHR ''['' # t) + k) (depth b) b2 \<and> (k = 0 \<or> k = trail z)"
    using g r a(4)
    by (intro exI [of _ n] exI [of _ "res\<lparr>vtype := UJSON_ARR\<rparr>"] exI [of _ ?b] exI [of _ b2] exI [of _ "J_arr vs'"] exI [of _ "trail z"])
      (simp add: read_item_def ujson_val_valid_def)
qed

lemma value_reads_obj:
  assumes "obj_reads v0 ms (CHR ''{'' # t)"
  shows "value_reads v0 (J_obj ms) (CHR ''{'' # t)"
  unfolding value_reads_def
proof (intro allI impI)
  fix b w z res
  assume a: "at_text b (w @ (CHR ''{'' # t) @ z)" "ws w" "num_type z = UJSON_INT" "same_buf v0 res"
    "buf_ok v0 [J_obj ms]" "room b (nest (J_obj ms))"
  let ?b = "(adv (length w) b)\<lparr>sub_off := off b + length w\<rparr>"
  have g: "get_value b res = (True, res\<lparr>vtype := UJSON_OBJ\<rparr>, ?b)"
    using at_get_value_nested [of b w "CHR ''{''" "t @ z" res] a(1,2) by simp
  have at: "at_text ?b ((CHR ''{'' # t) @ z)" using at_text_append [OF a(1)] by simp
  have "buf_ok v0 (map snd ms)" "room ?b (Suc (nests (map snd ms)))"
    using a(5,6) by (auto simp: buf_ok_def room_def list.pred_map comp_def case_prod_unfold)
  then obtain n b2 ms' where r: "read_obj n v0 ?b = Some (ms', b2)" "vbuf v0 \<noteq> None \<longrightarrow> ms' = ms"
    "moved ?b (length (CHR ''{'' # t) + trail z) (depth ?b) b2"
    using assms [unfolded obj_reads_def, rule_format, OF at a(3)] by meson
  have "moved b (length w + length (CHR ''{'' # t) + trail z) (depth b) b2"
    using r(3) by (simp add: moved_def)
  then show "\<exists>n res' b1 b2 v' k. get_value b res = (True, res', b1) \<and> ujson_val_valid res' \<and> same_buf v0 res'
           \<and> val_id res' = val_id res \<and> read_item n v0 res' b1 = Some (v', b2) \<and> (vbuf v0 \<noteq> None \<longrightarrow> v' = J_obj ms)
           \<and> moved b (length w + length (CHR ''{'' # t) + k) (depth b) b2 \<and> (k = 0 \<or> k = trail z)"
    using g r a(4)
    by (intro exI [of _ n] exI [of _ "res\<lparr>vtype := UJSON_OBJ\<rparr>"] exI [of _ ?b] exI [of _ b2] exI [of _ "J_obj ms'"] exI [of _ "trail z"])
      (simp add: read_item_def ujson_val_valid_def)
qed

definition nested_reads :: "ujson_val \<Rightarrow> jvalue \<Rightarrow> string \<Rightarrow> bool" where
  "nested_reads v0 v t \<longleftrightarrow>
     (case v of J_arr vs \<Rightarrow> arr_reads v0 vs t | J_obj ms \<Rightarrow> obj_reads v0 ms t | _ \<Rightarrow> True)"

lemma grammar_reads:
  "json_value v t \<Longrightarrow> value_reads v0 v t \<and> nested_reads v0 v t"
  "json_elems vs u \<Longrightarrow> json_elems vs u \<and> elems_read v0 vs u"
  "json_members ms u' \<Longrightarrow> json_members ms u' \<and> members_read v0 ms u'"
proof (induction rule: json_value_json_elems_json_members.inducts)
  case (arr0 w)
  then show ?case using empty_reads(1) [of w v0] value_reads_arr by (simp add: nested_reads_def)
next
  case (arr w vs t)
  then show ?case using arr_reads_elems [of w vs t v0] value_reads_arr by (simp add: nested_reads_def)
next
  case (obj0 w)
  then show ?case using empty_reads(2) [of w v0] value_reads_obj by (simp add: nested_reads_def)
next
  case (obj w ms t)
  then show ?case using obj_reads_members [of w ms t v0] value_reads_obj by (simp add: nested_reads_def)
next
  case (elem v t w)
  then show ?case using elems_read_one [of v0 v t w] json_value_json_elems_json_members.elem [of v t w] by simp
next
  case (elems v t w w' vs t')
  then show ?case using elems_read_Cons [of v0 v t w w' vs t'] json_value_json_elems_json_members.elems [of v t w w' vs t'] by simp
next
  case (memb k w1 w2 v t w)
  then show ?case using members_read_one [of v0 v t w k w1 w2] json_value_json_elems_json_members.memb [of k w1 w2 v t w] by simp
next
  case (membs k w1 w2 v t w w' ms t')
  then show ?case using members_read_Cons [of v0 v t w k w1 w2 w' ms t']
    json_value_json_elems_json_members.membs [of k w1 w2 v t w w' ms t'] by simp
qed (auto simp: nested_reads_def intro: value_reads_leaf json_value_json_elems_json_members.intros)

text \<open>Reading and skipping a document.\<close>

lemma read_arr_document:
  assumes "json_value (J_arr vs) t" "at_text b (t @ z)" "num_type z = UJSON_INT" "buf_ok v0 vs" "room b (Suc (nests vs))"
  obtains n b' vs' where "read_arr n v0 b = Some (vs', b')" "vbuf v0 \<noteq> None \<longrightarrow> vs' = vs"
    "moved b (length t + trail z) (depth b) b'"
proof -
  have "arr_reads v0 vs t"
    using grammar_reads(1) [OF assms(1), of v0] by (simp add: nested_reads_def)
  from this [unfolded arr_reads_def, rule_format, OF assms(2-5)] show thesis
    by (elim exE conjE) (rule that)
qed

lemma read_obj_document:
  assumes "json_value (J_obj ms) t" "at_text b (t @ z)" "num_type z = UJSON_INT" "buf_ok v0 (map snd ms)"
    and "room b (Suc (nests (map snd ms)))"
  obtains n b' ms' where "read_obj n v0 b = Some (ms', b')" "vbuf v0 \<noteq> None \<longrightarrow> ms' = ms"
    "moved b (length t + trail z) (depth b) b'"
proof -
  have "obj_reads v0 ms t"
    using grammar_reads(1) [OF assms(1), of v0] by (simp add: nested_reads_def)
  from this [unfolded obj_reads_def, rule_format, OF assms(2-5)] show thesis
    by (elim exE conjE) (rule that)
qed

lemma fuel_irrelevant:
  "read_arr n v0 b = Some r \<Longrightarrow> read_arr m v0 b = Some r' \<Longrightarrow> r = r'"
  "read_obj n v0 b = Some s \<Longrightarrow> read_obj m v0 b = Some s' \<Longrightarrow> s = s'"
  using read_mono_le(2) [of n m v0 b r] read_mono_le(2) [of m n v0 b r'] read_mono_le(1) [of n m v0 b s]
    read_mono_le(1) [of m n v0 b s'] linear [of n m] by auto

section \<open>Properties\<close>

text \<open>C24: Skipping an object or an array whose text follows the grammar ends without an error,
  exactly behind the text (and the white space behind it), at the depth it started with.\<close>
theorem skip_document:
  assumes "json_value v t" "at_text b (t @ z)" "num_type z = UJSON_INT" "room b (nest v)" "\<not> is_leaf v"
  shows "\<exists>b'. (case v of J_arr vs \<Rightarrow> ujson_arr_skip b | _ \<Rightarrow> ujson_obj_skip b) = (False, b')
    \<and> moved b (length t + trail z) (depth b) b'"
proof (cases v)
  case (J_arr vs)
  obtain n b' vs' where r: "read_arr n val_zero b = Some (vs', b')" "moved b (length t + trail z) (depth b) b'"
    by (rule read_arr_document [of vs t b z val_zero])
      (use assms J_arr in \<open>auto simp: buf_ok_def val_zero_def UJSON_VAL_INIT_def\<close>)
  obtain b2 where s: "ujson_arr_skip b = (False, b2)" "arr_skip_fuel (skip_fuel b) b = Some (False, b2)"
    by (rule arr_skip_returns)
  then have "b2 = b'"
    using fuel_irrelevant(1) [OF r(1), of "skip_fuel b"] by (auto simp: skip_read(2))
  with J_arr s r show ?thesis by simp
next
  case (J_obj ms)
  obtain n b' ms' where r: "read_obj n val_zero b = Some (ms', b')" "moved b (length t + trail z) (depth b) b'"
    by (rule read_obj_document [of ms t b z val_zero])
      (use assms J_obj in \<open>auto simp: buf_ok_def val_zero_def UJSON_VAL_INIT_def\<close>)
  obtain b2 where s: "ujson_obj_skip b = (False, b2)" "obj_skip_fuel (skip_fuel b) b = Some (False, b2)"
    by (rule skip_returns)
  then have "b2 = b'"
    using fuel_irrelevant(2) [OF r(1), of "skip_fuel b"] by (auto simp: skip_read(1))
  with J_obj s r show ?thesis by simp
qed (use assms(5) in auto)

text \<open>A document with its text, used in the witnesses.\<close>

definition ex_value :: jvalue where
  "ex_value = J_obj [(''a'', J_arr [J_int 10, J_bool True]), (''b'', J_str ''x'')]"

definition ex_text :: string where
  "ex_text = ''{'' @ [CHR 0x22] @ ''a'' @ [CHR 0x22] @ '': [10, true], '' @ [CHR 0x22] @ ''b'' @ [CHR 0x22] @ '':''
     @ [CHR 0x22] @ ''x'' @ [CHR 0x22] @ ''}''"

definition ex_reader :: ujson_reader where
  "ex_reader = UJSON_READER_INIT ex_text (length ex_text) False"

lemma ex_json: "json_value ex_value ex_text"
proof -
  note intros = json_value_json_elems_json_members.intros
  have i: "json_value (J_int 10) ''10''"
    using intros(4) [of "''10''" False] by (simp add: int_part_def int_text_def int_text_val_def dec_val_def digit_val_def isdigit_def char_between_def)
  have w: "is_ws (CHR '' '')" by (simp add: is_ws_def)
  have a: "json_value (J_arr [J_int 10, J_bool True]) ''[10, true]''"
    using intros(8) [OF _ intros(12) [OF i _ _ intros(11) [OF intros(2), of "[]"]], of "[]" "[]" "'' ''"] w by simp
  have "str_body ''x'' ''x''" by (auto intro!: str_body.intros)
  from intros(6) [OF this] have s: "json_value (J_str ''x'') [CHR 0x22, CHR ''x'', CHR 0x22]" by simp
  have m: "json_members [(''b'', J_str ''x'')] (id_text ''b'' [] @ [] @ [CHR 0x22, CHR ''x'', CHR 0x22] @ [] @ ''}'')"
    by (rule intros(13)) (auto simp: id_ok_def UJSON_ID_MAX_def s)
  have "json_members [(''a'', J_arr [J_int 10, J_bool True]), (''b'', J_str ''x'')]
      (id_text ''a'' [] @ '' '' @ ''[10, true]'' @ [] @ '','' @ '' '' @ id_text ''b'' [] @ [] @ [CHR 0x22, CHR ''x'', CHR 0x22] @ [] @ ''}'')"
    by (rule intros(14)) (use a m w in \<open>auto simp: id_ok_def UJSON_ID_MAX_def\<close>)
  from intros(10) [OF _ this, of "[]"] show ?thesis
    by (simp add: ex_value_def ex_text_def id_text_def)
qed

lemma ex_at: "at_text ex_reader (ex_text @ [])" "num_type [] = UJSON_INT" "room ex_reader (nest ex_value)"
  by (simp_all add: at_text_def ex_reader_def UJSON_READER_INIT_def room_def ex_value_def UJSON_RECURSION_MAX_def)

theorem skip_document_witness:
  "\<exists>b'. ujson_obj_skip ex_reader = (False, b') \<and> moved ex_reader (length ex_text) 0 b'"
  using skip_document [OF ex_json ex_at]
  by (simp add: ex_value_def trail_def) (simp add: ex_reader_def UJSON_READER_INIT_def)

text \<open>C6: A client that collects a document with the iteration functions gets exactly the value
  whose text the reader stands at: every member with its ID, every element, in order, and nested;
  enough fuel gives this result, and the reader stops behind the text without an error.\<close>
theorem read_document:
  assumes "json_value (J_obj ms) t" "at_text b (t @ z)" "num_type z = UJSON_INT" "room b (nest (J_obj ms))"
    and "vbuf v0 \<noteq> None" "strs_fit (buf_size v0) (J_obj ms)"
  shows "\<exists>n b'. (\<forall>k. read_obj (n + k) v0 b = Some (ms, b')) \<and> moved b (length t + trail z) (depth b) b'
    \<and> \<not> ujson_reader_err b'"
proof -
  have "buf_ok v0 (map snd ms)"
    using assms(6) by (simp add: buf_ok_def list.pred_map comp_def case_prod_unfold)
  then obtain n b' where r: "read_obj n v0 b = Some (ms, b')" "moved b (length t + trail z) (depth b) b'"
    using read_obj_document [OF assms(1-3), of v0] assms(4,5) by (metis nest_simps(2))
  then have "\<not> ujson_reader_err b'"
    using at_text_noerr [OF assms(2)] by (simp add: moved_def ujson_reader_err_def)
  moreover have "read_obj (n + k) v0 b = Some (ms, b')" for k
    using read_mono_le(1) [OF _ r(1)] by simp
  ultimately show ?thesis using r(2) by blast
qed

theorem read_document_witness:
  "\<exists>n b'. (\<forall>k. read_obj (n + k) (UJSON_VAL_INIT (Some []) 16) ex_reader
      = Some ([(''a'', J_arr [J_int 10, J_bool True]), (''b'', J_str ''x'')], b')) \<and> \<not> ujson_reader_err b'"
  using read_document [OF ex_json [unfolded ex_value_def] ex_at(1,2) ex_at(3) [unfolded ex_value_def],
      of "UJSON_VAL_INIT (Some []) 16"]
  by (auto simp: UJSON_VAL_INIT_def)

text \<open>C25: On any text, however malformed, both skip functions return: their loops never run out
  of fuel, they leave the text alone, move forward and stay inside the text. They always return 0,
  an error is only left in the reader.\<close>
theorem skip_terminates:
  assumes "off b \<le> len b"
  shows "\<exists>b1 b2. ujson_obj_skip b = (False, b1) \<and> obj_skip_fuel (skip_fuel b) b = Some (False, b1)
    \<and> ujson_arr_skip b = (False, b2) \<and> arr_skip_fuel (skip_fuel b) b = Some (False, b2)
    \<and> json b1 = json b \<and> off b \<le> off b1 \<and> off b1 \<le> len b \<and> json b2 = json b \<and> off b \<le> off b2 \<and> off b2 \<le> len b"
proof -
  obtain b1 where 1: "ujson_obj_skip b = (False, b1)" "advances b b1" "obj_skip_fuel (skip_fuel b) b = Some (False, b1)"
    by (rule skip_returns)
  obtain b2 where 2: "ujson_arr_skip b = (False, b2)" "advances b b2" "arr_skip_fuel (skip_fuel b) b = Some (False, b2)"
    by (rule arr_skip_returns)
  show ?thesis using 1 2 assms by (auto simp: advances_def)
qed

theorem skip_terminates_witness:
  "\<exists>b1. ujson_obj_skip (UJSON_READER_INIT ''{]'' 2 False) = (False, b1) \<and> off b1 \<le> 2"
  using skip_terminates [of "UJSON_READER_INIT ''{]'' 2 False"] by (auto simp: UJSON_READER_INIT_def)

section \<open>Attribute lists\<close>

text \<open>A member whose attribute asks for another type than the object or array found is not
  skipped: after the warning the filter looks for a comma in front of the nested value and fails
  with a parse error.\<close>
theorem filter_nested_mismatch:
  assumes "at_text b (id_text k w @ w' @ c # t)" "ws w" "ws w'" "id_ok k" "c = CHR ''{'' \<or> c = CHR ''[''"
    and "ujson_obj_lookup obj (c_str k) = Some i"
    and "\<not> attr_matches (snd (obj ! i)) (if c = CHR ''['' then UJSON_ARR else UJSON_OBJ)"
    and "\<not> strict b"
  shows "\<exists>res' b'. obj_next_filter b res (Some obj) ign = (False, res', b') \<and> ujson_reader_err b'
    \<and> err b' = ''Expected '' @ quoted '','' \<and> vtype res' = UJSON_VOID"
proof -
  let ?b = "adv (length (id_text k w)) b"
  have at: "at_text ?b (w' @ c # t)" using at_text_append [OF assms(1)] .
  obtain b1 res1 where f: "filter_item b res (Some obj) ign = Inr (res1, b1)" "at_text b1 (c # t)"
  proof -
    let ?b1 = "(adv (length w') ?b)\<lparr>sub_off := off ?b + length w'\<rparr>"
    have "at_text (ujson_warn ?b1 m) (c # t)" for m
      using at_text_append [OF at] assms(8) by (simp add: at_text_def ujson_warn_def printf_line_def err_print_line_def print_snippet_report)
    then show thesis
      using that at_copy_id_str [OF assms(1,2,4)] at_get_value_nested [OF at assms(3)] assms(5-7)
      by (auto simp: filter_item_def Let_def)
  qed
  have "check_end b1 res1 (CHR ''}'') = (False, res1, b1)"
    using at_check_end_open [of b1 "[]" "c # t" "CHR ''}''" res1] f(2) assms(5) by auto
  then have "obj_pre_next b1 res1 = (True, res1\<lparr>vtype := UJSON_VOID\<rparr>, ujson_err b1 (''Expected '' @ quoted '',''))"
    using at_text_noerr [OF f(2)] at_eatb [OF f(2), of "CHR '',''"] assms(5)
    by (auto simp: obj_pre_next_def pre_next_def)
  then show ?thesis
    by (subst obj_next_filter.simps)
      (simp add: f(1) ujson_reader_err_def ujson_err_def vsnprintf_def UJSON_ERR_MAX_def quoted_def)
qed

theorem filter_nested_mismatch_witness:
  "\<exists>res' b'. obj_next_filter (UJSON_READER_INIT (id_text ''a'' [] @ ''{}}'') 7 False) val_zero (Some [(''a'', UJSON_INT)]) None
      = (False, res', b') \<and> ujson_reader_err b'"
proof -
  let ?b = "UJSON_READER_INIT (id_text ''a'' [] @ ''{}}'') 7 False"
  have "at_text ?b (id_text ''a'' [] @ [] @ CHR ''{'' # ''}}'')"
    by (simp add: at_text_def UJSON_READER_INIT_def id_text_def)
  moreover have "ujson_obj_lookup [(''a'', UJSON_INT)] (c_str ''a'') = Some 0" by code_simp
  ultimately show ?thesis
    using filter_nested_mismatch [of ?b "''a''" "[]" "[]" "CHR ''{''" "''}}''" "[(''a'', UJSON_INT)]" 0 val_zero None]
    by (auto simp: id_ok_def UJSON_ID_MAX_def attr_matches_def UJSON_READER_INIT_def)
qed

end
