(* ===== verification/Ujson_Writer.thy ===== *)
theory Ujson_Writer
  imports Ujson_Common Ujson_Utf
begin

unbundle bit_operations_syntax

text \<open>
  The JSON writer (\<open>libs/ujson/ujson_writer.c\<close>, \<open>include/ujson_writer.h\<close>): the bit masks
  that remember what is open, the escaping of strings, the functions that add values, and the
  buffered file output.

  The output handler \<open>self->out\<close> is an argument of the operations that call it. It works on the
  private data \<open>out_priv\<close> and returns whether it failed, the new private data, and the error it
  stored in the writer, if any. An operation returns true where the code returns non-zero.
\<close>

section \<open>State\<close>

record 'p ujson_writer =
  depth :: int
  depth_type :: "8 word list"
  depth_first :: "8 word list"
  err_print :: bool
  err :: string
  out_priv :: 'p
  printed :: "string list"

type_synonym 'p out_handler = "'p \<Rightarrow> string \<Rightarrow> bool \<times> 'p \<times> string option"

definition UJSON_WRITER_INIT :: "'p \<Rightarrow> 'p ujson_writer" where
  "UJSON_WRITER_INIT vout_priv =
     \<lparr>depth = 0, depth_type = replicate (UJSON_RECURSION_MAX div 8) 0,
      depth_first = replicate (UJSON_RECURSION_MAX div 8) 0,
      err_print = True, err = [], out_priv = vout_priv, printed = []\<rparr>"

text \<open>A bit of a mask; -1 outside of every object and array.\<close>

definition get_depth_bit :: "'p ujson_writer \<Rightarrow> 8 word list \<Rightarrow> int" where
  "get_depth_bit self msk =
     (let d = c_int (depth self - 1) in
      if d < 0 then -1
      else if msk ! nat (d div 8) AND push_bit (nat (d mod 8)) 1 \<noteq> 0 then 1 else 0)"

definition set_depth_bit :: "'p ujson_writer \<Rightarrow> bool \<Rightarrow> 'p ujson_writer" where
  "set_depth_bit self v =
     (let i = nat (depth self div 8); bm = push_bit (nat (depth self mod 8)) 1;
          ty = depth_type self ! i; fi = depth_first self ! i in
      self\<lparr>depth_type := (depth_type self)[i := if v then ty OR bm else ty AND NOT bm],
           depth_first := (depth_first self)[i := fi OR bm],
           depth := c_uint (depth self + 1)\<rparr>)"

definition clear_depth_bit :: "'p ujson_writer \<Rightarrow> 'p ujson_writer" where
  "clear_depth_bit self = self\<lparr>depth := c_uint (depth self - 1)\<rparr>"

definition in_arr :: "'p ujson_writer \<Rightarrow> bool" where
  "in_arr self \<longleftrightarrow> get_depth_bit self (depth_type self) = 0"

definition in_obj :: "'p ujson_writer \<Rightarrow> bool" where
  "in_obj self \<longleftrightarrow> get_depth_bit self (depth_type self) \<noteq> 0"

definition clear_depth_first :: "'p ujson_writer \<Rightarrow> 'p ujson_writer" where
  "clear_depth_first self =
     (let d = c_int (depth self - 1); i = nat (d div 8) in
      self\<lparr>depth_first := (depth_first self)[i := depth_first self ! i AND NOT (push_bit (nat (d mod 8)) 1)]\<rparr>)"

definition is_first :: "'p ujson_writer \<Rightarrow> int \<times> 'p ujson_writer" where
  "is_first self =
     (let ret = get_depth_bit self (depth_first self) in
      (ret, if ret = 1 then clear_depth_first self else self))"

definition w_err :: "'p ujson_writer \<Rightarrow> string \<Rightarrow> 'p ujson_writer" where
  "w_err self msg = self\<lparr>err := vsnprintf UJSON_ERR_MAX msg\<rparr>"

definition is_err :: "'p ujson_writer \<Rightarrow> bool" where
  "is_err self \<longleftrightarrow> err self \<noteq> []"

section \<open>Output\<close>

definition w_out :: "'p out_handler \<Rightarrow> 'p ujson_writer \<Rightarrow> string \<Rightarrow> bool \<times> 'p ujson_writer" where
  "w_out h self s =
     (case h (out_priv self) s of
        (e, p, None) \<Rightarrow> (e, self\<lparr>out_priv := p\<rparr>)
      | (e, p, Some msg) \<Rightarrow> (e, w_err (self\<lparr>out_priv := p\<rparr>) msg))"

definition out_str :: "'p out_handler \<Rightarrow> 'p ujson_writer \<Rightarrow> string \<Rightarrow> bool \<times> 'p ujson_writer" where
  "out_str h self str = w_out h self str"

definition out_ch :: "'p out_handler \<Rightarrow> 'p ujson_writer \<Rightarrow> char \<Rightarrow> bool \<times> 'p ujson_writer" where
  "out_ch h self ch = w_out h self [ch]"

text \<open>The characters written as an escape sequence.\<close>

definition escape :: "char \<Rightarrow> string option" where
  "escape c =
     (if c = CHR 0x22 then Some [CHR 0x5C, CHR 0x22]
      else if c = CHR 0x5C then Some [CHR 0x5C, CHR 0x5C]
      else if c = CHR ''/'' then Some [CHR 0x5C, CHR ''/'']
      else if c = CHR 0x08 then Some [CHR 0x5C, CHR ''b'']
      else if c = CHR 0x0C then Some [CHR 0x5C, CHR ''f'']
      else if c = CHR 0x0A then Some [CHR 0x5C, CHR ''n'']
      else if c = CHR 0x0D then Some [CHR 0x5C, CHR ''r'']
      else if c = CHR 0x09 then Some [CHR 0x5C, CHR ''t'']
      else None)"

text \<open>The macro \<open>ESC_FLUSH\<close>: what is pending, then the escape; results are not looked at.\<close>

definition ESC_FLUSH :: "'p out_handler \<Rightarrow> 'p ujson_writer \<Rightarrow> string \<Rightarrow> nat \<Rightarrow> string \<Rightarrow> 'p ujson_writer" where
  "ESC_FLUSH h self val i esc_char = snd (out_str h (snd (w_out h self (take i val))) esc_char)"

text \<open>The loop of \<open>out_esc_str\<close>. \<open>None\<close> is a loop that does not end, a read outside of the string,
  or the decrement of \<open>i = 0\<close> that leads to one.\<close>

partial_function (option) esc_loop ::
  "'p out_handler \<Rightarrow> 'p ujson_writer \<Rightarrow> string \<Rightarrow> nat \<Rightarrow> ('p ujson_writer \<times> string \<times> nat) option" where
  "esc_loop h self val i =
     (case ujson_utf8_next_chsz val i of
        None \<Rightarrow> None
      | Some sz \<Rightarrow>
          if sz = 0 then Some (self, val, i)
          else if sz = 1 then
            (case escape (val ! i) of
               Some e \<Rightarrow> esc_loop h (ESC_FLUSH h self val i e) (drop (i + 1) val) 0
             | None \<Rightarrow> esc_loop h self val (i + 1))
          else if sz < 0 then (if i = 0 then None else esc_loop h self val (i - 1))
          else esc_loop h self val (i + nat sz))"

definition out_esc_str :: "'p out_handler \<Rightarrow> 'p ujson_writer \<Rightarrow> string \<Rightarrow> (bool \<times> 'p ujson_writer) option" where
  "out_esc_str h self val =
     (case out_ch h self (CHR 0x22) of
        (True, self) \<Rightarrow> Some (True, self)
      | (False, self) \<Rightarrow>
          (case esc_loop h self val 0 of
             None \<Rightarrow> None
           | Some (self, val, i) \<Rightarrow>
               let (e, self) = (if i \<noteq> 0 then w_out h self (take i val) else (False, self)) in
               if e then Some (True, self) else Some (out_ch h self (CHR 0x22))))"

fun padd_loop :: "'p out_handler \<Rightarrow> 'p ujson_writer \<Rightarrow> nat \<Rightarrow> bool \<times> 'p ujson_writer" where
  "padd_loop h self 0 = (False, self)"
| "padd_loop h self (Suc n) =
     (let (e, self) = out_ch h self (CHR '' '') in
      if e then (True, self) else padd_loop h self n)"

definition do_padd :: "'p out_handler \<Rightarrow> 'p ujson_writer \<Rightarrow> bool \<times> 'p ujson_writer" where
  "do_padd h self = padd_loop h self (nat (depth self))"

definition newline :: "'p out_handler \<Rightarrow> 'p ujson_writer \<Rightarrow> bool \<times> 'p ujson_writer" where
  "newline h self =
     (let (e, self) = out_ch h self (CHR 0x0A) in
      if e then (False, self) else do_padd h self)"

section \<open>Values\<close>

text \<open>\<open>None\<close> stands for an ID of NULL. The result is \<open>None\<close> where escaping an ID or a string does not return.\<close>

definition check_id :: "'p ujson_writer \<Rightarrow> string option \<Rightarrow> string option" where
  "check_id self eid =
     (if depth self = 0 then Some ''Object/Array has to be started first''
      else if in_arr self then (if eid \<noteq> None then Some (''Array entries can'' @ [CHR 0x27] @ ''t have id'') else None)
      else (if eid = None then Some ''Object entries must have id'' else None))"

definition add_common :: "'p out_handler \<Rightarrow> 'p ujson_writer \<Rightarrow> string option \<Rightarrow> (bool \<times> 'p ujson_writer) option" where
  "add_common h self eid =
     (if is_err self then Some (True, self) else
      case check_id self eid of
        Some msg \<Rightarrow> Some (True, w_err self msg)
      | None \<Rightarrow>
          let (first, self) = is_first self;
              (e, self) = (if first = 0 then out_ch h self (CHR '','') else (False, self)) in
          if e then Some (True, self) else
          let (e, self) = (if depth self \<noteq> 0 then newline h self else (False, self)) in
          if e then Some (True, self) else
          case eid of
            None \<Rightarrow> Some (False, self)
          | Some s \<Rightarrow>
              (case out_esc_str h self s of
                 None \<Rightarrow> None
               | Some (e, self) \<Rightarrow> if e then Some (True, self) else Some (out_str h self '': '')))"

definition ujson_obj_start :: "'p out_handler \<Rightarrow> 'p ujson_writer \<Rightarrow> string option \<Rightarrow> (bool \<times> 'p ujson_writer) option" where
  "ujson_obj_start h self eid =
     (if depth self \<ge> int UJSON_RECURSION_MAX then Some (True, self)
      else if depth self = 0 \<and> eid \<noteq> None then Some (True, w_err self ''Top level object cannot have id'')
      else case (if depth self \<noteq> 0 then add_common h self eid else Some (False, self)) of
        None \<Rightarrow> None
      | Some (True, self) \<Rightarrow> Some (True, self)
      | Some (False, self) \<Rightarrow>
          let (e, self) = out_ch h self (CHR ''{'') in
          if e then Some (True, self) else Some (False, set_depth_bit self True))"

definition ujson_obj_finish :: "'p out_handler \<Rightarrow> 'p ujson_writer \<Rightarrow> bool \<times> 'p ujson_writer" where
  "ujson_obj_finish h self =
     (if is_err self then (True, self)
      else if \<not> in_obj self then (True, w_err self ''Not in object!'')
      else
        let (first, self) = is_first self; self = clear_depth_bit self;
            self = (if first = 0 then snd (newline h self) else self) in
        out_ch h self (CHR ''}''))"

definition ujson_arr_start :: "'p out_handler \<Rightarrow> 'p ujson_writer \<Rightarrow> string option \<Rightarrow> (bool \<times> 'p ujson_writer) option" where
  "ujson_arr_start h self eid =
     (if depth self \<ge> int UJSON_RECURSION_MAX then Some (True, w_err self ''Recursion too deep'')
      else if depth self = 0 \<and> eid \<noteq> None then Some (True, w_err self ''Top level array cannot have id'')
      else case (if depth self \<noteq> 0 then add_common h self eid else Some (False, self)) of
        None \<Rightarrow> None
      | Some (True, self) \<Rightarrow> Some (True, self)
      | Some (False, self) \<Rightarrow>
          let (e, self) = out_ch h self (CHR ''['') in
          if e then Some (True, self) else Some (False, set_depth_bit self False))"

definition ujson_arr_finish :: "'p out_handler \<Rightarrow> 'p ujson_writer \<Rightarrow> bool \<times> 'p ujson_writer" where
  "ujson_arr_finish h self =
     (if is_err self then (True, self)
      else if \<not> in_arr self then (True, w_err self ''Not in array!'')
      else
        let (first, self) = is_first self; self = clear_depth_bit self;
            self = (if first = 0 then snd (newline h self) else self) in
        out_ch h self (CHR '']''))"

text \<open>Adding a scalar: \<open>add_common\<close>, then its text.\<close>

definition add_text :: "'p out_handler \<Rightarrow> 'p ujson_writer \<Rightarrow> string option \<Rightarrow> string \<Rightarrow> (bool \<times> 'p ujson_writer) option" where
  "add_text h self eid s =
     (case add_common h self eid of
        None \<Rightarrow> None
      | Some (True, self) \<Rightarrow> Some (True, self)
      | Some (False, self) \<Rightarrow> Some (out_str h self s))"

definition ujson_null_add :: "'p out_handler \<Rightarrow> 'p ujson_writer \<Rightarrow> string option \<Rightarrow> (bool \<times> 'p ujson_writer) option" where
  "ujson_null_add h self eid = add_text h self eid ''null''"

definition ujson_int_add :: "'p out_handler \<Rightarrow> 'p ujson_writer \<Rightarrow> string option \<Rightarrow> int \<Rightarrow> (bool \<times> 'p ujson_writer) option" where
  "ujson_int_add h self eid val = add_text h self eid (vsnprintf 64 (dec_of_int val))"

definition ujson_bool_add :: "'p out_handler \<Rightarrow> 'p ujson_writer \<Rightarrow> string option \<Rightarrow> int \<Rightarrow> (bool \<times> 'p ujson_writer) option" where
  "ujson_bool_add h self eid val = add_text h self eid (if val \<noteq> 0 then ''true'' else ''false'')"

definition ujson_str_add :: "'p out_handler \<Rightarrow> 'p ujson_writer \<Rightarrow> string option \<Rightarrow> string \<Rightarrow> (bool \<times> 'p ujson_writer) option" where
  "ujson_str_add h self eid val =
     (case add_common h self eid of
        None \<Rightarrow> None
      | Some (True, self) \<Rightarrow> Some (True, self)
      | Some (False, self) \<Rightarrow> out_esc_str h self val)"

text \<open>A \<open>double\<close> is represented by what \<open>%lg\<close> prints for it.\<close>

definition ujson_float_add :: "'p out_handler \<Rightarrow> 'p ujson_writer \<Rightarrow> string option \<Rightarrow> string \<Rightarrow> (bool \<times> 'p ujson_writer) option" where
  "ujson_float_add h self eid val = add_text h self eid (vsnprintf 64 val)"

definition ujson_writer_finish :: "'p out_handler \<Rightarrow> 'p ujson_writer \<Rightarrow> bool \<times> 'p ujson_writer" where
  "ujson_writer_finish h self =
     (let self' = (if \<not> is_err self \<and> depth self \<noteq> 0 then w_err self ''Objects and/or Arrays not finished'' else self) in
      if is_err self' then
        (True, if err_print self' then self'\<lparr>printed := printed self' @ [err self']\<rparr> else self')
      else newline h self')"

section \<open>Writing into a file\<close>

text \<open>
  The data behind a file writer: the buffer (the \<open>buf_used\<close> bytes of \<open>buf\<close>), what has reached
  the file and how often \<open>write()\<close> was called. The argument \<open>wr\<close> is the system call: what the
  \<open>k\<close>-th call returns when it is given \<open>n\<close> bytes; a call that returns \<open>r\<close> puts the first \<open>r\<close> of
  them into the file.
\<close>

record json_writer_file =
  wf_calls :: nat
  wf_file :: string
  wf_buf :: string

type_synonym write_call = "nat \<Rightarrow> nat \<Rightarrow> int"

definition WRITER_BUF :: nat where "WRITER_BUF = 1024"

function out_writer_file_write ::
  "write_call \<Rightarrow> json_writer_file \<Rightarrow> string \<Rightarrow> nat \<Rightarrow> bool \<times> json_writer_file \<times> string option" where
  "out_writer_file_write wr f buf buf_len =
     (let ret = wr (wf_calls f) buf_len;
          f' = f\<lparr>wf_calls := Suc (wf_calls f), wf_file := wf_file f @ take (nat ret) buf\<rparr> in
      if ret \<le> 0 then (True, f', Some ''Failed to write to a file'')
      else if ret > int buf_len then (True, f', Some ''Wrote more bytes than requested?!'')
      else if buf_len - nat ret \<noteq> 0 then out_writer_file_write wr f' buf (buf_len - nat ret)
      else (False, f', None))"
  by pat_completeness auto
termination by (relation "measure (\<lambda>(_, _, _, n). n)") auto

declare out_writer_file_write.simps [simp del]

definition out_writer_file :: "write_call \<Rightarrow> json_writer_file out_handler" where
  "out_writer_file wr f buf =
     (let buf_avail = WRITER_BUF - length (wf_buf f) in
      if length buf > WRITER_BUF div 4 then out_writer_file_write wr f buf (length buf)
      else if length buf \<ge> buf_avail then
        (case out_writer_file_write wr f (wf_buf f) (length (wf_buf f)) of
           (True, f, m) \<Rightarrow> (True, f, m)
         | (False, f, m) \<Rightarrow> (False, f\<lparr>wf_buf := buf\<rparr>, m))
      else (False, f\<lparr>wf_buf := wf_buf f @ buf\<rparr>, None))"

text \<open>
  Closing: what is buffered is written, the descriptor is closed, the writer is freed. The arguments
  are \<open>errno\<close> after the writing, the result of \<open>close()\<close> and \<open>errno\<close> after it.
\<close>

definition ujson_writer_file_close ::
  "write_call \<Rightarrow> int \<Rightarrow> int \<Rightarrow> int \<Rightarrow> json_writer_file ujson_writer \<Rightarrow> bool \<times> json_writer_file" where
  "ujson_writer_file_close wr errno_write close_ret errno_close self =
     (let f = out_priv self;
          (e, f, _) = (if wf_buf f \<noteq> [] then out_writer_file_write wr f (wf_buf f) (length (wf_buf f))
                       else (False, f, None));
          saved_errno = (if e then errno_write else 0);
          saved_errno = (if close_ret \<noteq> 0 \<and> saved_errno = 0 then errno_close else saved_errno) in
      (saved_errno \<noteq> 0, f))"

text \<open>Opening: the results of \<open>malloc()\<close> and of \<open>open()\<close> are arguments. The file is truncated.\<close>

definition ujson_writer_file_open :: "bool \<Rightarrow> int \<Rightarrow> (int \<times> json_writer_file ujson_writer) option" where
  "ujson_writer_file_open malloc_ok fd =
     (if \<not> malloc_ok then None
      else if fd = 0 then None
      else Some (fd, UJSON_WRITER_INIT \<lparr>wf_calls = 0, wf_file = [], wf_buf = []\<rparr>))"

section \<open>The bit masks are a stack\<close>

definition mask_bit :: "8 word list \<Rightarrow> nat \<Rightarrow> bool" where
  "mask_bit m k = bit (m ! (k div 8)) (k mod 8)"

text \<open>
  What is open, the innermost first: whether it is an object, and whether nothing was added yet.
\<close>

definition holds :: "'p ujson_writer \<Rightarrow> (bool \<times> bool) list \<Rightarrow> bool" where
  "holds w st \<longleftrightarrow> depth w = int (length st) \<and> length st \<le> UJSON_RECURSION_MAX
     \<and> length (depth_type w) = UJSON_RECURSION_MAX div 8 \<and> length (depth_first w) = UJSON_RECURSION_MAX div 8
     \<and> (\<forall>k < length st. rev st ! k = (mask_bit (depth_type w) k, mask_bit (depth_first w) k))"

lemma nat_int_div8 [simp]: "nat (int n div 8) = n div 8" "nat (int n mod 8) = n mod 8"
  by (simp_all add: nat_div_distrib nat_mod_distrib)

lemma byte_bits:
  fixes b :: "8 word"
  assumes "n < 8"
  shows "bit (b OR push_bit n 1) k \<longleftrightarrow> k = n \<or> bit b k" "bit (b AND NOT (push_bit n 1)) k \<longleftrightarrow> k \<noteq> n \<and> bit b k"
    "b AND push_bit n 1 \<noteq> 0 \<longleftrightarrow> bit b n"
proof -
  have 1: "bit (push_bit n 1 :: 8 word) i \<longleftrightarrow> i = n" for i
    using assms by (auto simp: bit_simps)
  show "bit (b OR push_bit n 1) k \<longleftrightarrow> k = n \<or> bit b k" "bit (b AND NOT (push_bit n 1)) k \<longleftrightarrow> k \<noteq> n \<and> bit b k"
    unfolding bit_or_iff bit_and_iff bit_not_iff 1 using bit_imp_le_length [of b k] by auto
  show "b AND push_bit n 1 \<noteq> 0 \<longleftrightarrow> bit b n"
    using bit_eq_iff [of "b AND push_bit n 1" 0] bit_imp_le_length [of b n] assms
    unfolding bit_and_iff bit_0_eq 1 by auto
qed

lemma mask_bit_update:
  assumes "j div 8 < length m"
  shows "mask_bit (m[j div 8 := m ! (j div 8) OR push_bit (j mod 8) 1]) k \<longleftrightarrow> k = j \<or> mask_bit m k"
    "mask_bit (m[j div 8 := m ! (j div 8) AND NOT (push_bit (j mod 8) 1)]) k \<longleftrightarrow> k \<noteq> j \<and> mask_bit m k"
proof -
  have "k div 8 = j div 8 \<Longrightarrow> k mod 8 = j mod 8 \<longleftrightarrow> k = j"
    by (metis div_mult_mod_eq)
  then show "mask_bit (m[j div 8 := m ! (j div 8) OR push_bit (j mod 8) 1]) k \<longleftrightarrow> k = j \<or> mask_bit m k"
    "mask_bit (m[j div 8 := m ! (j div 8) AND NOT (push_bit (j mod 8) 1)]) k \<longleftrightarrow> k \<noteq> j \<and> mask_bit m k"
    using assms byte_bits(1,2) [of "j mod 8" "m ! (j div 8)" "k mod 8"] unfolding mask_bit_def
    by (cases "k div 8 = j div 8"; force)+
qed

lemma get_depth_bit_holds:
  assumes "holds w (x # st)"
  shows "get_depth_bit w m = of_bool (mask_bit m (length st))"
proof -
  have "c_int (depth w - 1) = int (length st)"
    using assms by (simp add: holds_def UJSON_RECURSION_MAX_def c_simps)
  then show ?thesis
    using byte_bits(3) [of "length st mod 8" "m ! (length st div 8)"]
    unfolding get_depth_bit_def Let_def nat_int_div8 mask_bit_def by simp
qed


lemma holds_set_depth_bit:
  assumes "holds w st" "length st < UJSON_RECURSION_MAX"
  shows "holds (set_depth_bit w v) ((v, True) # st)"
proof -
  let ?j = "length st"
  have d: "depth w = int ?j" "c_uint (int ?j + 1) = int (Suc ?j)"
    using assms by (simp_all add: holds_def UJSON_RECURSION_MAX_def c_simps)
  have l: "?j div 8 < length (depth_type w)" "?j div 8 < length (depth_first w)"
    using assms by (simp_all add: holds_def UJSON_RECURSION_MAX_def)
  show ?thesis
    using assms unfolding holds_def set_depth_bit_def Let_def d nat_int_div8
    by (auto simp del: push_bit_of_1 simp: mask_bit_update [OF l(1)] mask_bit_update [OF l(2)] nth_append less_Suc_eq)
qed

lemma holds_clear_depth_bit:
  assumes "holds w (x # st)"
  shows "holds (clear_depth_bit w) st"
  using assms by (auto simp: holds_def clear_depth_bit_def UJSON_RECURSION_MAX_def c_simps nth_append split: if_splits)

lemma holds_top:
  assumes "holds w ((t, f) # st)"
  shows "in_obj w = t" "in_arr w = (\<not> t)" "get_depth_bit w (depth_first w) = of_bool f"
proof -
  have "rev ((t, f) # st) ! length st = (t, f)" by (simp add: nth_append)
  then have "mask_bit (depth_type w) (length st) = t" "mask_bit (depth_first w) (length st) = f"
    using assms by (auto simp: holds_def)
  then show "in_obj w = t" "in_arr w = (\<not> t)" "get_depth_bit w (depth_first w) = of_bool f"
    by (simp_all add: in_obj_def in_arr_def get_depth_bit_holds [OF assms])
qed

lemma holds_clear_depth_first:
  assumes "holds w ((t, f) # st)"
  shows "holds (clear_depth_first w) ((t, False) # st)"
proof -
  have d: "c_int (depth w - 1) = int (length st)" and l: "length st div 8 < length (depth_first w)"
    using assms by (auto simp: holds_def UJSON_RECURSION_MAX_def c_simps)
  have "rev st ! k = (mask_bit (depth_type w) k, mask_bit (depth_first w) k)" if "k < length st" for k
    using assms that by (auto simp: holds_def nth_append dest!: spec [of _ k])
  moreover have "mask_bit (depth_type w) (length st) = t"
    using assms by (auto simp: holds_def nth_append dest!: spec [of _ "length st"])
  ultimately show ?thesis
    using assms unfolding holds_def clear_depth_first_def Let_def d nat_int_div8
    by (auto simp del: push_bit_of_1 simp: mask_bit_update [OF l] nth_append less_Suc_eq split: if_splits)
qed

lemma holds_is_first:
  assumes "holds w ((t, f) # st)"
  obtains w' where "is_first w = (of_bool f, w')" "holds w' ((t, False) # st)" "err w' = err w" "out_priv w' = out_priv w"
    "depth w' = depth w"
proof
  show "is_first w = (of_bool f, if f then clear_depth_first w else w)"
    using holds_top [OF assms] by (simp add: is_first_def)
  show "holds (if f then clear_depth_first w else w) ((t, False) # st)"
    using holds_clear_depth_first [OF assms] assms by auto
qed (simp_all add: clear_depth_first_def Let_def)

lemma holds_bottom:
  assumes "holds w []"
  shows "in_obj w" "\<not> in_arr w"
  using assms by (simp_all add: holds_def in_obj_def in_arr_def get_depth_bit_def c_simps)

text \<open>C36: The two bit masks with \<open>depth\<close> implement a stack of at most \<open>UJSON_RECURSION_MAX\<close> open
  objects and arrays: starting one pushes an entry that is empty so far, the tests see the kind of
  the innermost one, \<open>is_first\<close> reports an entry once as empty and finishing one pops its entry. The
  other entries are not touched, also those whose bits share a byte with the changed one.\<close>
theorem depth_bits_stack:
  assumes "holds w st"
  shows "(length st < UJSON_RECURSION_MAX \<longrightarrow> holds (set_depth_bit w v) ((v, True) # st))
    \<and> (\<forall>t f st'. st = (t, f) # st' \<longrightarrow> holds (clear_depth_bit w) st' \<and> in_obj w = t \<and> in_arr w = (\<not> t)
      \<and> fst (is_first w) = of_bool f \<and> holds (snd (is_first w)) ((t, False) # st'))"
  using assms holds_set_depth_bit [OF assms] holds_clear_depth_bit holds_top(1,2) holds_is_first
  by (metis fst_conv snd_conv)

theorem depth_bits_stack_witness:
  "holds (UJSON_WRITER_INIT ()) [] \<and> holds (set_depth_bit (UJSON_WRITER_INIT ()) True) [(True, True)]"
  using depth_bits_stack [of "UJSON_WRITER_INIT ()" "[]" True]
  by (simp add: holds_def UJSON_WRITER_INIT_def UJSON_RECURSION_MAX_def)


section \<open>Escaping\<close>

text \<open>A string that is a sequence of characters for \<open>ujson_utf8_next_chsz\<close>.\<close>

function utf8_ok :: "string \<Rightarrow> bool" where
  "utf8_ok s \<longleftrightarrow>
     (case ujson_utf8_next_chsz s 0 of
        None \<Rightarrow> False
      | Some r \<Rightarrow> if r = 0 then s = [] else if r < 0 then False else utf8_ok (drop (nat r) s))"
  by pat_completeness auto
termination
proof (relation "measure length", goal_cases)
  case (2 s r)
  then show ?case using next_chsz_safe [of 0 s] by auto
qed simp

declare utf8_ok.simps [simp del]

definition escaped :: "string \<Rightarrow> string" where
  "escaped s = concat (map (\<lambda>c. case escape c of Some e \<Rightarrow> e | None \<Rightarrow> [c]) s)"

lemma escaped_simps [simp]:
  "escaped [] = []" "escaped (s @ t) = escaped s @ escaped t"
  "escape c = None \<Longrightarrow> escaped (c # s) = c # escaped s" "escape c = Some e \<Longrightarrow> escaped (c # s) = e @ escaped s"
  by (simp_all add: escaped_def)

lemma escaped_None: "list_all (\<lambda>c. escape c = None) s \<Longrightarrow> escaped s = s"
  by (induction s) auto

text \<open>Only ASCII characters are escaped.\<close>

lemma escape_ascii: "escape c = Some e \<Longrightarrow> UJSON_UTF8_IS_ASCII (byte_of c)"
  by (auto simp: escape_def UJSON_UTF8_IS_ASCII_def byte_of_def split: if_splits)

lemma nbyte_no_lead:
  assumes "UJSON_UTF8_IS_NBYTE (byte_of c)"
  shows "\<not> UJSON_UTF8_IS_ASCII (byte_of c)" "\<not> UJSON_UTF8_IS_2BYTE (byte_of c)"
    "\<not> UJSON_UTF8_IS_3BYTE (byte_of c)" "\<not> UJSON_UTF8_IS_4BYTE (byte_of c)" "byte_of c \<noteq> 0"
proof -
  have m: "byte_of c AND m = k \<Longrightarrow> byte_of c AND (m AND 0xc0) = k AND 0xc0" for m k
    by (metis and.assoc)
  show "\<not> UJSON_UTF8_IS_ASCII (byte_of c)" "\<not> UJSON_UTF8_IS_2BYTE (byte_of c)"
    "\<not> UJSON_UTF8_IS_3BYTE (byte_of c)" "\<not> UJSON_UTF8_IS_4BYTE (byte_of c)" "byte_of c \<noteq> 0"
    using assms m [of "0xe0" "0xc0"] m [of "0xf0" "0xe0"] m [of "0xf8" "0xf0"]
      and.assoc [of "byte_of c" "0xc0" "0x80"]
    by (auto simp: UJSON_UTF8_IS_ASCII_def UJSON_UTF8_IS_NBYTE_def UJSON_UTF8_IS_2BYTE_def
        UJSON_UTF8_IS_3BYTE_def UJSON_UTF8_IS_4BYTE_def)
qed

lemma next_chsz_append: "ujson_utf8_next_chsz (p @ s) (length p + i) = ujson_utf8_next_chsz s i"
proof -
  have n: "check_nbytes (p @ s) (length p + i) n = check_nbytes s i n" for n
    unfolding check_nbytes_def add.assoc str_get_append ..
  show ?thesis unfolding ujson_utf8_next_chsz_def str_get_append n ..
qed

text \<open>The bytes behind the first one of a character are continuation bytes.\<close>

lemma check_nbytes_tail:
  assumes "check_nbytes s 0 n = Some r" "0 < r" "0 < i" "i < nat r" "n \<in> {2, 3, 4}"
  shows "r = int n \<and> (\<exists>c. str_get s i = Some c \<and> UJSON_UTF8_IS_NBYTE (byte_of c))"
proof -
  have "r = int n" using assms by (auto simp: check_nbytes_def split: bind_splits if_splits)
  moreover from this have "i = Suc 0 \<or> n \<in> {3, 4} \<and> i = Suc (Suc 0) \<or> n = 4 \<and> i = 3"
    using assms by auto
  ultimately show ?thesis
    using assms by (elim disjE; auto simp: check_nbytes_def split: bind_splits if_splits)
qed


text \<open>
  In \<open>p @ s\<close> the position behind \<open>p\<close> is not passed from inside of \<open>p\<close>: every position there is
  inside of a character, or at one that needs no escape.
\<close>

definition pending :: "string \<Rightarrow> string \<Rightarrow> bool" where
  "pending p s \<longleftrightarrow> list_all (\<lambda>c. escape c = None) p \<and>
     (\<forall>i < length p. \<exists>r. ujson_utf8_next_chsz (p @ s) i = Some r \<and> r \<noteq> 0 \<and> i + nat r \<le> length p)"

lemma pending_Nil [simp]: "pending [] s"
  by (simp add: pending_def)

lemma next_chsz_inside:
  assumes "ujson_utf8_next_chsz s 0 = Some r" "0 < i" "i < nat r"
  shows "ujson_utf8_next_chsz s i = Some (-1) \<and> escape (s ! i) = None"
proof -
  have "\<exists>c. str_get s i = Some c \<and> UJSON_UTF8_IS_NBYTE (byte_of c)"
    using assms by (auto simp: ujson_utf8_next_chsz_def Let_def split: bind_splits if_splits dest: check_nbytes_tail)
  then obtain c where c: "str_get s i = Some c" "UJSON_UTF8_IS_NBYTE (byte_of c)" by blast
  have "i < length s"
    using next_chsz_safe [of 0 s] assms by auto
  then have "c = s ! i"
    using c(1) by (simp add: str_get_def flip: Cons_nth_drop_Suc)
  then show ?thesis
    using c nbyte_no_lead [OF c(2)] escape_ascii [of "s ! i"]
    by (cases "escape (s ! i)") (auto simp: ujson_utf8_next_chsz_def)
qed

lemma pending_step:
  assumes "pending p s" "ujson_utf8_next_chsz s 0 = Some r" "0 < r" "escape (hd s) = None"
  shows "pending (p @ take (nat r) s) (drop (nat r) s)"
proof -
  have l: "nat r \<le> length s" using next_chsz_safe [of 0 s] assms(2,3) by auto
  have "escape (s ! i) = None" if "i < nat r" for i
    using that next_chsz_inside [OF assms(2), of i] assms(4) l by (cases s; cases "i = 0") auto
  then have 1: "list_all (\<lambda>c. escape c = None) (take (nat r) s)"
    using l by (simp add: list_all_length)
  have "\<exists>q. ujson_utf8_next_chsz (p @ s) i = Some q \<and> q \<noteq> 0 \<and> i + nat q \<le> length p + nat r"
    if "i < length p + nat r" for i
  proof (cases "i < length p")
    case True
    then show ?thesis using assms(1) by (auto simp: pending_def)
  next
    case False
    then show ?thesis
      using that next_chsz_append [of p s "i - length p"] next_chsz_inside [OF assms(2), of "i - length p"] assms(2,3)
      by (cases "i = length p") auto
  qed
  then show ?thesis using assms(1) 1 l by (simp add: pending_def min_absorb2)
qed


lemma byte_of_eq_0: "byte_of c = 0 \<longleftrightarrow> c = NUL"
proof
  assume "byte_of c = 0"
  then have "(of_nat (of_char c) :: 8 word) = 0" by (simp only: byte_of_def of_nat_of_char)
  then have "256 dvd (of_char c :: nat)" unfolding word_of_nat_eq_0_iff by simp
  then have "of_char c = (0 :: nat)" by (metis dvd_imp_le gr0I leD nat_of_char_less_256)
  then have "c = char_of (0 :: nat)" by (metis char_of_char)
  then show "c = NUL" by (simp add: char_of_def)
qed (simp add: byte_of_NUL)

text \<open>At a byte that starts no character the loop steps back, and forth again.\<close>

lemma esc_loop_stuck_aux:
  assumes "esc_loop h w val i = Some x"
  shows "val = p @ s \<Longrightarrow> pending p s \<Longrightarrow> ujson_utf8_next_chsz s 0 = Some (-1) \<Longrightarrow> i \<le> length p \<Longrightarrow> False"
  using assms
proof (induction rule: esc_loop.raw_induct [rotated, consumes 1, case_names Step])
  case (Step loop h w val i x)
  have le: "i - 1 \<le> length p" using Step.prems by simp
  show ?case
  proof (cases "i = length p")
    case True
    then have "ujson_utf8_next_chsz val i = Some (-1)"
      using next_chsz_append [of p s 0] Step.prems by simp
    then show ?thesis
      using Step.prems Step.IH [of h w val "i - 1" x] Step.hyps le by (auto split: if_splits)
  next
    case False
    then have "i < length p" using Step.prems by simp
    then obtain r where r: "ujson_utf8_next_chsz val i = Some r" "r \<noteq> 0" "i + nat r \<le> length p"
      and e: "escape (val ! i) = None"
      using Step.prems by (auto simp: pending_def list_all_length nth_append)
    then show ?thesis
      using Step.prems Step.IH [of h w val "i - 1" x] Step.IH [of h w val "i + nat r" x] Step.hyps le
      by (auto split: if_splits)
  qed
qed

lemma esc_loop_stuck:
  assumes "pending p s" "ujson_utf8_next_chsz s 0 = Some (-1)"
  shows "esc_loop h w (p @ s) (length p) = None"
  using esc_loop_stuck_aux [OF _ refl assms order_refl] by (metis not_None_eq)

lemma esc_loop_step:
  assumes "pending p s" "ujson_utf8_next_chsz s 0 = Some r" "0 < r"
  shows "esc_loop h w (p @ s) (length p) =
     (case escape (hd s) of
        Some e \<Rightarrow> esc_loop h (ESC_FLUSH h w (p @ s) (length p) e) (tl s) 0
      | None \<Rightarrow> esc_loop h w ((p @ take (nat r) s) @ drop (nat r) s) (length (p @ take (nat r) s)))"
    and "escape (hd s) \<noteq> None \<Longrightarrow> r = 1"
proof -
  have n: "ujson_utf8_next_chsz (p @ s) (length p) = Some r"
    using next_chsz_append [of p s 0] assms(2) by simp
  have l: "nat r \<le> length s" using next_chsz_safe [of 0 s] assms(2,3) by auto
  then obtain c s' where s: "s = c # s'" using assms(3) by (cases s) auto
  show "escape (hd s) \<noteq> None \<Longrightarrow> r = 1"
    using assms(2,3) escape_ascii [of c] by (auto simp: s ujson_utf8_next_chsz_def str_get_def Let_def split: if_splits)
  moreover have "r = 1 \<Longrightarrow> nat r = Suc 0" by simp
  ultimately show "esc_loop h w (p @ s) (length p) =
     (case escape (hd s) of
        Some e \<Rightarrow> esc_loop h (ESC_FLUSH h w (p @ s) (length p) e) (tl s) 0
      | None \<Rightarrow> esc_loop h w ((p @ take (nat r) s) @ drop (nat r) s) (length (p @ take (nat r) s)))"
    using assms(3) l n by (subst esc_loop.simps) (cases "r = 1"; auto simp: s split: option.split)
qed

lemma esc_loop_invalid:
  assumes "pending p s" "NUL \<notin> set s" "\<not> utf8_ok s"
  shows "esc_loop h w (p @ s) (length p) = None"
  using assms
proof (induction s arbitrary: p w rule: utf8_ok.induct)
  case (1 s)
  obtain r where r: "ujson_utf8_next_chsz s 0 = Some r" "r = -1 \<or> 0 \<le> r \<and> nat r \<le> length s"
    using next_chsz_safe [of 0 s] by auto
  show ?case
  proof (cases "0 < r")
    case True
    note step = esc_loop_step(1) [OF 1(2) r(1) True, of h w] esc_loop_step(2) [OF 1(2) r(1) True]
    have IH: "pending p' (drop (nat r) s) \<Longrightarrow> esc_loop h w' (p' @ drop (nat r) s) (length p') = None" for p' w'
      using 1 r True utf8_ok.simps [of s] by (auto dest: in_set_dropD)
    show ?thesis
    proof (cases "escape (hd s)")
      case None
      then show ?thesis using step(1) IH [OF pending_step [OF 1(2) r(1) True]] by simp
    next
      case (Some e)
      then show ?thesis using step IH [of "[]"] by (simp add: drop_Suc)
    qed
  next
    case False
    then have "r = -1 \<or> r = 0" using r(2) by auto
    moreover have "r \<noteq> 0"
    proof
      assume "r = 0"
      then have "s \<noteq> []" using 1(4) r(1) utf8_ok.simps [of s] by auto
      then show False using r(1) \<open>r = 0\<close> 1(3)
        by (cases s) (auto simp: ujson_utf8_next_chsz_def str_get_def check_nbytes_def byte_of_eq_0 Let_def split: bind_splits if_splits)
    qed
    ultimately show ?thesis using esc_loop_stuck [OF 1(2)] r(1) by simp
  qed
qed


text \<open>The line break with its indentation, and the ID before a value.\<close>

definition line :: "nat \<Rightarrow> string" where
  "line d = CHR 0x0A # replicate d (CHR '' '')"

definition key_text :: "string option \<Rightarrow> string" where
  "key_text k = (case k of None \<Rightarrow> [] | Some s \<Rightarrow> CHR 0x22 # escaped s @ CHR 0x22 # '': '')"


section \<open>Output that keeps everything\<close>

text \<open>
  What the writer relies on: a handler that takes every piece of at most \<open>limit\<close> bytes and appends
  it to what it has shown so far. The constant pieces of a document have less than 64 bytes.
\<close>

locale json_output =
  fixes h :: "'p out_handler" and shown :: "'p \<Rightarrow> string" and valid :: "'p \<Rightarrow> bool" and limit :: nat
  assumes limit_ge: "64 \<le> limit"
    and out_ok: "valid p \<Longrightarrow> length s \<le> limit \<Longrightarrow>
      \<exists>p'. h p s = (False, p', None) \<and> valid p' \<and> shown p' = shown p @ s"
begin

text \<open>Only the output changed, by the text \<open>s\<close>.\<close>

definition wrote :: "'p ujson_writer \<Rightarrow> string \<Rightarrow> 'p ujson_writer \<Rightarrow> bool" where
  "wrote w s w' \<longleftrightarrow> w' = w\<lparr>out_priv := out_priv w'\<rparr> \<and> valid (out_priv w')
     \<and> shown (out_priv w') = shown (out_priv w) @ s"

lemma wrote_refl: "valid (out_priv w) \<Longrightarrow> wrote w [] w"
  by (simp add: wrote_def)

lemma wrote_trans: "wrote w s w' \<Longrightarrow> wrote w' t w'' \<Longrightarrow> wrote w (s @ t) w''"
  by (cases w; cases w'; cases w'') (auto simp: wrote_def)

lemma wrote_valid: "wrote w s w' \<Longrightarrow> valid (out_priv w')"
  by (simp add: wrote_def)

lemma wrote_fields:
  assumes "wrote w s w'"
  shows "depth w' = depth w" "err w' = err w" "holds w' st = holds w st" "is_err w' = is_err w"
proof -
  obtain p where "w' = w\<lparr>out_priv := p\<rparr>" using assms by (auto simp: wrote_def)
  then show "depth w' = depth w" "err w' = err w" "holds w' st = holds w st" "is_err w' = is_err w"
    by (simp_all add: holds_def is_err_def)
qed

lemma w_out_wrote:
  assumes "valid (out_priv w)" "length s \<le> limit"
  obtains w' where "w_out h w s = (False, w')" "wrote w s w'"
  using out_ok [OF assms] by (auto simp: w_out_def wrote_def)

lemma out_ch_wrote:
  assumes "valid (out_priv w)"
  obtains w' where "out_ch h w c = (False, w')" "wrote w [c] w'"
  using w_out_wrote [OF assms, of "[c]"] limit_ge by (auto simp: out_ch_def)

lemma padd_wrote:
  assumes "valid (out_priv w)"
  obtains w' where "padd_loop h w n = (False, w')" "wrote w (replicate n (CHR '' '')) w'"
proof -
  have "\<exists>w'. padd_loop h w n = (False, w') \<and> wrote w (replicate n (CHR '' '')) w'"
    using assms
  proof (induction n arbitrary: w)
    case 0
    then show ?case by (simp add: wrote_refl)
  next
    case (Suc n)
    obtain w1 where w1: "out_ch h w (CHR '' '') = (False, w1)" "wrote w '' '' w1"
      by (rule out_ch_wrote [OF Suc.prems])
    then obtain w2 where "padd_loop h w1 n = (False, w2)" "wrote w1 (replicate n (CHR '' '')) w2"
      using Suc.IH [OF wrote_valid [OF w1(2)]] by blast
    then show ?case using w1 wrote_trans [OF w1(2)] by auto
  qed
  then show thesis using that by blast
qed

lemma newline_wrote:
  assumes "valid (out_priv w)"
  obtains w' where "newline h w = (False, w')" "wrote w (CHR 0x0A # replicate (nat (depth w)) (CHR '' '')) w'"
proof -
  obtain w1 where w1: "out_ch h w (CHR 0x0A) = (False, w1)" "wrote w [CHR 0x0A] w1"
    by (rule out_ch_wrote [OF assms])
  obtain w2 where "padd_loop h w1 (nat (depth w1)) = (False, w2)" "wrote w1 (replicate (nat (depth w1)) (CHR '' '')) w2"
    by (rule padd_wrote [OF wrote_valid [OF w1(2)]])
  then show thesis
    using that w1 wrote_trans [OF w1(2)] wrote_fields(1) [OF w1(2)] by (simp add: newline_def do_padd_def)
qed

lemma ESC_FLUSH_wrote:
  assumes "valid (out_priv w)" "length p \<le> limit" "length e \<le> limit"
  shows "wrote w (p @ e) (ESC_FLUSH h w (p @ s) (length p) e)"
proof -
  obtain w1 where w1: "w_out h w p = (False, w1)" "wrote w p w1"
    by (rule w_out_wrote [OF assms(1,2)])
  obtain w2 where "w_out h w1 e = (False, w2)" "wrote w1 e w2"
    by (rule w_out_wrote [OF wrote_valid [OF w1(2)] assms(3)])
  then show ?thesis using w1 wrote_trans by (simp add: ESC_FLUSH_def out_str_def)
qed

lemma escape_short: "escape c = Some e \<Longrightarrow> length e \<le> limit"
  using limit_ge by (auto simp: escape_def split: if_splits)

lemma esc_loop_wrote:
  assumes "valid (out_priv w)" "pending p s" "utf8_ok s" "length p + length s \<le> limit"
  shows "\<exists>w' q. esc_loop h w (p @ s) (length p) = Some (w', q, length q) \<and> length q \<le> limit
    \<and> (\<exists>t. wrote w t w' \<and> t @ q = p @ escaped s)"
  using assms
proof (induction s arbitrary: p w rule: utf8_ok.induct)
  case (1 s)
  obtain r where r: "ujson_utf8_next_chsz s 0 = Some r" "r = -1 \<or> 0 \<le> r \<and> nat r \<le> length s"
    using next_chsz_safe [of 0 s] by auto
  then consider "r = 0" "s = []" | "0 < r" "utf8_ok (drop (nat r) s)"
    using utf8_ok.simps [of s] \<open>utf8_ok s\<close> by (auto split: if_splits)
  then show ?case
  proof cases
    case 1
    then have "esc_loop h w (p @ s) (length p) = Some (w, p, length p)"
      using r(1) next_chsz_append [of p s 0] by (subst esc_loop.simps) simp
    then show ?thesis using 1(2) "1.prems" wrote_refl by auto
  next
    case 2
    note IH = "1.IH" [OF r(1)]
    note step = esc_loop_step(1) [OF "1.prems"(2) r(1) 2(1), of h w] esc_loop_step(2) [OF "1.prems"(2) r(1) 2(1)]
    obtain c s' where s: "s = c # s'" using r(2) 2(1) by (cases s) auto
    show ?thesis
    proof (cases "escape (hd s)")
      case None
      have "pending (p @ take (nat r) s) (drop (nat r) s)"
        by (rule pending_step [OF "1.prems"(2) r(1) 2(1) None])
      moreover have "escaped (take (nat r) s) = take (nat r) s"
        using calculation by (simp add: pending_def escaped_None)
      then have "escaped s = take (nat r) s @ escaped (drop (nat r) s)"
        by (metis append_take_drop_id escaped_simps(2))
      ultimately show ?thesis
        using IH [of w "p @ take (nat r) s"] "1.prems" 2 r(2) step(1) None by (simp add: min_absorb2)
    next
      case (Some e)
      have w1: "wrote w (p @ e) (ESC_FLUSH h w (p @ s) (length p) e)"
        using ESC_FLUSH_wrote escape_short Some "1.prems" by auto
      have r1: "r = 1" using step(2) Some by simp
      obtain w' q t where "esc_loop h (ESC_FLUSH h w (p @ s) (length p) e) s' 0 = Some (w', q, length q)" "length q \<le> limit"
        "wrote (ESC_FLUSH h w (p @ s) (length p) e) t w'" "t @ q = escaped s'"
        using IH [of "ESC_FLUSH h w (p @ s) (length p) e" "[]"] "1.prems" 2 r1 wrote_valid [OF w1] by (auto simp: s)
      then show ?thesis using step(1) Some wrote_trans [OF w1] by (fastforce simp: s)
    qed
  qed
qed


lemma out_esc_str_wrote:
  assumes "valid (out_priv w)" "utf8_ok s" "length s \<le> limit"
  obtains w' where "out_esc_str h w s = Some (False, w')" "wrote w (CHR 0x22 # escaped s @ [CHR 0x22]) w'"
proof -
  obtain w1 where w1: "out_ch h w (CHR 0x22) = (False, w1)" "wrote w [CHR 0x22] w1"
    by (rule out_ch_wrote [OF assms(1)])
  obtain w2 q t where w2: "esc_loop h w1 s 0 = Some (w2, q, length q)" "length q \<le> limit" "wrote w1 t w2" "t @ q = escaped s"
    using esc_loop_wrote [OF wrote_valid [OF w1(2)] pending_Nil assms(2)] assms(3) by auto
  obtain w3 where w3: "(if length q \<noteq> 0 then w_out h w2 (take (length q) q) else (False, w2)) = (False, w3)" "wrote w2 q w3"
    using w_out_wrote [OF wrote_valid [OF w2(3)] w2(2)] wrote_refl [OF wrote_valid [OF w2(3)]] by - (cases "q = []"; auto)
  obtain w4 where w4: "out_ch h w3 (CHR 0x22) = (False, w4)" "wrote w3 [CHR 0x22] w4"
    by (rule out_ch_wrote [OF wrote_valid [OF w3(2)]])
  have "wrote w ([CHR 0x22] @ (t @ q) @ [CHR 0x22]) w4"
    using wrote_trans [OF wrote_trans [OF wrote_trans [OF w1(2) w2(3)] w3(2)] w4(2)] by simp
  then show thesis using that w1(1) w2(1,4) w3(1) w4(1) by (simp add: out_esc_str_def)
qed

text \<open>What \<open>add_common\<close> writes before a value.\<close>

lemma out_id_wrote:
  assumes "valid (out_priv w)" "\<forall>k. eid = Some k \<longrightarrow> utf8_ok k \<and> length k \<le> limit"
  obtains w' where "(case eid of None \<Rightarrow> Some (False, w) | Some s \<Rightarrow>
      (case out_esc_str h w s of None \<Rightarrow> None | Some (e, w) \<Rightarrow> if e then Some (True, w) else Some (out_str h w '': '')))
      = Some (False, w')" "wrote w (key_text eid) w'"
proof (cases eid)
  case None
  then show ?thesis using that wrote_refl [OF assms(1)] by (simp add: key_text_def)
next
  case (Some k)
  then obtain w1 where w1: "out_esc_str h w k = Some (False, w1)" "wrote w (CHR 0x22 # escaped k @ [CHR 0x22]) w1"
    using out_esc_str_wrote [OF assms(1)] assms(2) by metis
  obtain w2 where "w_out h w1 '': '' = (False, w2)" "wrote w1 '': '' w2"
    using w_out_wrote [OF wrote_valid [OF w1(2)], of "'': ''"] limit_ge by auto
  then show ?thesis using that w1 wrote_trans [OF w1(2)] Some by (simp add: key_text_def out_str_def)
qed

definition ready :: "'p ujson_writer \<Rightarrow> (bool \<times> bool) list \<Rightarrow> bool" where
  "ready w st \<longleftrightarrow> holds w st \<and> err w = [] \<and> valid (out_priv w)"

lemma ready_wrote: "ready w st \<Longrightarrow> wrote w s w' \<Longrightarrow> ready w' st"
  using wrote_fields [of w s w'] wrote_valid [of w s w'] by (auto simp: ready_def)

lemma ready_depth: "ready w st \<Longrightarrow> depth w = int (length st)"
  by (simp add: ready_def holds_def)

lemma add_common_ready:
  assumes "ready w ((t, f) # st)" "\<forall>k. eid = Some k \<longrightarrow> utf8_ok k \<and> length k \<le> limit" "t \<longleftrightarrow> eid \<noteq> None"
  obtains w' where "add_common h w eid = Some (False, w')" "ready w' ((t, False) # st)"
    "shown (out_priv w') = shown (out_priv w) @ (if f then [] else '','') @ line (Suc (length st)) @ key_text eid"
proof -
  have h: "holds w ((t, f) # st)" and e: "err w = []" and v: "valid (out_priv w)" using assms(1) by (auto simp: ready_def)
  obtain w1 where w1: "is_first w = (of_bool f, w1)" "holds w1 ((t, False) # st)" "err w1 = err w" "out_priv w1 = out_priv w"
    by (rule holds_is_first [OF h])
  then have r1: "ready w1 ((t, False) # st)" using e v by (simp add: ready_def)
  then have v1: "valid (out_priv w1)" by (simp add: ready_def)
  obtain w2 where w2: "(if of_bool f = (0 :: int) then out_ch h w1 (CHR '','') else (False, w1)) = (False, w2)"
    "wrote w1 (if f then [] else '','') w2"
    using out_ch_wrote [OF v1, of "CHR '',''"] wrote_refl [OF v1] by - (cases f; auto)
  have d: "depth w2 = int (Suc (length st))" using ready_depth [OF ready_wrote [OF r1 w2(2)]] by simp
  obtain w3 where w3: "newline h w2 = (False, w3)" "wrote w2 (line (Suc (length st))) w3"
    by (rule newline_wrote [OF wrote_valid [OF w2(2)], unfolded d nat_int, folded line_def])
  obtain w4 where w4: "(case eid of None \<Rightarrow> Some (False, w3) | Some s \<Rightarrow>
      (case out_esc_str h w3 s of None \<Rightarrow> None | Some (e, w) \<Rightarrow> if e then Some (True, w) else Some (out_str h w '': '')))
      = Some (False, w4)" "wrote w3 (key_text eid) w4"
    by (rule out_id_wrote [OF wrote_valid [OF w3(2)] assms(2)])
  have "check_id w eid = None" "\<not> is_err w"
    using assms(3) holds_top(2) [OF h] ready_depth [OF assms(1)] e by (auto simp: check_id_def is_err_def)
  then have "add_common h w eid = Some (False, w4)"
    using w1(1) w2(1) w3(1) w4(1) d by (simp add: add_common_def Let_def)
  moreover note wr = wrote_trans [OF w2(2) wrote_trans [OF w3(2) w4(2)]]
  have "shown (out_priv w4) = shown (out_priv w) @ (if f then [] else '','') @ line (Suc (length st)) @ key_text eid"
    using wr unfolding wrote_def w1(4) by blast
  ultimately show thesis
    using that ready_wrote [OF r1 wr] by blast
qed

end


section \<open>The file output\<close>

definition full_write :: write_call where
  "full_write k n = int n"

definition file_text :: "json_writer_file \<Rightarrow> string" where
  "file_text f = wf_file f @ wf_buf f"

definition file_ok :: "json_writer_file \<Rightarrow> bool" where
  "file_ok f \<longleftrightarrow> length (wf_buf f) < WRITER_BUF"

lemma file_write_full:
  assumes "buf \<noteq> []"
  shows "out_writer_file_write full_write f buf (length buf) =
    (False, f\<lparr>wf_calls := Suc (wf_calls f), wf_file := wf_file f @ buf\<rparr>, None)"
  using assms by (subst out_writer_file_write.simps) (simp add: full_write_def Let_def)

text \<open>Where \<open>write()\<close> always takes everything, pieces of at most a quarter of the buffer are kept in order.\<close>

interpretation fo: json_output "out_writer_file full_write" file_text file_ok "WRITER_BUF div 4"
proof
  fix p :: json_writer_file and s :: string
  assume p: "file_ok p" and s: "length s \<le> WRITER_BUF div 4"
  show "\<exists>p'. out_writer_file full_write p s = (False, p', None) \<and> file_ok p' \<and> file_text p' = file_text p @ s"
  proof (cases "length s \<ge> WRITER_BUF - length (wf_buf p)")
    case True
    then have "wf_buf p \<noteq> []" using s by (auto simp: WRITER_BUF_def)
    then show ?thesis
      using True p s file_write_full [of "wf_buf p" p]
      by (simp add: out_writer_file_def file_ok_def file_text_def WRITER_BUF_def)
  next
    case False
    then show ?thesis
      using p s by (simp add: out_writer_file_def file_ok_def file_text_def Let_def)
  qed
qed (simp add: WRITER_BUF_def)



text \<open>The file output loses the order of its data in two cases. A piece of more than a quarter
  of the buffer is written at once, ahead of what is still buffered. And when \<open>write()\<close> takes only
  the first \<open>r\<close> bytes of a piece the next call is given its beginning again, so that the file gets
  these bytes twice and never the last ones. Both cases report success.\<close>
theorem file_output_faults:
  assumes "256 < length big" "0 < r" "r < length buf" "wr (wf_calls f) (length buf) = int r"
    and "wr (Suc (wf_calls f)) (length buf - r) = int (length buf - r)"
  shows "(\<exists>f'. out_writer_file full_write f big = (False, f', None) \<and> file_text f' = wf_file f @ big @ wf_buf f)
    \<and> (\<exists>f'. out_writer_file_write wr f buf (length buf) = (False, f', None)
        \<and> wf_file f' = wf_file f @ take r buf @ take (length buf - r) buf)"
proof -
  have n: "nat (int (length buf) - int r) = length buf - r" by simp
  have "big \<noteq> []" using assms(1) by auto
  then have "out_writer_file full_write f big = (False, f\<lparr>wf_calls := Suc (wf_calls f), wf_file := wf_file f @ big\<rparr>, None)"
    using assms(1) file_write_full by (simp add: out_writer_file_def WRITER_BUF_def)
  moreover have "out_writer_file_write wr f buf (length buf) = (False, f\<lparr>wf_calls := Suc (Suc (wf_calls f)),
      wf_file := (wf_file f @ take r buf) @ take (length buf - r) buf\<rparr>, None)"
    using assms n by (subst out_writer_file_write.simps) (simp add: Let_def out_writer_file_write.simps)
  ultimately show ?thesis by (simp add: file_text_def)
qed

theorem file_output_faults_witness:
  "\<exists>f'. out_writer_file_write (\<lambda>k n. if k = 0 then 4 else int n) \<lparr>wf_calls = 0, wf_file = [], wf_buf = []\<rparr> ''abcdef''
     (length ''abcdef'')
     = (False, f', None) \<and> wf_file f' = ''abcdab''"
  using file_output_faults [of "replicate 300 CHR ''x''" 4 "''abcdef''" "\<lambda>k n. if k = 0 then 4 else int n"
      "\<lparr>wf_calls = 0, wf_file = [], wf_buf = []\<rparr>"] by auto


end
