(* ===== verification/Ujson_Session.thy ===== *)
theory Ujson_Session
  imports Ujson_Grammar Ujson_Writer
begin

text \<open>
  What a client writes with the functions of \<open>ujson_writer.h\<close>, in any order: an abstract machine
  that builds values and knows nothing of bits, buffers and text, the text of a value, and the
  simulation between the machine and the writer of \<open>Ujson_Writer\<close>. The text is in the grammar of
  \<open>Ujson_Grammar\<close>, so that the reader gets back what was written.
\<close>

section \<open>Calls\<close>

datatype call =
    Obj_start "string option" | Obj_finish | Arr_start "string option" | Arr_finish
  | Null_add "string option" | Int_add "string option" int | Bool_add "string option" int
  | Str_add "string option" string | Float_add "string option" string

fun do_call :: "'p out_handler \<Rightarrow> call \<Rightarrow> 'p ujson_writer \<Rightarrow> (bool \<times> 'p ujson_writer) option" where
  "do_call h (Obj_start k) w = ujson_obj_start h w k"
| "do_call h Obj_finish w = Some (ujson_obj_finish h w)"
| "do_call h (Arr_start k) w = ujson_arr_start h w k"
| "do_call h Arr_finish w = Some (ujson_arr_finish h w)"
| "do_call h (Null_add k) w = ujson_null_add h w k"
| "do_call h (Int_add k i) w = ujson_int_add h w k i"
| "do_call h (Bool_add k i) w = ujson_bool_add h w k i"
| "do_call h (Str_add k s) w = ujson_str_add h w k s"
| "do_call h (Float_add k t) w = ujson_float_add h w k t"

text \<open>A client that does not look at the results before \<open>ujson_writer_finish\<close>.\<close>

fun do_calls :: "'p out_handler \<Rightarrow> call list \<Rightarrow> 'p ujson_writer \<Rightarrow> 'p ujson_writer option" where
  "do_calls h [] w = Some w"
| "do_calls h (c # cs) w = (case do_call h c w of None \<Rightarrow> None | Some (_, w) \<Rightarrow> do_calls h cs w)"

section \<open>The machine\<close>

datatype frame = F_arr "jvalue list" | F_obj "(string \<times> jvalue) list"

text \<open>
  The finished documents and what is open, the innermost first, with its ID; a client error the
  writer has seen; or objects finished that were never started, which the writer does not see.
\<close>

datatype machine = Open "jvalue list" "(string option \<times> frame) list" | Wrong | Lost nat

fun is_obj :: "frame \<Rightarrow> bool" where
  "is_obj (F_obj _) = True"
| "is_obj (F_arr _) = False"

fun frame_empty :: "frame \<Rightarrow> bool" where
  "frame_empty (F_obj ms) \<longleftrightarrow> ms = []"
| "frame_empty (F_arr vs) \<longleftrightarrow> vs = []"

fun frame_value :: "frame \<Rightarrow> jvalue" where
  "frame_value (F_obj ms) = J_obj ms"
| "frame_value (F_arr vs) = J_arr vs"

definition new_frame :: "bool \<Rightarrow> frame" where
  "new_frame obj = (if obj then F_obj [] else F_arr [])"

fun frame_add :: "frame \<Rightarrow> string option \<Rightarrow> jvalue \<Rightarrow> frame" where
  "frame_add (F_obj ms) (Some k) v = F_obj (ms @ [(k, v)])"
| "frame_add (F_arr vs) None v = F_arr (vs @ [v])"
| "frame_add fr _ _ = fr"

fun m_add :: "string option \<Rightarrow> jvalue \<Rightarrow> machine \<Rightarrow> machine" where
  "m_add k v (Open docs ((i, fr) # st)) =
     (if is_obj fr \<longleftrightarrow> k \<noteq> None then Open docs ((i, frame_add fr k v) # st) else Wrong)"
| "m_add k v (Open docs []) = Wrong"
| "m_add k v Wrong = Wrong"
| "m_add k v (Lost n) = (if k = None then Wrong else Lost n)"

fun m_start :: "bool \<Rightarrow> string option \<Rightarrow> machine \<Rightarrow> machine" where
  "m_start obj k (Open docs st) =
     (if length st \<ge> UJSON_RECURSION_MAX then (if obj then Open docs st else Wrong)
      else case st of
        [] \<Rightarrow> if k \<noteq> None then Wrong else Open docs [(None, new_frame obj)]
      | (i, fr) # _ \<Rightarrow> if is_obj fr \<longleftrightarrow> k \<noteq> None then Open docs ((k, new_frame obj) # st) else Wrong)"
| "m_start obj k Wrong = Wrong"
| "m_start obj k (Lost n) = (if obj then Lost n else Wrong)"

fun m_finish :: "bool \<Rightarrow> machine \<Rightarrow> machine" where
  "m_finish obj (Open docs []) = (if obj then Lost 1 else Wrong)"
| "m_finish obj (Open docs [(i, fr)]) = (if is_obj fr = obj then Open (docs @ [frame_value fr]) [] else Wrong)"
| "m_finish obj (Open docs ((i, fr) # (i', fr') # st)) =
     (if is_obj fr = obj then Open docs ((i', frame_add fr' i (frame_value fr)) # st) else Wrong)"
| "m_finish obj Wrong = Wrong"
| "m_finish obj (Lost n) = (if obj then Lost (Suc n) else Wrong)"

fun m_call :: "call \<Rightarrow> machine \<Rightarrow> machine" where
  "m_call (Obj_start k) = m_start True k"
| "m_call Obj_finish = m_finish True"
| "m_call (Arr_start k) = m_start False k"
| "m_call Arr_finish = m_finish False"
| "m_call (Null_add k) = m_add k J_null"
| "m_call (Int_add k i) = m_add k (J_int i)"
| "m_call (Bool_add k i) = m_add k (J_bool (i \<noteq> 0))"
| "m_call (Str_add k s) = m_add k (J_str s)"
| "m_call (Float_add k t) = m_add k (J_float t)"

definition m_calls :: "call list \<Rightarrow> machine" where
  "m_calls cs = fold m_call cs (Open [] [])"

section \<open>The text of a value\<close>

definition item :: "nat \<Rightarrow> bool \<Rightarrow> string option \<Rightarrow> string" where
  "item d first k = (if first then [] else '','') @ line d @ key_text k"

fun items :: "nat \<Rightarrow> bool \<Rightarrow> (string option \<times> string) list \<Rightarrow> string" where
  "items d first [] = []"
| "items d first ((k, t) # ts) = item d first k @ t @ items d False ts"

fun render :: "nat \<Rightarrow> jvalue \<Rightarrow> string" where
  "render d J_null = ''null''"
| "render d (J_bool b) = (if b then ''true'' else ''false'')"
| "render d (J_int i) = dec_of_int i"
| "render d (J_float t) = t"
| "render d (J_str s) = CHR 0x22 # escaped s @ [CHR 0x22]"
| "render d (J_arr vs) = ''['' @ items (Suc d) True (map (\<lambda>v. (None, render (Suc d) v)) vs)
     @ (if vs = [] then [] else line d) @ '']''"
| "render d (J_obj ms) = ''{'' @ items (Suc d) True (map (\<lambda>(k, v). (Some k, render (Suc d) v)) ms)
     @ (if ms = [] then [] else line d) @ ''}''"

text \<open>The text of what is open.\<close>

fun frame_text :: "nat \<Rightarrow> frame \<Rightarrow> string" where
  "frame_text d (F_arr vs) = ''['' @ items d True (map (\<lambda>v. (None, render d v)) vs)"
| "frame_text d (F_obj ms) = ''{'' @ items d True (map (\<lambda>(k, v). (Some k, render d v)) ms)"

fun open_text :: "(string option \<times> frame) list \<Rightarrow> string" where
  "open_text [] = []"
| "open_text [(k, fr)] = frame_text 1 fr"
| "open_text ((k, fr) # (k', fr') # st) =
     open_text ((k', fr') # st) @ item (Suc (length st)) (frame_empty fr') k @ frame_text (Suc (Suc (length st))) fr"

lemma items_append: "items d first (ts @ [(k, t)]) = items d first ts @ item d (first \<and> ts = []) k @ t"
  by (induction ts arbitrary: first) auto

lemma frame_text_add:
  assumes "is_obj fr \<longleftrightarrow> k \<noteq> None"
  shows "frame_text d (frame_add fr k v) = frame_text d fr @ item d (frame_empty fr) k @ render d v"
  using assms by (cases fr; cases k) (auto simp: items_append)

lemma frame_text_close:
  "render d (frame_value fr) = frame_text (Suc d) fr @ (if frame_empty fr then [] else line d) @ (if is_obj fr then ''}'' else '']'')"
  by (cases fr) auto

lemma frame_add_simps [simp]:
  "is_obj (frame_add fr k v) = is_obj fr" "is_obj fr \<longleftrightarrow> k \<noteq> None \<Longrightarrow> \<not> frame_empty (frame_add fr k v)"
  by (cases fr; cases k; simp)+

lemma open_text_add:
  assumes "is_obj fr \<longleftrightarrow> k \<noteq> None"
  shows "open_text ((i, frame_add fr k v) # st)
    = open_text ((i, fr) # st) @ item (Suc (length st)) (frame_empty fr) k @ render (Suc (length st)) v"
  using frame_text_add [OF assms] by (cases st) auto

text \<open>The bits of what is open: only the innermost one can be without a value.\<close>

fun bits :: "(string option \<times> frame) list \<Rightarrow> (bool \<times> bool) list" where
  "bits [] = []"
| "bits ((k, fr) # st) = (is_obj fr, frame_empty fr) # map (\<lambda>(k, fr). (is_obj fr, False)) st"

lemma length_bits [simp]: "length (bits st) = length st"
  by (cases st) auto

section \<open>The writer implements the machine\<close>

text \<open>An ID stands in front of what is inside of an object, and of nothing else.\<close>

fun linked :: "(string option \<times> frame) list \<Rightarrow> bool" where
  "linked [] \<longleftrightarrow> True"
| "linked [(k, fr)] \<longleftrightarrow> k = None"
| "linked ((k, fr) # (k', fr') # st) \<longleftrightarrow> (is_obj fr' \<longleftrightarrow> k \<noteq> None) \<and> linked ((k', fr') # st)"

lemma linked_frame: "linked ((k, fr) # st) = linked ((k, fr') # st)"
  by (cases st) auto

text \<open>Starting and finishing differ between objects and arrays in a bracket and in a message.\<close>

definition start_call :: "bool \<Rightarrow> string option \<Rightarrow> call" where
  "start_call obj k = (if obj then Obj_start k else Arr_start k)"

definition finish_call :: "bool \<Rightarrow> call" where
  "finish_call obj = (if obj then Obj_finish else Arr_finish)"

lemma start_call_eq:
  "do_call h (start_call obj k) w =
     (if depth w \<ge> int UJSON_RECURSION_MAX then Some (True, if obj then w else w_err w ''Recursion too deep'')
      else if depth w = 0 \<and> k \<noteq> None then
        Some (True, w_err w (if obj then ''Top level object cannot have id'' else ''Top level array cannot have id''))
      else case (if depth w \<noteq> 0 then add_common h w k else Some (False, w)) of
        None \<Rightarrow> None
      | Some (True, w) \<Rightarrow> Some (True, w)
      | Some (False, w) \<Rightarrow>
          let (e, w) = out_ch h w (if obj then CHR ''{'' else CHR ''['') in
          if e then Some (True, w) else Some (False, set_depth_bit w obj))"
  by (cases obj) (simp_all only: start_call_def do_call.simps ujson_obj_start_def ujson_arr_start_def if_True if_False)

lemma finish_call_eq:
  "do_call h (finish_call obj) w = Some
     (if is_err w then (True, w)
      else if (if obj then \<not> in_obj w else \<not> in_arr w) then (True, w_err w (if obj then ''Not in object!'' else ''Not in array!''))
      else
        let (first, w) = is_first w; w = clear_depth_bit w; w = (if first = 0 then snd (newline h w) else w) in
        out_ch h w (if obj then CHR ''}'' else CHR '']''))"
  by (cases obj) (simp_all only: finish_call_def do_call.simps ujson_obj_finish_def ujson_arr_finish_def if_True if_False)

lemma w_err_fields [simp]:
  "depth (w_err w m) = depth w" "out_priv (w_err w m) = out_priv w" "m \<noteq> [] \<Longrightarrow> err (w_err w m) \<noteq> []"
  by (simp_all add: w_err_def vsnprintf_def UJSON_ERR_MAX_def)

lemma depth_bit_fields [simp]:
  "out_priv (set_depth_bit w v) = out_priv w" "err (set_depth_bit w v) = err w"
  "out_priv (clear_depth_bit w) = out_priv w" "err (clear_depth_bit w) = err w"
  by (simp_all add: set_depth_bit_def clear_depth_bit_def Let_def)

lemma get_depth_bit_lost:
  assumes "depth w = 4294967296 - int n" "1 \<le> n" "n < 2147483648"
  shows "get_depth_bit w m = -1"
proof -
  have "signed_take_bit 31 (4294967296 - int n - 1) = signed_take_bit 31 (- int n - 1)"
    by (rule signed_take_bit_eq_iff_take_bit_eq [THEN iffD2]) (simp add: take_bit_eq_mod mod_eq_dvd_iff)
  moreover have "c_int (- int n - 1) = - int n - 1"
    using assms by (simp add: c_simps)
  ultimately have "c_int (depth w - 1) = - int n - 1"
    using assms(1) by (simp add: c_int_def)
  then show ?thesis by (simp add: get_depth_bit_def)
qed

lemma lost_tests:
  assumes "depth w = 4294967296 - int n" "1 \<le> n" "n < 2147483648"
  shows "in_obj w" "\<not> in_arr w" "is_first w = (-1, w)" "depth w \<noteq> 0" "\<not> depth w < int UJSON_RECURSION_MAX"
  using get_depth_bit_lost [OF assms] assms by (simp_all add: in_obj_def in_arr_def is_first_def UJSON_RECURSION_MAX_def)

context json_output
begin

definition sim :: "string \<Rightarrow> machine \<Rightarrow> 'p ujson_writer \<Rightarrow> bool" where
  "sim base m w \<longleftrightarrow> valid (out_priv w) \<and>
     (case m of
        Open docs st \<Rightarrow> linked st \<and> ready w (bits st)
          \<and> shown (out_priv w) = base @ concat (map (render 0) docs) @ open_text st
      | Wrong \<Rightarrow> err w \<noteq> []
      | Lost n \<Rightarrow> err w = [] \<and> 1 \<le> n \<and> depth w = 4294967296 - int n)"

text \<open>After \<open>add_common\<close> succeeded and before the value is written.\<close>

definition added :: "string \<Rightarrow> machine \<Rightarrow> string option \<Rightarrow> 'p ujson_writer \<Rightarrow> bool" where
  "added base m k w \<longleftrightarrow> valid (out_priv w) \<and>
     (case m of
        Open docs ((i, fr) # st) \<Rightarrow> (is_obj fr \<longleftrightarrow> k \<noteq> None) \<and> linked ((i, fr) # st)
          \<and> ready w ((is_obj fr, False) # tl (bits ((i, fr) # st)))
          \<and> shown (out_priv w) = base @ concat (map (render 0) docs) @ open_text ((i, fr) # st)
              @ item (Suc (length st)) (frame_empty fr) k
      | Lost n \<Rightarrow> k \<noteq> None \<and> sim base m w
      | _ \<Rightarrow> False)"

definition key_ok :: "string option \<Rightarrow> bool" where
  "key_ok k \<longleftrightarrow> (\<forall>s. k = Some s \<longrightarrow> utf8_ok s \<and> length s \<le> limit)"

definition bounded :: "machine \<Rightarrow> bool" where
  "bounded m \<longleftrightarrow> (\<forall>n. m = Lost n \<longrightarrow> n < 2147483648)"

lemma sim_lost_wrote: "sim base (Lost n) w \<Longrightarrow> wrote w t w' \<Longrightarrow> sim base (Lost n) w'"
  using wrote_fields [of w t w'] wrote_valid [of w t w'] by (auto simp: sim_def)

lemma sim_wrong: "sim base m w \<Longrightarrow> msg \<noteq> [] \<Longrightarrow> sim base Wrong (w_err w msg)"
  by (simp add: sim_def)

lemma add_common_refused:
  assumes "sim base m w" "is_err w \<or> check_id w k \<noteq> None"
  obtains w' where "add_common h w k = Some (True, w')" "sim base Wrong w'"
proof (cases "is_err w")
  case True
  then show ?thesis using that [of w] assms(1) by (simp add: add_common_def sim_def is_err_def)
next
  case False
  then obtain msg where msg: "check_id w k = Some msg" using assms(2) by auto
  then have "msg \<noteq> []" by (auto simp: check_id_def split: if_splits)
  then show ?thesis using that [of "w_err w msg"] sim_wrong [OF assms(1)] False msg by (simp add: add_common_def)
qed

lemma add_common_lost:
  assumes "sim base (Lost n) w" "n < 2147483648" "key_ok k" "k \<noteq> None"
  obtains w' where "add_common h w k = Some (False, w')" "sim base (Lost n) w'"
proof -
  have d: "depth w = 4294967296 - int n" "1 \<le> n" "valid (out_priv w)" "\<not> is_err w"
    using assms(1) by (auto simp: sim_def is_err_def)
  note lost = lost_tests [OF d(1,2) assms(2)]
  obtain w1 where w1: "newline h w = (False, w1)" "wrote w (CHR 0x0A # replicate (nat (depth w)) (CHR '' '')) w1"
    by (rule newline_wrote [OF d(3)])
  obtain w2 where w2: "(case k of None \<Rightarrow> Some (False, w1) | Some s \<Rightarrow>
      (case out_esc_str h w1 s of None \<Rightarrow> None | Some (e, w) \<Rightarrow> if e then Some (True, w) else Some (out_str h w '': '')))
      = Some (False, w2)" "wrote w1 (key_text k) w2"
    by (rule out_id_wrote [OF wrote_valid [OF w1(2)] assms(3) [unfolded key_ok_def]])
  have "check_id w k = None" using lost assms(4) by (simp add: check_id_def)
  then have "add_common h w k = Some (False, w2)"
    using d(4) lost(3,4) w1(1) w2(1) by (simp add: add_common_def Let_def)
  then show thesis using that sim_lost_wrote [OF sim_lost_wrote [OF assms(1) w1(2)] w2(2)] by blast
qed

lemma add_common_sim:
  assumes "sim base m w" "bounded m" "key_ok k"
  shows "(\<exists>w'. add_common h w k = Some (True, w') \<and> sim base Wrong w' \<and> m_add k v m = Wrong)
    \<or> (\<exists>w'. add_common h w k = Some (False, w') \<and> added base m k w')"
proof (cases m)
  case Wrong
  then have "is_err w" using assms(1) by (simp add: sim_def is_err_def)
  then show ?thesis using add_common_refused [OF assms(1)] Wrong by (metis m_add.simps(3))
next
  case (Lost n)
  then have d: "depth w = 4294967296 - int n" "1 \<le> n" "n < 2147483648"
    using assms(1,2) by (auto simp: sim_def bounded_def)
  show ?thesis
  proof (cases k)
    case None
    then have "check_id w k \<noteq> None" using lost_tests [OF d] by (simp add: check_id_def)
    then show ?thesis using add_common_refused [OF assms(1), of k] Lost None by (metis m_add.simps(4))
  next
    case (Some s)
    then obtain w' where "add_common h w k = Some (False, w')" "sim base (Lost n) w'"
      using add_common_lost [of base n w k] assms(1,3) Lost d(3) by auto
    then show ?thesis using Lost Some by (simp add: added_def) (simp add: sim_def)
  qed
next
  case (Open docs st)
  then have r: "ready w (bits st)" "linked st" using assms(1) by (auto simp: sim_def)
  show ?thesis
  proof (cases st)
    case Nil
    then have "check_id w k \<noteq> None" using ready_depth [OF r(1)] by (simp add: check_id_def)
    then show ?thesis using add_common_refused [OF assms(1), of k] Open Nil by (metis m_add.simps(2))
  next
    case (Cons f st')
    obtain i fr where f: "f = (i, fr)" by (cases f)
    have ready: "ready w ((is_obj fr, frame_empty fr) # tl (bits st))" using r(1) Cons f by simp
    show ?thesis
    proof (cases "is_obj fr \<longleftrightarrow> k \<noteq> None")
      case True
      obtain w' where "add_common h w k = Some (False, w')" "ready w' ((is_obj fr, False) # tl (bits st))"
        "shown (out_priv w') = shown (out_priv w) @ (if frame_empty fr then [] else '','') @ line (Suc (length (tl (bits st)))) @ key_text k"
        by (rule add_common_ready [OF ready assms(3) [unfolded key_ok_def] True])
      then show ?thesis
        using assms(1) True r Open Cons f by (auto simp: added_def sim_def item_def ready_def)
    next
      case False
      then have "check_id w k \<noteq> None"
        using ready holds_top(2) ready_depth [OF ready] by (auto simp: check_id_def ready_def)
      then show ?thesis
        using add_common_refused [OF assms(1), of k] Open Cons f False by (metis m_add.simps(1))
    qed
  qed
qed

lemma added_value:
  assumes "added base m k w" "wrote w t w'" "\<And>d. render d v = t"
  shows "sim base (m_add k v m) w'"
proof (cases m)
  case (Open docs st)
  then obtain i fr st' where st: "st = (i, fr) # st'" using assms(1) by (cases st) (auto simp: added_def)
  have k: "is_obj fr \<longleftrightarrow> k \<noteq> None" using assms(1) Open st by (simp add: added_def)
  have "shown (out_priv w') = shown (out_priv w) @ t" using assms(2) by (simp add: wrote_def)
  then show ?thesis
    using assms(1) Open st k ready_wrote [OF _ assms(2)] wrote_valid [OF assms(2)] open_text_add [OF k] assms(3)
      linked_frame [of i "frame_add fr k v" st' fr]
    by (auto simp: added_def sim_def)
qed (use assms(1) sim_lost_wrote [OF _ assms(2)] in \<open>auto simp: added_def\<close>)


lemma add_sim:
  assumes "sim base m w" "bounded m" "key_ok k" "\<And>d. render d v = t"
    and op: "\<And>w1. op w1 = (case add_common h w1 k of None \<Rightarrow> None | Some (True, w1) \<Rightarrow> Some (True, w1)
        | Some (False, w1) \<Rightarrow> out w1)"
    and out: "\<And>w1. valid (out_priv w1) \<Longrightarrow> \<exists>w2. out w1 = Some (False, w2) \<and> wrote w1 t w2"
  shows "\<exists>e w'. op w = Some (e, w') \<and> sim base (m_add k v m) w'"
  using add_common_sim [OF assms(1-3), of v]
proof (elim disjE exE conjE)
  fix w1
  assume w1: "add_common h w k = Some (False, w1)" "added base m k w1"
  then obtain w2 where "out w1 = Some (False, w2)" "wrote w1 t w2"
    using out by (auto simp: added_def)
  then show ?thesis using w1 added_value [OF w1(2) _ assms(4)] op by auto
qed (auto simp: op)

lemma add_text_sim:
  assumes "sim base m w" "bounded m" "key_ok k" "\<And>d. render d v = t" "length t \<le> limit"
  shows "\<exists>e w'. add_text h w k t = Some (e, w') \<and> sim base (m_add k v m) w'"
proof (rule add_sim [OF assms(1-4)])
  show "add_text h w1 k t = (case add_common h w1 k of None \<Rightarrow> None | Some (True, w1) \<Rightarrow> Some (True, w1)
      | Some (False, w1) \<Rightarrow> Some (out_str h w1 t))" for w1
    by (simp add: add_text_def)
  show "\<exists>w2. Some (out_str h w1 t) = Some (False, w2) \<and> wrote w1 t w2" if "valid (out_priv w1)" for w1
    using w_out_wrote [OF that assms(5)] by (auto simp: out_str_def)
qed

lemma add_str_sim:
  assumes "sim base m w" "bounded m" "key_ok k" "utf8_ok s" "length s \<le> limit"
  shows "\<exists>e w'. ujson_str_add h w k s = Some (e, w') \<and> sim base (m_add k (J_str s) m) w'"
proof (rule add_sim [OF assms(1-3)])
  show "ujson_str_add h w1 k s = (case add_common h w1 k of None \<Rightarrow> None | Some (True, w1) \<Rightarrow> Some (True, w1)
      | Some (False, w1) \<Rightarrow> out_esc_str h w1 s)" for w1
    by (simp add: ujson_str_add_def)
  show "\<exists>w2. out_esc_str h w1 s = Some (False, w2) \<and> wrote w1 (CHR 0x22 # escaped s @ [CHR 0x22]) w2"
    if "valid (out_priv w1)" for w1
    using out_esc_str_wrote [OF that assms(4,5)] by metis
qed simp

lemma open_bracket:
  assumes "ready w st" "length st < UJSON_RECURSION_MAX"
  obtains w' where "out_ch h w c = (False, w')" "ready (set_depth_bit w' obj) ((obj, True) # st)"
    "shown (out_priv (set_depth_bit w' obj)) = shown (out_priv w) @ [c]"
proof -
  obtain w' where w': "out_ch h w c = (False, w')" "wrote w [c] w'"
    using out_ch_wrote [of w c] assms(1) by (auto simp: ready_def)
  have "ready w' st" by (rule ready_wrote [OF assms(1) w'(2)])
  then have "ready (set_depth_bit w' obj) ((obj, True) # st)"
    using assms(2) by (auto simp: ready_def intro: holds_set_depth_bit)
  then show thesis
    using that w' by (simp add: wrote_def)
qed

lemma new_frame_simps [simp]:
  "is_obj (new_frame obj) = obj" "frame_empty (new_frame obj)"
  "frame_text d (new_frame obj) = (if obj then ''{'' else ''['')"
  by (simp_all add: new_frame_def)

lemma start_open_nested:
  assumes "added base (Open docs ((i, fr) # st)) k w" "Suc (length st) < UJSON_RECURSION_MAX"
  obtains w' where "out_ch h w (if obj then CHR ''{'' else CHR ''['') = (False, w')"
    "sim base (Open docs ((k, new_frame obj) # (i, fr) # st)) (set_depth_bit w' obj)"
proof -
  have a: "is_obj fr \<longleftrightarrow> k \<noteq> None" "linked ((i, fr) # st)" "ready w ((is_obj fr, False) # tl (bits ((i, fr) # st)))"
    "shown (out_priv w) = base @ concat (map (render 0) docs) @ open_text ((i, fr) # st)
              @ item (Suc (length st)) (frame_empty fr) k"
    using assms(1) by (auto simp: added_def)
  obtain w' where "out_ch h w (if obj then CHR ''{'' else CHR ''['') = (False, w')"
    "ready (set_depth_bit w' obj) ((obj, True) # (is_obj fr, False) # tl (bits ((i, fr) # st)))"
    "shown (out_priv (set_depth_bit w' obj)) = shown (out_priv w) @ [if obj then CHR ''{'' else CHR ''['']"
    using open_bracket [OF a(3)] assms(2) by auto
  then show thesis using that a by (auto simp: sim_def ready_def)
qed

lemma start_sim:
  assumes "sim base m w" "bounded m" "key_ok k"
  shows "\<exists>e w'. do_call h (start_call obj k) w = Some (e, w') \<and> sim base (m_start obj k m) w'"
proof (cases m)
  case (Lost n)
  then have "\<not> depth w < int UJSON_RECURSION_MAX"
    using assms(1,2) lost_tests(5) [of w n] by (auto simp: sim_def bounded_def)
  then show ?thesis using assms(1) Lost sim_wrong [OF assms(1)] by (auto simp: start_call_eq)
next
  case Wrong
  then have e: "is_err w" "valid (out_priv w)" using assms(1) by (simp_all add: sim_def is_err_def)
  obtain w1 where w1: "out_ch h w (if obj then CHR ''{'' else CHR ''['') = (False, w1)"
    "wrote w [if obj then CHR ''{'' else CHR ''[''] w1"
    by (rule out_ch_wrote [OF e(2)])
  have "sim base Wrong (set_depth_bit w1 obj)"
    using wrote_fields(4) [OF w1(2)] wrote_valid [OF w1(2)] e(1) by (simp add: sim_def is_err_def)
  moreover have "add_common h w k = Some (True, w)" using e(1) by (simp add: add_common_def)
  ultimately show ?thesis
    using w1(1) assms(1) Wrong sim_wrong [OF assms(1)] by (auto simp: start_call_eq)
next
  case (Open docs st)
  then have r: "ready w (bits st)" "depth w = int (length st)" "length st \<le> UJSON_RECURSION_MAX"
    using assms(1) ready_depth [of w "bits st"] by (auto simp: sim_def ready_def holds_def)
  consider "length st = UJSON_RECURSION_MAX" | "length st < UJSON_RECURSION_MAX" "st = []"
    | i fr st' where "length st < UJSON_RECURSION_MAX" "st = (i, fr) # st'"
    using r(3) by (cases st) fastforce+
  then show ?thesis
  proof cases
    case 1
    then show ?thesis using assms(1) Open r(2) sim_wrong [OF assms(1)] by (auto simp: start_call_eq)
  next
    case 2
    obtain w1 where "out_ch h w (if obj then CHR ''{'' else CHR ''['') = (False, w1)"
      "ready (set_depth_bit w1 obj) ((obj, True) # bits st)"
      "shown (out_priv (set_depth_bit w1 obj)) = shown (out_priv w) @ [if obj then CHR ''{'' else CHR ''['']"
      using open_bracket [OF r(1)] 2 by auto
    then show ?thesis
      using Open 2 r(2) assms(1) sim_wrong [OF assms(1)]
      by (auto simp: start_call_eq sim_def ready_def)
  next
    case (3 i fr st')
    show ?thesis
      using add_common_sim [OF assms, of J_null]
    proof (elim disjE exE conjE)
      fix w1
      assume w1: "add_common h w k = Some (True, w1)" "sim base Wrong w1" "m_add k J_null m = Wrong"
      then have "m_start obj k m = Wrong" using Open 3 by (auto split: if_splits)
      then show ?thesis using w1 3 r(2) by (auto simp: start_call_eq)
    next
      fix w1
      assume w1: "add_common h w k = Some (False, w1)" "added base m k w1"
      then have "is_obj fr \<longleftrightarrow> k \<noteq> None" using Open 3 by (simp add: added_def)
      moreover obtain w2 where "out_ch h w1 (if obj then CHR ''{'' else CHR ''['') = (False, w2)"
        "sim base (Open docs ((k, new_frame obj) # (i, fr) # st')) (set_depth_bit w2 obj)"
        using start_open_nested [of base docs i fr st' k w1] w1(2) Open 3 by auto
      ultimately show ?thesis using w1 3 r(2) Open by (auto simp: start_call_eq)
    qed
  qed
qed

lemma ready_top:
  assumes "ready w ((t, f) # st)"
  shows "in_obj w = t" "in_arr w = (\<not> t)" "\<not> is_err w"
  using assms holds_top [of w t f st] by (auto simp: ready_def is_err_def)

text \<open>The line break and the bracket that end an object or an array.\<close>

lemma close_bracket:
  assumes "ready w ((t, f) # st)"
  obtains w1 w2 where "is_first w = (of_bool f, w1)"
    "out_ch h (if of_bool f = (0 :: int) then snd (newline h (clear_depth_bit w1)) else clear_depth_bit w1) c = (False, w2)"
    "ready w2 st" "shown (out_priv w2) = shown (out_priv w) @ (if f then [] else line (length st)) @ [c]"
proof -
  obtain w1 where w1: "is_first w = (of_bool f, w1)" "holds w1 ((t, False) # st)" "err w1 = err w" "out_priv w1 = out_priv w"
    using holds_is_first [of w t f st] assms by (metis ready_def)
  then have r: "ready (clear_depth_bit w1) st"
    using assms holds_clear_depth_bit [of w1 "(t, False)" st] by (simp add: ready_def)
  then have v: "valid (out_priv (clear_depth_bit w1))" by (simp add: ready_def)
  obtain w2 where w2: "newline h (clear_depth_bit w1) = (False, w2)" "wrote (clear_depth_bit w1) (line (length st)) w2"
    by (rule newline_wrote [OF v, unfolded ready_depth [OF r] nat_int, folded line_def])
  obtain w3 where w3: "(if of_bool f = (0 :: int) then snd (newline h (clear_depth_bit w1)) else clear_depth_bit w1) = w3"
    "wrote (clear_depth_bit w1) (if f then [] else line (length st)) w3"
    using w2 wrote_refl [OF v] by - (cases f; simp)
  obtain w4 where w4: "out_ch h w3 c = (False, w4)" "wrote w3 [c] w4"
    by (rule out_ch_wrote [OF wrote_valid [OF w3(2)]])
  note wr = wrote_trans [OF w3(2) w4(2)]
  show thesis
  proof (rule that [OF w1(1), unfolded w3(1), OF w4(1) ready_wrote [OF r wr]])
    show "shown (out_priv w4) = shown (out_priv w) @ (if f then [] else line (length st)) @ [c]"
      using wr w1(4) by (simp add: wrote_def)
  qed
qed

lemma finish_open:
  assumes "sim base (Open docs ((k, fr) # st)) w" "is_obj fr = obj"
  obtains e w' where "do_call h (finish_call obj) w = Some (e, w')"
    "sim base (m_finish obj (Open docs ((k, fr) # st))) w'"
proof -
  have r: "ready w ((is_obj fr, frame_empty fr) # tl (bits ((k, fr) # st)))" and l: "linked ((k, fr) # st)"
    and s: "shown (out_priv w) = base @ concat (map (render 0) docs) @ open_text ((k, fr) # st)"
    using assms(1) by (auto simp: sim_def)
  obtain w1 w2 where w: "is_first w = (of_bool (frame_empty fr), w1)"
    "out_ch h (if of_bool (frame_empty fr) = (0 :: int) then snd (newline h (clear_depth_bit w1)) else clear_depth_bit w1)
      (if obj then CHR ''}'' else CHR '']'') = (False, w2)"
    "ready w2 (tl (bits ((k, fr) # st)))"
    "shown (out_priv w2) = shown (out_priv w) @ (if frame_empty fr then [] else line (length (tl (bits ((k, fr) # st)))))
      @ [if obj then CHR ''}'' else CHR '']'']"
    by (rule close_bracket [OF r])
  have "in_obj w = obj" "in_arr w = (\<not> obj)" "\<not> is_err w"
    using ready_top [OF r] assms(2) by auto
  then have "do_call h (finish_call obj) w = Some (False, w2)"
    using w(1,2) by (simp add: finish_call_eq Let_def)
  moreover have "sim base (m_finish obj (Open docs ((k, fr) # st))) w2"
  proof (cases st)
    case Nil
    then show ?thesis using w(3,4) s assms(2) by (auto simp: sim_def ready_def frame_text_close)
  next
    case (Cons f st')
    obtain k' fr' where f: "f = (k', fr')" by (cases f)
    then have "is_obj fr' \<longleftrightarrow> k \<noteq> None" "linked ((k', fr') # st')" using l Cons by auto
    then show ?thesis
      using w(3,4) s assms(2) Cons f linked_frame [of k' fr' st'] open_text_add [of fr' k k' "frame_value fr" st']
      by (auto simp: sim_def ready_def frame_text_close)
  qed
  ultimately show thesis by (rule that)
qed

lemma finish_sim:
  assumes "sim base m w" "bounded m"
  shows "\<exists>e w'. do_call h (finish_call obj) w = Some (e, w') \<and> sim base (m_finish obj m) w'"
proof (cases m)
  case Wrong
  then show ?thesis using assms(1) by (auto simp: finish_call_eq sim_def is_err_def)
next
  case (Lost n)
  then have d: "depth w = 4294967296 - int n" "1 \<le> n" "n < 2147483648" "valid (out_priv w)" "err w = []"
    using assms by (auto simp: sim_def bounded_def)
  obtain w1 where w1: "out_ch h (clear_depth_bit w) (if obj then CHR ''}'' else CHR '']'') = (False, w1)"
    "wrote (clear_depth_bit w) [if obj then CHR ''}'' else CHR '']''] w1"
    using out_ch_wrote [of "clear_depth_bit w"] d(4) by auto
  have "sim base (Lost (Suc n)) (clear_depth_bit w)"
    using d by (simp add: sim_def) (simp add: clear_depth_bit_def c_simps)
  then show ?thesis
    using w1(1) sim_lost_wrote [OF _ w1(2)] lost_tests [OF d(1-3)] d(5) Lost sim_wrong [OF assms(1)]
    by (auto simp: finish_call_eq is_err_def)
next
  case (Open docs st)
  show ?thesis
  proof (cases st)
    case Nil
    then have r: "ready w []" using assms(1) Open by (simp add: sim_def)
    then have v: "valid (out_priv (clear_depth_bit w))" "holds w []" "err w = []" by (simp_all add: ready_def)
    obtain w1 where w1: "out_ch h (clear_depth_bit w) (if obj then CHR ''}'' else CHR '']'') = (False, w1)"
      "wrote (clear_depth_bit w) [if obj then CHR ''}'' else CHR '']''] w1"
      by (rule out_ch_wrote [OF v(1)])
    have "sim base (Lost 1) (clear_depth_bit w)"
      using v ready_depth [OF r] by (simp add: sim_def) (simp add: clear_depth_bit_def c_uint_def take_bit_minus_one_eq_mask mask_eq_exp_minus_1)
    moreover have "is_first w = (-1, w)"
      using v(2) by (simp add: is_first_def get_depth_bit_def holds_def c_simps)
    ultimately show ?thesis
      using w1(1) sim_lost_wrote [OF _ w1(2)] holds_bottom [OF v(2)] v(3) Open Nil sim_wrong [OF assms(1)]
      by (auto simp: finish_call_eq is_err_def)
  next
    case (Cons f st')
    obtain k fr where f: "f = (k, fr)" by (cases f)
    show ?thesis
    proof (cases "is_obj fr = obj")
      case True
      then show ?thesis using finish_open [of base docs k fr st' w obj] assms(1) Open Cons f by metis
    next
      case False
      then have "m_finish obj m = Wrong" using Open Cons f by (cases st') auto
      moreover have "in_obj w = is_obj fr" "in_arr w = (\<not> is_obj fr)" "\<not> is_err w"
        using assms(1) Open Cons f ready_top [of w "is_obj fr"] by (auto simp: sim_def)
      ultimately show ?thesis using False sim_wrong [OF assms(1)] by (auto simp: finish_call_eq)
    qed
  qed
qed

end

section \<open>Sessions\<close>

text \<open>The strings of a call are valid UTF-8 of at most \<open>n\<close> bytes, numbers have the size of their type.\<close>

definition key_fits :: "nat \<Rightarrow> string option \<Rightarrow> bool" where
  "key_fits n k \<longleftrightarrow> (case k of None \<Rightarrow> True | Some s \<Rightarrow> utf8_ok s \<and> length s \<le> n)"

fun call_fits :: "nat \<Rightarrow> call \<Rightarrow> bool" where
  "call_fits n (Obj_start k) \<longleftrightarrow> key_fits n k"
| "call_fits n Obj_finish \<longleftrightarrow> True"
| "call_fits n (Arr_start k) \<longleftrightarrow> key_fits n k"
| "call_fits n Arr_finish \<longleftrightarrow> True"
| "call_fits n (Null_add k) \<longleftrightarrow> key_fits n k"
| "call_fits n (Int_add k i) \<longleftrightarrow> key_fits n k \<and> - 9223372036854775808 \<le> i \<and> i < 9223372036854775808"
| "call_fits n (Bool_add k i) \<longleftrightarrow> key_fits n k"
| "call_fits n (Str_add k s) \<longleftrightarrow> key_fits n k \<and> utf8_ok s \<and> length s \<le> n"
| "call_fits n (Float_add k t) \<longleftrightarrow> key_fits n k \<and> length t < 64"

lemma long_text_short:
  assumes "- 9223372036854775808 \<le> i" "i < 9223372036854775808"
  shows "vsnprintf 64 (dec_of_int i) = dec_of_int i" "length (dec_of_int i) \<le> 64"
proof -
  have "length (dec_of_nat (nat \<bar>i\<bar>)) \<le> 20"
    using assms by (intro dec_of_nat_short) auto
  then have "length (dec_of_int i) \<le> 21" by (auto simp: dec_of_int_def)
  then show "vsnprintf 64 (dec_of_int i) = dec_of_int i" "length (dec_of_int i) \<le> 64"
    by (simp_all add: vsnprintf_def)
qed

context json_output
begin

lemma call_sim:
  assumes "sim base m w" "bounded m" "call_fits limit c"
  shows "\<exists>e w'. do_call h c w = Some (e, w') \<and> sim base (m_call c m) w'"
proof -
  have key: "key_fits limit k \<longleftrightarrow> key_ok k" for k
    by (auto simp: key_fits_def key_ok_def split: option.split)
  note add = add_text_sim [OF assms(1,2)]
  show ?thesis
  proof (cases c)
    case (Obj_start k)
    then show ?thesis using start_sim [OF assms(1,2), of k True] assms(3) by (simp add: key start_call_def)
  next
    case Obj_finish
    then show ?thesis using finish_sim [OF assms(1,2), of True] by (simp add: finish_call_def)
  next
    case (Arr_start k)
    then show ?thesis using start_sim [OF assms(1,2), of k False] assms(3) by (simp add: key start_call_def)
  next
    case Arr_finish
    then show ?thesis using finish_sim [OF assms(1,2), of False] by (simp add: finish_call_def)
  next
    case (Null_add k)
    then show ?thesis using add [of k J_null "''null''"] assms(3) limit_ge by (simp add: key ujson_null_add_def)
  next
    case (Int_add k i)
    then show ?thesis
      using add [of k "J_int i" "dec_of_int i"] assms(3) limit_ge long_text_short [of i] by (simp add: key ujson_int_add_def)
  next
    case (Bool_add k i)
    then show ?thesis
      using add [of k "J_bool (i \<noteq> 0)" "if i \<noteq> 0 then ''true'' else ''false''"] assms(3) limit_ge
      by (auto simp: key ujson_bool_add_def)
  next
    case (Str_add k s)
    then show ?thesis using add_str_sim [OF assms(1,2), of k s] assms(3) by (simp add: key)
  next
    case (Float_add k t)
    then show ?thesis
      using add [of k "J_float t" t] assms(3) limit_ge by (simp add: key ujson_float_add_def vsnprintf_def)
  qed
qed

end

text \<open>Every call adds at most one unseen error.\<close>

definition lost_count :: "machine \<Rightarrow> nat" where
  "lost_count m = (case m of Lost n \<Rightarrow> n | _ \<Rightarrow> 0)"

lemma lost_count_simps [simp]: "lost_count (Open docs st) = 0" "lost_count Wrong = 0" "lost_count (Lost n) = n"
  by (simp_all add: lost_count_def)

lemma lost_count_call: "lost_count (m_call c m) \<le> Suc (lost_count m)"
proof -
  have "lost_count (m_add k v m) \<le> Suc (lost_count m)" for k v
    by (cases "(k, v, m)" rule: m_add.cases) auto
  moreover have "lost_count (m_start obj k m) \<le> Suc (lost_count m)" for obj k
    by (cases m) (auto split: list.split)
  moreover have "lost_count (m_finish obj m) \<le> Suc (lost_count m)" for obj
    by (cases "(obj, m)" rule: m_finish.cases) auto
  ultimately show ?thesis by (cases c) auto
qed

context json_output
begin

lemma calls_sim:
  assumes "sim base m w" "list_all (call_fits limit) cs" "lost_count m + length cs < 2147483648"
  shows "\<exists>w'. do_calls h cs w = Some w' \<and> sim base (fold m_call cs m) w' \<and> lost_count (fold m_call cs m) < 2147483648"
  using assms
proof (induction cs arbitrary: m w)
  case (Cons c cs)
  have "bounded m" using Cons.prems(3) by (auto simp: bounded_def)
  then obtain e w1 where "do_call h c w = Some (e, w1)" "sim base (m_call c m) w1"
    using call_sim [OF Cons.prems(1), of c] Cons.prems(2) by auto
  moreover have "lost_count (m_call c m) + length cs < 2147483648"
    using lost_count_call [of c m] Cons.prems(3) by simp
  ultimately show ?case using Cons.IH Cons.prems(2) by auto
qed simp

lemma writer_finish_sim:
  assumes "sim base m w" "lost_count m < 2147483648"
  shows "case m of
      Open docs [] \<Rightarrow> \<exists>w'. ujson_writer_finish h w = (False, w') \<and> valid (out_priv w')
        \<and> shown (out_priv w') = base @ concat (map (render 0) docs) @ [CHR 0x0A]
    | _ \<Rightarrow> fst (ujson_writer_finish h w)"
proof -
  have v: "valid (out_priv w)" using assms(1) by (simp add: sim_def)
  obtain w' where w': "newline h w = (False, w')" "wrote w (line (nat (depth w))) w'"
    by (rule newline_wrote [OF v, folded line_def])
  have n: "ujson_writer_finish h w = (False, w')" if "err w = []" "depth w = 0"
    using that w'(1) by (simp add: ujson_writer_finish_def is_err_def)
  have e: "fst (ujson_writer_finish h w)" if "err w \<noteq> [] \<or> depth w \<noteq> 0"
    using that by (auto simp: ujson_writer_finish_def is_err_def Let_def)
  show ?thesis
    using assms n e w'(2) wrote_valid [OF w'(2)]
    by (auto simp: sim_def ready_def holds_def wrote_def line_def split: machine.split list.split)
qed

lemma init_sim:
  assumes "valid p"
  shows "sim (shown p) (Open [] []) (UJSON_WRITER_INIT p)"
  using assms by (simp add: sim_def ready_def holds_def UJSON_WRITER_INIT_def UJSON_RECURSION_MAX_def)

end

text \<open>C7: For every sequence of calls, whatever their order, the writer on a file does what the
  machine says: at the end \<open>ujson_writer_finish\<close> reports success exactly when the machine has built
  complete documents and nothing is left open, also when no result was looked at in between; and
  then the file holds exactly the texts of these documents in their order.\<close>
theorem session_writes_documents:
  assumes "list_all (call_fits 256) cs" "length cs < 2147483648" "file_ok f"
  shows "\<exists>w. do_calls (out_writer_file full_write) cs (UJSON_WRITER_INIT f) = Some w \<and>
    (case m_calls cs of
       Open docs [] \<Rightarrow> \<exists>w'. ujson_writer_finish (out_writer_file full_write) w = (False, w')
         \<and> file_text (out_priv w') = file_text f @ concat (map (render 0) docs) @ [CHR 0x0A]
     | _ \<Rightarrow> fst (ujson_writer_finish (out_writer_file full_write) w))"
proof -
  obtain w where w: "do_calls (out_writer_file full_write) cs (UJSON_WRITER_INIT f) = Some w"
    "fo.sim (file_text f) (m_calls cs) w" "lost_count (m_calls cs) < 2147483648"
    using fo.calls_sim [OF fo.init_sim [OF assms(3)], of cs] assms(1,2) by (auto simp: m_calls_def WRITER_BUF_def)
  then show ?thesis
    using fo.writer_finish_sim [OF w(2,3)] by (auto split: machine.splits list.splits)
qed

theorem session_writes_documents_witness:
  "\<exists>w w'. do_calls (out_writer_file full_write) [Obj_start None, Int_add (Some ''a'') 1, Obj_finish]
      (UJSON_WRITER_INIT \<lparr>wf_calls = 0, wf_file = [], wf_buf = []\<rparr>) = Some w
    \<and> ujson_writer_finish (out_writer_file full_write) w = (False, w')
    \<and> file_text (out_priv w') = render 0 (J_obj [(''a'', J_int 1)]) @ [CHR 0x0A]"
proof -
  have u: "utf8_ok ''a''" by code_simp
  show ?thesis
    using session_writes_documents [of "[Obj_start None, Int_add (Some ''a'') 1, Obj_finish]"
        "\<lparr>wf_calls = 0, wf_file = [], wf_buf = []\<rparr>"] u
    by (simp add: key_fits_def file_ok_def file_text_def WRITER_BUF_def m_calls_def new_frame_def UJSON_RECURSION_MAX_def
        del: render.simps do_calls.simps)
qed

section \<open>The text is JSON\<close>

text \<open>
  Values whose text the grammar admits. The writer prints control characters that have no short
  escape as they are, prints the numbers \<open>nan\<close> and \<open>inf\<close>, and escapes IDs, which the reader does not
  undo.
\<close>

fun json_ok :: "jvalue \<Rightarrow> bool" where
  "json_ok (J_int i) \<longleftrightarrow> \<bar>i\<bar> < 9223372036854775808"
| "json_ok (J_float t) \<longleftrightarrow> float_text t"
| "json_ok (J_str s) \<longleftrightarrow> list_all (\<lambda>c. 0x20 \<le> (of_char c :: nat) \<or> escape c \<noteq> None) s"
| "json_ok (J_arr vs) \<longleftrightarrow> list_all json_ok vs"
| "json_ok (J_obj ms) \<longleftrightarrow> list_all (\<lambda>(k, v). id_ok k \<and> escaped k = k \<and> json_ok v) ms"
| "json_ok _ \<longleftrightarrow> True"

lemma unescape_simps:
  "unescape (CHR 0x22) = Some (CHR 0x22)" "unescape (CHR 0x5C) = Some (CHR 0x5C)" "unescape (CHR ''/'') = Some (CHR ''/'')"
  "unescape (CHR ''b'') = Some (CHR 0x08)" "unescape (CHR ''f'') = Some (CHR 0x0C)" "unescape (CHR ''n'') = Some (CHR 0x0A)"
  "unescape (CHR ''r'') = Some (CHR 0x0D)" "unescape (CHR ''t'') = Some (CHR 0x09)"
  by (simp_all add: unescape_def)

lemma escape_unescape: "escape c = Some e \<Longrightarrow> \<exists>x. e = [CHR 0x5C, x] \<and> unescape x = Some c"
  unfolding escape_def by (simp split: if_split_asm) (erule subst, simp add: unescape_simps)+

lemma escaped_body: "list_all (\<lambda>c. 0x20 \<le> (of_char c :: nat) \<or> escape c \<noteq> None) s \<Longrightarrow> str_body (escaped s) s"
proof (induction s)
  case Nil
  then show ?case by (simp add: str_body.nil)
next
  case (Cons c s)
  show ?case
  proof (cases "escape c")
    case None
    then have "c \<noteq> CHR 0x22" "c \<noteq> CHR 0x5C" by (auto simp: escape_def)
    then show ?thesis using Cons None by (simp add: str_body.plain)
  next
    case (Some e)
    then obtain x where "e = [CHR 0x5C, x]" "unescape x = Some c"
      using escape_unescape by blast
    then show ?thesis using Cons Some by (simp add: str_body.esc)
  qed
qed

lemma ws_line [simp]: "ws (line d)"
  by (induction d) (simp_all add: line_def is_ws_def)

lemma items_False: "ts \<noteq> [] \<Longrightarrow> items d False ts = '','' @ items d True ts"
  by (cases ts) (auto simp: item_def)

lemma elems_text:
  assumes "vs \<noteq> []" "\<And>v. v \<in> set vs \<Longrightarrow> json_value v (r v)" "ws w"
  shows "\<exists>t. items d True (map (\<lambda>v. (None, r v)) vs) @ w @ '']'' = line d @ t \<and> json_elems vs t"
  using assms
proof (induction vs rule: list_nonempty_induct)
  case (single v)
  then show ?case using json_value_json_elems_json_members.elem by (auto simp: item_def key_text_def)
next
  case (cons v vs)
  then obtain t where "items d True (map (\<lambda>v. (None, r v)) vs) @ w @ '']'' = line d @ t" "json_elems vs t" by auto
  then show ?case
    using cons json_value_json_elems_json_members.elems [of v "r v" "[]" "line d" vs t]
    by (auto simp: item_def key_text_def items_False)
qed

lemma key_text_id: "escaped k = k \<Longrightarrow> key_text (Some k) = id_text k [] @ '' ''"
  by (simp add: key_text_def id_text_def)

lemma members_text:
  assumes "ms \<noteq> []" "\<And>k v. (k, v) \<in> set ms \<Longrightarrow> id_ok k \<and> escaped k = k \<and> json_value v (r v)" "ws w"
  shows "\<exists>t. items d True (map (\<lambda>(k, v). (Some k, r v)) ms) @ w @ ''}'' = line d @ t \<and> json_members ms t"
  using assms
proof (induction ms rule: list_nonempty_induct)
  case (single m)
  obtain k v where m: "m = (k, v)" by (cases m)
  then show ?case
    using single json_value_json_elems_json_members.memb [of k "[]" "'' ''" v "r v" w]
    by (auto simp: item_def key_text_id is_ws_def)
next
  case (cons m ms)
  obtain k v where m: "m = (k, v)" by (cases m)
  obtain t where "items d True (map (\<lambda>(k, v). (Some k, r v)) ms) @ w @ ''}'' = line d @ t" "json_members ms t"
    using cons by auto
  moreover have "id_ok k \<and> escaped k = k \<and> json_value v (r v)" using cons m by auto
  ultimately show ?case
    using cons(1) m json_value_json_elems_json_members.membs [of k "[]" "'' ''" v "r v" "[]" "line d" ms t]
    by (auto simp: item_def key_text_id items_False is_ws_def)
qed

lemma int_json: "\<bar>i\<bar> < 9223372036854775808 \<Longrightarrow> json_value (J_int i) (dec_of_int i)"
proof -
  assume i: "\<bar>i\<bar> < 9223372036854775808"
  let ?ds = "dec_of_nat (nat \<bar>i\<bar>)"
  have z: "dec_of_nat 0 = ''0''" by code_simp
  have "int_part ?ds"
    using dec_of_nat_digits dec_of_nat_hd [of "nat \<bar>i\<bar>"] z by (auto simp: int_part_def)
  then have "json_value (J_int (int_text_val (i < 0) ?ds)) (int_text (i < 0) ?ds)"
    using i by (intro json_value_json_elems_json_members.int) (auto simp: dec_val_dec_of_nat)
  then show ?thesis
    by (cases "i < 0") (simp_all add: int_text_val_def int_text_def dec_val_dec_of_nat dec_of_int_def)
qed

text \<open>What the writer prints for a value, at any indentation, is a text of the JSON grammar for
  that value.\<close>

lemma render_grammar:
  assumes "json_ok v"
  shows "json_value v (render d v)"
  using assms
proof (induction d v rule: render.induct)
  case (2 d b)
  then show ?case by (cases b) (auto intro: json_value_json_elems_json_members.intros)
next
  case (5 d s)
  then show ?case using escaped_body by (auto intro: json_value_json_elems_json_members.str)
next
  case (6 d vs)
  show ?case
  proof (cases "vs = []")
    case True
    then show ?thesis using json_value_json_elems_json_members.arr0 [of "[]"] by simp
  next
    case False
    then obtain t where "items (Suc d) True (map (\<lambda>v. (None, render (Suc d) v)) vs) @ line d @ '']'' = line (Suc d) @ t" "json_elems vs t"
      using elems_text [of vs "render (Suc d)" "line d" "Suc d"] 6 by (auto simp: list_all_iff)
    then show ?thesis using False json_value_json_elems_json_members.arr [of "line (Suc d)" vs t] by simp
  qed
next
  case (7 d ms)
  have mem: "id_ok k \<and> escaped k = k \<and> json_value v (render (Suc d) v)" if "(k, v) \<in> set ms" for k v
    using "7.IH" [OF that refl] "7.prems" that by (auto simp: list_all_iff)
  show ?case
  proof (cases "ms = []")
    case True
    then show ?thesis using json_value_json_elems_json_members.obj0 [of "[]"] by simp
  next
    case False
    then obtain t where "items (Suc d) True (map (\<lambda>(k, v). (Some k, render (Suc d) v)) ms) @ line d @ ''}'' = line (Suc d) @ t"
      "json_members ms t"
      using members_text [OF False mem, of "line d" "Suc d"] by auto
    then show ?thesis using False json_value_json_elems_json_members.obj [of "line (Suc d)" ms t] by simp
  qed
qed (auto intro: json_value_json_elems_json_members.intros int_json)

section \<open>Writing and reading a document\<close>

text \<open>The calls that write a value.\<close>

fun calls_of :: "string option \<Rightarrow> jvalue \<Rightarrow> call list" where
  "calls_of k J_null = [Null_add k]"
| "calls_of k (J_bool b) = [Bool_add k (of_bool b)]"
| "calls_of k (J_int i) = [Int_add k i]"
| "calls_of k (J_float t) = [Float_add k t]"
| "calls_of k (J_str s) = [Str_add k s]"
| "calls_of k (J_arr vs) = Arr_start k # concat (map (calls_of None) vs) @ [Arr_finish]"
| "calls_of k (J_obj ms) = Obj_start k # concat (map (\<lambda>(k, v). calls_of (Some k) v) ms) @ [Obj_finish]"

lemma m_elems:
  assumes "\<And>v fr. v \<in> set vs \<Longrightarrow> \<not> is_obj fr \<Longrightarrow>
      fold m_call (calls_of None v) (Open docs ((i, fr) # st)) = Open docs ((i, frame_add fr None v) # st)"
  shows "fold m_call (concat (map (calls_of None) vs)) (Open docs ((i, F_arr us) # st)) = Open docs ((i, F_arr (us @ vs)) # st)"
  using assms by (induction vs arbitrary: us) auto

lemma m_members:
  assumes "\<And>k v fr. (k, v) \<in> set ms \<Longrightarrow> is_obj fr \<Longrightarrow>
      fold m_call (calls_of (Some k) v) (Open docs ((i, fr) # st)) = Open docs ((i, frame_add fr (Some k) v) # st)"
  shows "fold m_call (concat (map (\<lambda>(k, v). calls_of (Some k) v) ms)) (Open docs ((i, F_obj us) # st))
    = Open docs ((i, F_obj (us @ ms)) # st)"
  using assms by (induction ms arbitrary: us) auto

lemma nests_ge: "v \<in> set vs \<Longrightarrow> nest v \<le> nests vs"
  by (induction vs) auto

lemma m_value:
  assumes "is_obj fr \<longleftrightarrow> k \<noteq> None" "Suc (length st) + nest v \<le> UJSON_RECURSION_MAX"
  shows "fold m_call (calls_of k v) (Open docs ((i, fr) # st)) = Open docs ((i, frame_add fr k v) # st)"
  using assms
proof (induction k v arbitrary: i fr st rule: calls_of.induct)
  case (6 k vs)
  have "fold m_call (calls_of None v) (Open docs ((k, fr') # (i, fr) # st)) = Open docs ((k, frame_add fr' None v) # (i, fr) # st)"
    if "v \<in> set vs" "\<not> is_obj fr'" for v fr'
    using "6.IH" [OF that(1), of fr' "(i, fr) # st" k] that nests_ge [OF that(1)] "6.prems"(2) by simp
  then have "fold m_call (concat (map (calls_of None) vs)) (Open docs ((k, F_arr []) # (i, fr) # st))
      = Open docs ((k, F_arr ([] @ vs)) # (i, fr) # st)"
    by (rule m_elems)
  then show ?case
    using "6.prems" by (simp add: new_frame_def)
next
  case (7 k ms)
  have "fold m_call (calls_of (Some k') v) (Open docs ((k, fr') # (i, fr) # st)) = Open docs ((k, frame_add fr' (Some k') v) # (i, fr) # st)"
    if "(k', v) \<in> set ms" "is_obj fr'" for k' v fr'
    using "7.IH" [OF that(1) refl, of fr' "(i, fr) # st" k] that nests_ge [of v "map snd ms"] "7.prems"(2) by force
  then have "fold m_call (concat (map (\<lambda>(k, v). calls_of (Some k) v) ms)) (Open docs ((k, F_obj []) # (i, fr) # st))
      = Open docs ((k, F_obj ([] @ ms)) # (i, fr) # st)"
    by (rule m_members)
  then show ?case
    using "7.prems" by (simp add: new_frame_def)
qed auto

lemma m_document:
  assumes "nest (J_obj ms) \<le> UJSON_RECURSION_MAX"
  shows "m_calls (calls_of None (J_obj ms)) = Open [J_obj ms] []"
proof -
  have "fold m_call (calls_of (Some k) v) (Open [] [(None, fr)]) = Open [] [(None, frame_add fr (Some k) v)]"
    if "(k, v) \<in> set ms" "is_obj fr" for k v fr
    using m_value [of fr "Some k" "[]" v "[]" None] nests_ge [of v "map snd ms"] that assms by force
  then have "fold m_call (concat (map (\<lambda>(k, v). calls_of (Some k) v) ms)) (Open [] [(None, F_obj [])])
      = Open [] [(None, F_obj ([] @ ms))]"
    by (rule m_members)
  then show ?thesis
    using assms by (simp add: m_calls_def new_frame_def UJSON_RECURSION_MAX_def)
qed

lemma close_file:
  assumes "file_ok (out_priv w)"
  obtains f where "ujson_writer_file_close full_write 0 0 0 w = (False, f)" "wf_file f = file_text (out_priv w)"
  using file_write_full [of "wf_buf (out_priv w)" "out_priv w"]
  by (cases "wf_buf (out_priv w) = []") (auto simp: ujson_writer_file_close_def file_text_def Let_def)

text \<open>C2: A document written into a file and read again: the calls that write an object succeed, so
  do \<open>ujson_writer_finish\<close> and closing the file, and a client that iterates over the file with the
  reader collects exactly the members that were written, in their order, without an error.\<close>
theorem write_read_roundtrip:
  assumes "json_ok (J_obj ms)" "list_all (call_fits 256) (calls_of None (J_obj ms))"
    and "length (calls_of None (J_obj ms)) < 2147483648" "nest (J_obj ms) \<le> UJSON_RECURSION_MAX"
    and "vbuf v0 \<noteq> None" "strs_fit (buf_size v0) (J_obj ms)"
  shows "\<exists>w0 w w' f n b'. ujson_writer_file_open True 3 = Some (3, w0)
    \<and> do_calls (out_writer_file full_write) (calls_of None (J_obj ms)) w0 = Some w
    \<and> ujson_writer_finish (out_writer_file full_write) w = (False, w')
    \<and> ujson_writer_file_close full_write 0 0 0 w' = (False, f)
    \<and> (\<forall>k. read_obj (n + k) v0 (UJSON_READER_INIT (wf_file f) (length (wf_file f)) sm) = Some (ms, b'))
    \<and> \<not> ujson_reader_err b'"
proof -
  let ?f0 = "\<lparr>wf_calls = 0, wf_file = [], wf_buf = []\<rparr>" and ?t = "render 0 (J_obj ms)"
  have f0: "file_ok ?f0" "file_text ?f0 = []" by (simp_all add: file_ok_def file_text_def WRITER_BUF_def)
  obtain w where w: "do_calls (out_writer_file full_write) (calls_of None (J_obj ms)) (UJSON_WRITER_INIT ?f0) = Some w"
    "fo.sim [] (m_calls (calls_of None (J_obj ms))) w"
    using fo.calls_sim [OF fo.init_sim [OF f0(1)], of "calls_of None (J_obj ms)"] assms(2,3) f0(2)
    by (auto simp: m_calls_def WRITER_BUF_def)
  obtain w' where w': "ujson_writer_finish (out_writer_file full_write) w = (False, w')" "file_ok (out_priv w')"
    "file_text (out_priv w') = ?t @ [CHR 0x0A]"
    using fo.writer_finish_sim [OF w(2), unfolded m_document [OF assms(4)]] by (auto simp del: render.simps)
  obtain f where f: "ujson_writer_file_close full_write 0 0 0 w' = (False, f)" "wf_file f = ?t @ [CHR 0x0A]"
    using close_file [OF w'(2)] w'(3) by metis
  let ?b = "UJSON_READER_INIT (wf_file f) (length (wf_file f)) sm"
  have at: "at_text ?b (?t @ [CHR 0x0A])" using f(2) by (simp add: at_text_def UJSON_READER_INIT_def)
  have nt: "num_type [CHR 0x0A] = UJSON_INT" by simp
  have room: "room ?b (Suc (nests (map snd ms)))" using assms(4) by (simp add: room_def UJSON_READER_INIT_def UJSON_RECURSION_MAX_def)
  have "buf_ok v0 (map snd ms)"
    using assms(6) by (simp add: buf_ok_def list.pred_map comp_def case_prod_unfold)
  then obtain n b' where r: "read_obj n v0 ?b = Some (ms, b')" "moved ?b (length ?t + trail [CHR 0x0A]) (Ujson_Reader.ujson_reader.depth ?b) b'"
    using read_obj_document [OF render_grammar [OF assms(1)] at nt _ room, of v0] assms(5) by metis
  have "read_obj (n + k) v0 ?b = Some (ms, b')" for k using read_mono_le(1) [OF _ r(1)] by simp
  moreover have "\<not> ujson_reader_err b'"
    using r(2) at_text_noerr [OF at] by (simp add: moved_def ujson_reader_err_def)
  ultimately show ?thesis
    using w(1) w'(1) f(1) by (simp add: ujson_writer_file_open_def) blast
qed

theorem write_read_roundtrip_witness:
  "\<exists>w w' f n b'. do_calls (out_writer_file full_write) (calls_of None (J_obj [(''a'', J_arr [J_int 10, J_null])]))
      (UJSON_WRITER_INIT \<lparr>wf_calls = 0, wf_file = [], wf_buf = []\<rparr>) = Some w
    \<and> ujson_writer_finish (out_writer_file full_write) w = (False, w')
    \<and> ujson_writer_file_close full_write 0 0 0 w' = (False, f)
    \<and> read_obj (n + 0) (UJSON_VAL_INIT (Some []) 16) (UJSON_READER_INIT (wf_file f) (length (wf_file f)) True)
        = Some ([(''a'', J_arr [J_int 10, J_null])], b')"
proof -
  have "utf8_ok ''a''" "escaped ''a'' = ''a''" by code_simp+
  then show ?thesis
    using write_read_roundtrip [of "[(''a'', J_arr [J_int 10, J_null])]" "UJSON_VAL_INIT (Some []) 16" True]
    by (simp add: key_fits_def id_ok_def UJSON_ID_MAX_def UJSON_RECURSION_MAX_def UJSON_VAL_INIT_def
        ujson_writer_file_open_def del: do_calls.simps) metis
qed

end
