(* ===== verification/Bitmask.thy ===== *)
theory Bitmask
  imports Ltp_Prelude
begin

text \<open>
  The bit masks of the cpuset library
  (\<open>testcases/kernel/controllers/cpuset/cpuset_lib/libbitmask.c\<close>): sets of CPU and memory node numbers with
  set operations, and two textual forms with their parsers.

  Functions that read one mask and write another take addresses and a store that maps them to
  masks, because the arguments may be the same object. Those with one mask take the mask. Indices are
  the natural numbers of an \<open>unsigned int\<close>; where the source adds to one, the sum is reduced modulo \<open>2 ^ 32\<close>.
\<close>

unbundle bit_operations_syntax

section \<open>The masks\<close>

record bitmask =
  bsize :: nat
  maskp :: "64 word list"

type_synonym store = "nat \<Rightarrow> bitmask"

definition bitsperlong :: nat where "bitsperlong = 64"

definition howmany :: "nat \<Rightarrow> nat \<Rightarrow> nat" where
  "howmany x y = (x + (y - 1)) div y"

definition longsperbits :: "nat \<Rightarrow> nat" where
  "longsperbits n = howmany n bitsperlong"

text \<open>\<open>_getbit()\<close> and \<open>_setbit()\<close>.\<close>

definition getbit :: "bitmask \<Rightarrow> nat \<Rightarrow> 32 word" where
  "getbit bmp n = (if n < bsize bmp
     then ucast (drop_bit (n mod bitsperlong) (maskp bmp ! (n div bitsperlong)) AND 1) else 0)"

definition setbit :: "bitmask \<Rightarrow> nat \<Rightarrow> 32 word \<Rightarrow> bitmask" where
  "setbit bmp n v = (if n < bsize bmp then
     let i = n div bitsperlong; m = push_bit (n mod bitsperlong) 1 in
     if v \<noteq> 0 then bmp\<lparr>maskp := (maskp bmp)[i := maskp bmp ! i OR m]\<rparr>
     else bmp\<lparr>maskp := (maskp bmp)[i := maskp bmp ! i AND NOT m]\<rparr>
     else bmp)"

text \<open>The two allocations may fail.\<close>

definition bitmask_alloc :: "bool \<Rightarrow> bool \<Rightarrow> nat \<Rightarrow> bitmask option" where
  "bitmask_alloc malloc_ok calloc_ok n =
     (if malloc_ok \<and> calloc_ok then Some \<lparr>bsize = n, maskp = replicate (longsperbits n) 0\<rparr> else None)"

section \<open>Operations\<close>

definition bitmask_copy :: "nat \<Rightarrow> nat \<Rightarrow> store \<Rightarrow> store" where
  "bitmask_copy bmp1 bmp2 h =
     fold (\<lambda>i h. h(bmp1 := setbit (h bmp1) i (getbit (h bmp2) i))) [0..<bsize (h bmp1)] h"

definition bitmask_setall :: "bitmask \<Rightarrow> bitmask" where
  "bitmask_setall bmp = fold (\<lambda>i b. setbit b i 1) [0..<bsize bmp] bmp"

definition bitmask_clearall :: "bitmask \<Rightarrow> bitmask" where
  "bitmask_clearall bmp = fold (\<lambda>i b. setbit b i 0) [0..<bsize bmp] bmp"

definition bitmask_nbytes :: "bitmask \<Rightarrow> nat" where
  "bitmask_nbytes bmp = longsperbits (bsize bmp) * 8"

definition bitmask_mask :: "bitmask \<Rightarrow> 64 word list" where
  "bitmask_mask bmp = maskp bmp"

definition bitmask_nbits :: "bitmask \<Rightarrow> nat" where
  "bitmask_nbits bmp = bsize bmp"

definition bitmask_weight :: "bitmask \<Rightarrow> nat" where
  "bitmask_weight bmp = fold (\<lambda>i w. if getbit bmp i \<noteq> 0 then w + 1 else w) [0..<bsize bmp] 0"

definition bitmask_isbitset :: "bitmask \<Rightarrow> nat \<Rightarrow> bool" where
  "bitmask_isbitset bmp i \<longleftrightarrow> getbit bmp i \<noteq> 0"

definition bitmask_isbitclear :: "bitmask \<Rightarrow> nat \<Rightarrow> bool" where
  "bitmask_isbitclear bmp i \<longleftrightarrow> getbit bmp i = 0"

definition bitmask_isallset :: "bitmask \<Rightarrow> bool" where
  "bitmask_isallset bmp \<longleftrightarrow> list_all (\<lambda>i. getbit bmp i \<noteq> 0) [0..<bsize bmp]"

definition bitmask_isallclear :: "bitmask \<Rightarrow> bool" where
  "bitmask_isallclear bmp \<longleftrightarrow> list_all (\<lambda>i. getbit bmp i = 0) [0..<bsize bmp]"

definition bitmask_setbit :: "bitmask \<Rightarrow> nat \<Rightarrow> bitmask" where
  "bitmask_setbit bmp i = setbit bmp i 1"

definition bitmask_clearbit :: "bitmask \<Rightarrow> nat \<Rightarrow> bitmask" where
  "bitmask_clearbit bmp i = setbit bmp i 0"

definition bitmask_equal :: "bitmask \<Rightarrow> bitmask \<Rightarrow> bool" where
  "bitmask_equal bmp1 bmp2 \<longleftrightarrow> list_all (\<lambda>i. getbit bmp1 i = getbit bmp2 i) [0..<max (bsize bmp1) (bsize bmp2)]"

definition bitmask_subset :: "bitmask \<Rightarrow> bitmask \<Rightarrow> bool" where
  "bitmask_subset bmp1 bmp2 \<longleftrightarrow> list_all (\<lambda>i. \<not> getbit bmp2 i < getbit bmp1 i) [0..<bsize bmp1]"

definition bitmask_disjoint :: "bitmask \<Rightarrow> bitmask \<Rightarrow> bool" where
  "bitmask_disjoint bmp1 bmp2 \<longleftrightarrow> list_all (\<lambda>i. getbit bmp1 i AND getbit bmp2 i = 0) [0..<bsize bmp1]"

definition bitmask_intersects :: "bitmask \<Rightarrow> bitmask \<Rightarrow> bool" where
  "bitmask_intersects bmp1 bmp2 \<longleftrightarrow> list_ex (\<lambda>i. getbit bmp1 i AND getbit bmp2 i \<noteq> 0) [0..<bsize bmp1]"

definition bitmask_setrange :: "bitmask \<Rightarrow> nat \<Rightarrow> nat \<Rightarrow> bitmask" where
  "bitmask_setrange bmp i j = fold (\<lambda>n b. setbit b n 1) [i..<j] bmp"

definition bitmask_clearrange :: "bitmask \<Rightarrow> nat \<Rightarrow> nat \<Rightarrow> bitmask" where
  "bitmask_clearrange bmp i j = fold (\<lambda>n b. setbit b n 0) [i..<j] bmp"

definition bitmask_keeprange :: "bitmask \<Rightarrow> nat \<Rightarrow> nat \<Rightarrow> bitmask" where
  "bitmask_keeprange bmp i j = (let bmp = bitmask_clearrange bmp 0 i in bitmask_clearrange bmp j (bsize bmp))"

definition bitmask_complement :: "nat \<Rightarrow> nat \<Rightarrow> store \<Rightarrow> store" where
  "bitmask_complement bmp1 bmp2 h =
     fold (\<lambda>i h. h(bmp1 := setbit (h bmp1) i (if getbit (h bmp2) i = 0 then 1 else 0))) [0..<bsize (h bmp1)] h"

definition bitmask_shiftright :: "nat \<Rightarrow> nat \<Rightarrow> nat \<Rightarrow> store \<Rightarrow> store" where
  "bitmask_shiftright bmp1 bmp2 n h =
     fold (\<lambda>i h. h(bmp1 := setbit (h bmp1) i (getbit (h bmp2) ((i + n) mod 2 ^ 32)))) [0..<bsize (h bmp1)] h"

text \<open>The index of the left shift is an \<open>int\<close> that counts down; the loop does not run when the size does not fit.\<close>

definition bitmask_shiftleft :: "nat \<Rightarrow> nat \<Rightarrow> nat \<Rightarrow> store \<Rightarrow> store" where
  "bitmask_shiftleft bmp1 bmp2 n h =
     fold (\<lambda>i h. h(bmp1 := setbit (h bmp1) i (getbit (h bmp2) (nat ((int i - int n) mod 2 ^ 32)))))
       (rev [0..<(if bsize (h bmp1) \<le> 2 ^ 31 then bsize (h bmp1) else 0)]) h"

definition bitmask_and :: "nat \<Rightarrow> nat \<Rightarrow> nat \<Rightarrow> store \<Rightarrow> store" where
  "bitmask_and bmp1 bmp2 bmp3 h =
     fold (\<lambda>i h. h(bmp1 := setbit (h bmp1) i (getbit (h bmp2) i AND getbit (h bmp3) i))) [0..<bsize (h bmp1)] h"

definition bitmask_andnot :: "nat \<Rightarrow> nat \<Rightarrow> nat \<Rightarrow> store \<Rightarrow> store" where
  "bitmask_andnot bmp1 bmp2 bmp3 h =
     fold (\<lambda>i h. h(bmp1 := setbit (h bmp1) i (getbit (h bmp2) i AND NOT (getbit (h bmp3) i)))) [0..<bsize (h bmp1)] h"

definition bitmask_or :: "nat \<Rightarrow> nat \<Rightarrow> nat \<Rightarrow> store \<Rightarrow> store" where
  "bitmask_or bmp1 bmp2 bmp3 h =
     fold (\<lambda>i h. h(bmp1 := setbit (h bmp1) i (getbit (h bmp2) i OR getbit (h bmp3) i))) [0..<bsize (h bmp1)] h"

definition bitmask_eor :: "nat \<Rightarrow> nat \<Rightarrow> nat \<Rightarrow> store \<Rightarrow> store" where
  "bitmask_eor bmp1 bmp2 bmp3 h =
     fold (\<lambda>i h. h(bmp1 := setbit (h bmp1) i (getbit (h bmp2) i XOR getbit (h bmp3) i))) [0..<bsize (h bmp1)] h"

text \<open>Iteration: the next set bit, or the size (or the start, when that is larger).\<close>

function bitmask_next :: "bitmask \<Rightarrow> nat \<Rightarrow> nat" where
  "bitmask_next bmp n = (if n < bsize bmp then if getbit bmp n \<noteq> 0 then n else bitmask_next bmp (n + 1) else n)"
  by pat_completeness auto
termination by (relation "measure (\<lambda>(b, n). bsize b - n)") simp_all

declare bitmask_next.simps [simp del]

definition bitmask_first :: "bitmask \<Rightarrow> nat" where
  "bitmask_first bmp = bitmask_next bmp 0"

function rel_loop :: "bitmask \<Rightarrow> nat \<Rightarrow> nat \<Rightarrow> nat" where
  "rel_loop bmp n i = (if i < bsize bmp then
     if getbit bmp i \<noteq> 0 then if n = 0 then i else rel_loop bmp (n - 1) (i + 1) else rel_loop bmp n (i + 1)
     else i)"
  by pat_completeness auto
termination by (relation "measure (\<lambda>(b, n, i). bsize b - i)") simp_all

declare rel_loop.simps [simp del]

definition bitmask_rel_to_abs_pos :: "bitmask \<Rightarrow> nat \<Rightarrow> nat" where
  "bitmask_rel_to_abs_pos bmp n = rel_loop bmp n 0"

definition bitmask_abs_to_rel_pos :: "bitmask \<Rightarrow> nat \<Rightarrow> nat" where
  "bitmask_abs_to_rel_pos bmp n =
     (if getbit bmp n = 0 then bsize bmp
      else fold (\<lambda>i w. if getbit bmp i \<noteq> 0 then w + 1 else w) [0..<n] 0)"

definition bitmask_last :: "bitmask \<Rightarrow> nat" where
  "bitmask_last bmp = fold (\<lambda>i m. if getbit bmp i \<noteq> 0 then i else m) [0..<bsize bmp] (bsize bmp)"

section \<open>Text\<close>

text \<open>\<open>snprintf(buf + cnt, MAX(buflen - cnt, 0), ...)\<close>: what is printed behind the first \<open>cnt\<close> characters, as
  far as it fits. A string holds the characters before the terminating NUL.\<close>

definition snprintf_at :: "string \<Rightarrow> int \<Rightarrow> nat \<Rightarrow> string \<Rightarrow> string" where
  "snprintf_at str buflen cnt s =
     (let room = nat (max (buflen - int cnt) 0) in if room = 0 then str else take cnt str @ take (room - 1) s)"

definition HEXCHUNKSZ :: nat where "HEXCHUNKSZ = 32"

definition HEXCHARSZ :: nat where "HEXCHARSZ = 8"

definition hex_char :: "nat \<Rightarrow> char" where
  "hex_char d = (if d < 10 then char_of (48 + d) else char_of (87 + d))"

text \<open>\<open>%0*x\<close> with the width 8, for 32 bits.\<close>

definition hex_text :: "32 word \<Rightarrow> string" where
  "hex_text val = map (\<lambda>k. hex_char (unat (drop_bit (4 * k) val AND 0xF))) (rev [0..<HEXCHARSZ])"

definition chunk_value :: "bitmask \<Rightarrow> nat \<Rightarrow> 32 word" where
  "chunk_value bmp chunk =
     fold (\<lambda>b val. push_bit 1 val OR getbit bmp (chunk * HEXCHUNKSZ + b)) (rev [0..<HEXCHUNKSZ]) 0"

fun displayhex_loop :: "bitmask \<Rightarrow> int \<Rightarrow> nat list \<Rightarrow> string \<Rightarrow> string \<Rightarrow> nat \<Rightarrow> string \<times> nat" where
  "displayhex_loop bmp buflen [] sep str cnt = (str, cnt)"
| "displayhex_loop bmp buflen (chunk # chunks) sep str cnt =
     (let s = sep @ hex_text (chunk_value bmp chunk) in
      displayhex_loop bmp buflen chunks '','' (snprintf_at str buflen cnt s) (cnt + length s))"

text \<open>The number of chunks is computed in an \<open>unsigned int\<close>.\<close>

definition bitmask_displayhex :: "string \<Rightarrow> int \<Rightarrow> bitmask \<Rightarrow> string \<times> nat" where
  "bitmask_displayhex str buflen bmp =
     (if buflen < 1 then (str, 0)
      else displayhex_loop bmp buflen (rev [0..<(bsize bmp + (HEXCHUNKSZ - 1)) mod 2 ^ 32 div HEXCHUNKSZ]) [] [] 0)"

definition emit :: "string \<Rightarrow> int \<Rightarrow> nat \<Rightarrow> nat \<Rightarrow> nat \<Rightarrow> string \<times> nat" where
  "emit str buflen rbot rtop len0 =
     (let (str, n) = (if 0 < len0 then (snprintf_at str buflen len0 '','', len0 + 1) else (str, len0));
          s = (if rbot = rtop then dec_of_int (c_int (int rbot))
               else dec_of_int (c_int (int rbot)) @ ''-'' @ dec_of_int (c_int (int rtop)))
      in (snprintf_at str buflen n s, n + length s))"

lemma bitmask_next_ge: "n \<le> bitmask_next b n"
proof (induction b n rule: bitmask_next.induct)
  case (1 b n)
  then show ?case by (subst bitmask_next.simps) auto
qed

lemma next_measure: "c < bsize b \<Longrightarrow> bsize b - bitmask_next b (Suc c) < bsize b - c"
  using bitmask_next_ge [of "Suc c" b] by simp

function displaylist_loop :: "bitmask \<Rightarrow> int \<Rightarrow> nat \<Rightarrow> nat \<Rightarrow> string \<Rightarrow> nat \<Rightarrow> string \<times> nat" where
  "displaylist_loop bmp buflen rbot cur str n =
     (if cur < bsize bmp then
        let rtop = cur; cur = bitmask_next bmp (cur + 1) in
        if bsize bmp \<le> cur \<or> rtop + 1 < cur
        then case emit str buflen rbot rtop n of (str, n) \<Rightarrow> displaylist_loop bmp buflen cur cur str n
        else displaylist_loop bmp buflen rbot cur str n
      else (str, n))"
  by pat_completeness auto
termination
  by (relation "measure (\<lambda>(b, l, r, c, s, n). bsize b - c)") (auto intro!: next_measure)

declare displaylist_loop.simps [simp del]

definition bitmask_displaylist :: "string \<Rightarrow> int \<Rightarrow> bitmask \<Rightarrow> string \<times> nat" where
  "bitmask_displaylist str buflen bmp =
     (let cur = bitmask_first bmp in displaylist_loop bmp buflen cur cur (if 0 < buflen then [] else str) 0)"

definition nexttoken :: "string \<Rightarrow> char \<Rightarrow> string option" where
  "nexttoken q sep = (case dropWhile (\<lambda>c. c \<noteq> sep) q of [] \<Rightarrow> None | _ # r \<Rightarrow> Some r)"

lemma nexttoken_shorter: "nexttoken q sep = Some r \<Longrightarrow> length r < length q"
  using length_dropWhile_le [of "\<lambda>c. c \<noteq> sep" q] by (auto simp: nexttoken_def split: list.splits)

text \<open>\<open>strtoul()\<close> in base 16: as in base 10, with an optional \<open>0x\<close> in front of the digits.\<close>

definition strtoul16 :: "string \<Rightarrow> int \<times> string" where
  "strtoul16 s = (case sign_digits s of (neg, t) \<Rightarrow>
     let t = hex_prefix t; ds = takeWhile (\<lambda>c. hex_digit c \<noteq> None) t;
         v = foldl (\<lambda>v c. v * 16 + the (hex_digit c)) 0 ds in
     if ds = [] then (0, s)
     else (if 18446744073709551615 < v then 18446744073709551615 else if neg then c_ulong (- v) else v, drop (length ds) t))"

function count_tokens :: "string \<Rightarrow> nat" where
  "count_tokens p = (case nexttoken p (CHR '','') of None \<Rightarrow> 1 | Some q \<Rightarrow> Suc (count_tokens q))"
  by pat_completeness auto
termination by (relation "measure length") (auto dest: nexttoken_shorter)

declare count_tokens.simps [simp del]

text \<open>The loops return whether they jumped to \<open>err\<close>, and the mask.\<close>

fun set_chunk :: "nat \<Rightarrow> 32 word \<Rightarrow> nat \<Rightarrow> nat list \<Rightarrow> bitmask \<Rightarrow> bool \<times> bitmask" where
  "set_chunk sz val chunk [] bmp = (False, bmp)"
| "set_chunk sz val chunk (b # bs) bmp =
     (let n = (chunk * HEXCHUNKSZ + b) mod 2 ^ 32 in
      if sz \<le> n then (True, bmp) else set_chunk sz val chunk bs (setbit bmp n (drop_bit b val AND 1)))"

function parsehex_loop :: "nat \<Rightarrow> string \<Rightarrow> nat \<Rightarrow> bitmask \<Rightarrow> bool \<times> bitmask" where
  "parsehex_loop sz p chunk bmp =
     (let (v, endptr) = strtoul16 p; q = nexttoken p (CHR '',''); nchars_read = length p - length endptr in
      if nchars_read < 1 \<or> HEXCHARSZ < nchars_read then (True, bmp)
      else if (case q of None \<Rightarrow> False | Some q \<Rightarrow> int (length endptr) - int (length q) \<noteq> 1) then (True, bmp)
      else case set_chunk sz (word_of_int v) chunk (rev [0..<HEXCHUNKSZ]) bmp of
        (True, bmp) \<Rightarrow> (True, bmp)
      | (False, bmp) \<Rightarrow> (case q of None \<Rightarrow> (False, bmp) | Some q \<Rightarrow> parsehex_loop sz q (chunk - 1) bmp))"
  by pat_completeness auto
termination by (relation "measure (\<lambda>(sz, p, c, b). length p)") (auto dest!: nexttoken_shorter [OF sym])

declare parsehex_loop.simps [simp del]

definition bitmask_parsehex :: "string \<Rightarrow> bitmask \<Rightarrow> int \<times> bitmask" where
  "bitmask_parsehex str bmp =
     (let bmp = bitmask_clearall bmp; sz = longsperbits (bsize bmp) * 8 * 8 mod 2 ^ 32 in
      case parsehex_loop sz str (count_tokens str - 1) bmp of
        (False, bmp) \<Rightarrow> (0, bmp)
      | (True, bmp) \<Rightarrow> (-1, bitmask_clearall bmp))"

text \<open>
  \<open>sscanf(p, "%u%c", ...)\<close>: the return value, the number and the character. The number is converted like by
  \<open>strtoul()\<close> and stored in 32 bits.
\<close>

definition scan_uc :: "string \<Rightarrow> int \<times> nat \<times> char" where
  "scan_uc s = (if dropWhile isspace s = [] then (-1, 0, NUL) else case strtoul s of (v, r) \<Rightarrow>
     if r = s then (0, 0, NUL) else case r of [] \<Rightarrow> (1, nat (c_uint v), NUL) | c # _ \<Rightarrow> (2, nat (c_uint v), c))"

definition scan_was_ok :: "int \<Rightarrow> char \<Rightarrow> string \<Rightarrow> bool" where
  "scan_was_ok sret nextc ok_next_chars \<longleftrightarrow> sret = 1 \<or> (sret = 2 \<and> nextc \<in> set ok_next_chars)"

text \<open>\<open>c1 != NULL && (c2 == NULL || c1 < c2)\<close>.\<close>

definition before :: "string option \<Rightarrow> string option \<Rightarrow> bool" where
  "before c1 c2 = (case c1 of None \<Rightarrow> False | Some x \<Rightarrow> (case c2 of None \<Rightarrow> True | Some y \<Rightarrow> length y < length x))"

text \<open>Begin, end and stride of the range at the beginning of the text.\<close>

definition scan_range :: "string \<Rightarrow> (nat \<times> nat \<times> nat) option" where
  "scan_range p =
     (case scan_uc p of (sret, a, nextc) \<Rightarrow>
      if \<not> scan_was_ok sret nextc '',-'' then None
      else let c1 = nexttoken p (CHR ''-''); c2 = nexttoken p (CHR '','') in
        if before c1 c2 then
          (case scan_uc (the c1) of (sret, b, nextc) \<Rightarrow>
           if \<not> scan_was_ok sret nextc '',:'' then None
           else let c3 = nexttoken (the c1) (CHR '':'') in
             if before c3 c2 then
               (case scan_uc (the c3) of (sret, s, nextc) \<Rightarrow>
                if \<not> scan_was_ok sret nextc '','' then None else Some (a, b, s))
             else Some (a, b, 1))
        else Some (a, a, 1))"

text \<open>The loop over a range need not end.\<close>

partial_function (option) stride_loop :: "nat \<Rightarrow> nat \<Rightarrow> nat \<Rightarrow> bitmask \<Rightarrow> bitmask option" where
  "stride_loop a b s bmp =
     (if a \<le> b then stride_loop ((a + s) mod 2 ^ 32) b s (setbit bmp a 1) else Some bmp)"

function parselist_loop :: "string \<Rightarrow> bitmask \<Rightarrow> (bool \<times> bitmask) option" where
  "parselist_loop p bmp =
     (case scan_range p of
        None \<Rightarrow> Some (True, bmp)
      | Some (a, b, s) \<Rightarrow>
          if \<not> a \<le> b then Some (True, bmp)
          else if bsize bmp \<le> b then Some (True, bmp)
          else case stride_loop a b s bmp of
            None \<Rightarrow> None
          | Some bmp \<Rightarrow> (case nexttoken p (CHR '','') of None \<Rightarrow> Some (False, bmp) | Some q \<Rightarrow> parselist_loop q bmp))"
  by pat_completeness auto
termination by (relation "measure (\<lambda>(p, b). length p)") (auto dest: nexttoken_shorter)

declare parselist_loop.simps [simp del]

definition bitmask_parselist :: "string \<Rightarrow> bitmask \<Rightarrow> (int \<times> bitmask) option" where
  "bitmask_parselist str bmp =
     (case parselist_loop str (bitmask_clearall bmp) of
        None \<Rightarrow> None
      | Some (False, bmp) \<Rightarrow> Some (0, bmp)
      | Some (True, bmp) \<Rightarrow> Some (-1, bitmask_clearall bmp))"

section \<open>Masks are sets\<close>

definition bm_ok :: "bitmask \<Rightarrow> bool" where
  "bm_ok b \<longleftrightarrow> length (maskp b) = longsperbits (bsize b)"

definition bits :: "bitmask \<Rightarrow> nat set" where
  "bits b = {n. n < bsize b \<and> bit (maskp b ! (n div 64)) (n mod 64)}"

lemma bits_bound: "n \<in> bits b \<Longrightarrow> n < bsize b"
  by (simp add: bits_def)

lemma bits_subset: "bits b \<subseteq> {..<bsize b}"
  by (auto dest: bits_bound)

lemma getbit_bits: "getbit b n = (if n \<in> bits b then 1 else 0)"
proof -
  have "drop_bit k w AND 1 = (if bit w k then 1 else 0)" for w :: "64 word" and k
    by (simp add: and_one_eq mod_2_eq_odd bit_iff_odd_drop_bit)
  then show ?thesis by (simp add: getbit_def bits_def bitsperlong_def)
qed

lemma getbit_zero: "getbit b n = 0 \<longleftrightarrow> n \<notin> bits b"
  by (simp add: getbit_bits)

lemma word_index: "n < bsize b \<Longrightarrow> bm_ok b \<Longrightarrow> n div 64 < length (maskp b)"
  by (simp add: bm_ok_def longsperbits_def howmany_def bitsperlong_def div_less_iff_less_mult)

lemma setbit_fields [simp]: "bsize (setbit b n v) = bsize b" "bm_ok (setbit b n v) = bm_ok b"
  by (simp_all add: setbit_def bm_ok_def Let_def)

lemma same_bit: "(n :: nat) div 64 = m div 64 \<Longrightarrow> n mod 64 = m mod 64 \<longleftrightarrow> n = m"
  by (metis div_mod_decomp)

lemma bits_setbit:
  assumes "bm_ok b"
  shows "bits (setbit b n v) = (if n < bsize b then if v \<noteq> 0 then insert n (bits b) else bits b - {n} else bits b)"
proof (cases "n < bsize b")
  case True
  note i = word_index [OF True assms]
  have b: "bit (maskp (setbit b n v) ! (m div 64)) (m mod 64) \<longleftrightarrow> (if m = n then v \<noteq> 0 else bit (maskp b ! (m div 64)) (m mod 64))" for m
  proof (cases "m div 64 = n div 64")
    case e: True
    then show ?thesis using True i same_bit [OF e]
      by (auto simp: setbit_def bitsperlong_def Let_def bit_simps)
  next
    case False
    then show ?thesis using True by (auto simp: setbit_def bitsperlong_def Let_def)
  qed
  show ?thesis using True unfolding bits_def by (auto simp: b)
next
  case False
  then show ?thesis by (simp add: setbit_def)
qed

text \<open>A loop that assigns bits of one mask in some order, when what it assigns depends only on bits that it has not assigned yet.\<close>

lemma fold_store:
  assumes "bm_ok (h p)" "set is \<subseteq> {..<bsize (h p)}" "distinct is"
    and "\<And>xs i ys h'. is = xs @ i # ys \<Longrightarrow> \<forall>q. q \<noteq> p \<longrightarrow> h' q = h q \<Longrightarrow> bsize (h' p) = bsize (h p)
      \<Longrightarrow> bits (h' p) - set xs = bits (h p) - set xs \<Longrightarrow> f h' i \<noteq> 0 \<longleftrightarrow> F i"
    and "h2 = fold (\<lambda>i h. h(p := setbit (h p) i (f h i))) is h"
  shows "(\<forall>q. q \<noteq> p \<longrightarrow> h2 q = h q) \<and> bsize (h2 p) = bsize (h p) \<and> bm_ok (h2 p)
    \<and> bits (h2 p) = (bits (h p) - set is) \<union> {i \<in> set is. F i}"
  using assms(2-5)
proof (induction "is" arbitrary: h2 rule: rev_induct)
  case Nil
  then show ?case using assms(1) by simp
next
  case (snoc x xs)
  define h1 where "h1 = fold (\<lambda>i h. h(p := setbit (h p) i (f h i))) xs h"
  have 1: "(\<forall>q. q \<noteq> p \<longrightarrow> h1 q = h q) \<and> bsize (h1 p) = bsize (h p) \<and> bm_ok (h1 p)
    \<and> bits (h1 p) = (bits (h p) - set xs) \<union> {i \<in> set xs. F i}"
  proof (rule snoc.IH)
    show "f h' i \<noteq> 0 \<longleftrightarrow> F i" if "xs = ys @ i # zs" "\<forall>q. q \<noteq> p \<longrightarrow> h' q = h q" "bsize (h' p) = bsize (h p)"
      "bits (h' p) - set ys = bits (h p) - set ys" for ys i zs h'
      using snoc.prems(3) [of ys i "zs @ [x]" h'] that by simp
    show "set xs \<subseteq> {..<bsize (h p)}" "distinct xs" using snoc.prems(1,2) by simp_all
  qed (rule h1_def)
  have "bits (h1 p) - set xs = bits (h p) - set xs" using 1 by auto
  then have "f h1 x \<noteq> 0 \<longleftrightarrow> F x" using snoc.prems(3) [of xs x "[]" h1] 1 by simp
  moreover have "h2 = h1(p := setbit (h1 p) x (f h1 x))"
    unfolding snoc.prems(4) h1_def by (simp only: fold_append fold.simps comp_apply id_apply)
  ultimately show ?case using 1 bits_setbit [of "h1 p" x] snoc.prems(1,2) by auto
qed

text \<open>What a function that writes the mask at \<open>p\<close> leaves behind.\<close>

definition assigns :: "store \<Rightarrow> nat \<Rightarrow> nat set \<Rightarrow> store \<Rightarrow> bool" where
  "assigns h p S h2 \<longleftrightarrow> (\<forall>q. q \<noteq> p \<longrightarrow> h2 q = h q) \<and> bsize (h2 p) = bsize (h p) \<and> bm_ok (h2 p)
     \<and> bits (h2 p) = S \<inter> {..<bsize (h p)}"

text \<open>The operations read one bit of each source for every bit of the target; the sources may be the target.\<close>

lemma store_op:
  assumes "bm_ok (h p)" "set is = {..<bsize (h p)}" "distinct is"
    and "\<And>xs i ys. is = xs @ i # ys \<Longrightarrow> r i \<notin> set xs \<and> s i \<notin> set xs"
    and "\<And>i. i < bsize (h p) \<Longrightarrow> g (getbit (h q) (r i)) (getbit (h t) (s i)) \<noteq> 0 \<longleftrightarrow> i \<in> S"
  shows "assigns h p S (fold (\<lambda>i h. h(p := setbit (h p) i (g (getbit (h q) (r i)) (getbit (h t) (s i))))) is h)"
proof -
  have u: "getbit (h' v) j = getbit (h v) j"
    if "\<forall>q. q \<noteq> p \<longrightarrow> h' q = h q" "bits (h' p) - set xs = bits (h p) - set xs" "j \<notin> set xs" for h' v j xs
  proof (cases "v = p")
    case True
    have "j \<in> bits (h' p) \<longleftrightarrow> j \<in> bits (h p)" using that(2,3) by blast
    then show ?thesis using True by (simp add: getbit_bits)
  qed (use that in simp)
  have "(\<forall>v. v \<noteq> p \<longrightarrow> h2 v = h v) \<and> bsize (h2 p) = bsize (h p) \<and> bm_ok (h2 p)
      \<and> bits (h2 p) = (bits (h p) - set is) \<union> {i \<in> set is. i \<in> S}"
    if "h2 = fold (\<lambda>i h. h(p := setbit (h p) i (g (getbit (h q) (r i)) (getbit (h t) (s i))))) is h" for h2
  proof (rule fold_store [OF assms(1) _ assms(3) _ that])
    show "g (getbit (h' q) (r i)) (getbit (h' t) (s i)) \<noteq> 0 \<longleftrightarrow> i \<in> S"
      if i: "is = xs @ i # ys" and h': "\<forall>v. v \<noteq> p \<longrightarrow> h' v = h v" "bits (h' p) - set xs = bits (h p) - set xs" for xs i ys h'
    proof -
      have "i < bsize (h p)" using i assms(2) by (metis in_set_conv_decomp lessThan_iff)
      then show ?thesis using u [OF h'] assms(4) [OF i] assms(5) by simp
    qed
  qed (use assms(2) in simp)
  then show ?thesis unfolding assigns_def using assms(2) bits_subset [of "h p"] by auto
qed

section \<open>The set operations\<close>

lemma upto_prefix: "[0..<n] = xs @ i # ys \<Longrightarrow> i \<le> j \<Longrightarrow> j \<notin> set xs"
proof -
  assume l: "[0..<n] = xs @ i # ys" and "i \<le> j"
  have "sorted_wrt (<) (xs @ i # ys)" using sorted_wrt_upt [of 0 n] l by simp
  then show ?thesis using \<open>i \<le> j\<close> by (auto simp: sorted_wrt_append)
qed

lemma downto_prefix: "rev [0..<n] = xs @ i # ys \<Longrightarrow> j \<le> i \<Longrightarrow> j \<notin> set xs"
proof -
  assume l: "rev [0..<n] = xs @ i # ys" and "j \<le> i"
  have "sorted_wrt (<) (rev (xs @ i # ys))" using sorted_wrt_upt [of 0 n] arg_cong [OF l, of rev] by (simp only: rev_rev_ident)
  then show ?thesis using \<open>j \<le> i\<close> by (auto simp: sorted_wrt_append)
qed

lemma left_index: "i < 2 ^ 31 \<Longrightarrow> n \<le> 2 ^ 31 \<Longrightarrow> nat ((int i - int n) mod 2 ^ 32) = (if n \<le> i then i - n else 2 ^ 32 + i - n)"
proof (cases "n \<le> i")
  case False
  assume "i < 2 ^ 31" "n \<le> 2 ^ 31"
  then have "(int i - int n + 2 ^ 32) mod 2 ^ 32 = int i - int n + 2 ^ 32" using False by (intro mod_pos_pos_trivial) auto
  then have "(int i - int n) mod 2 ^ 32 = int i - int n + 2 ^ 32" by (simp only: mod_add_self2)
  then show ?thesis using False by simp
qed (simp add: of_nat_diff [symmetric] del: of_nat_diff)
lemma fold_setbit:
  assumes "bm_ok b"
  shows "bsize (fold (\<lambda>i b. setbit b i v) is b) = bsize b \<and> bm_ok (fold (\<lambda>i b. setbit b i v) is b)
    \<and> bits (fold (\<lambda>i b. setbit b i v) is b) = (if v \<noteq> 0 then bits b \<union> (set is \<inter> {..<bsize b}) else bits b - set is)"
  using assms
proof (induction "is" arbitrary: b)
  case (Cons i "is")
  note b = bits_setbit [OF Cons.prems, of i v] bits_bound [of i b]
  show ?case using Cons b by (cases "v = 0"; cases "i < bsize b") auto
qed auto

lemma range_bits:
  assumes "bm_ok b"
  shows "bits (bitmask_setall b) = {..<bsize b}" "bits (bitmask_clearall b) = {}"
    "bits (bitmask_setrange b i j) = bits b \<union> {i..<j} \<inter> {..<bsize b}" "bits (bitmask_clearrange b i j) = bits b - {i..<j}"
    "bits (bitmask_keeprange b i j) = bits b \<inter> {i..<j}"
proof -
  show "bits (bitmask_setall b) = {..<bsize b}" "bits (bitmask_clearall b) = {}"
    using fold_setbit [OF assms] bits_subset [of b] by (auto simp: bitmask_setall_def bitmask_clearall_def)
  show "bits (bitmask_setrange b i j) = bits b \<union> {i..<j} \<inter> {..<bsize b}" "bits (bitmask_clearrange b i j) = bits b - {i..<j}"
    using fold_setbit [OF assms] by (simp_all add: bitmask_setrange_def bitmask_clearrange_def)
  let ?b = "bitmask_clearrange b 0 i"
  have "bm_ok ?b" "bsize ?b = bsize b" "bits ?b = bits b - {0..<i}" using fold_setbit [OF assms] by (simp_all add: bitmask_clearrange_def)
  then show "bits (bitmask_keeprange b i j) = bits b \<inter> {i..<j}"
    using fold_setbit [of ?b 0 "[j..<bsize b]"] bits_bound [of _ b]
    by (auto simp: bitmask_keeprange_def Let_def bitmask_clearrange_def [of _ j])
qed

lemma clearall_fields: "bm_ok b \<Longrightarrow> bm_ok (bitmask_clearall b) \<and> bsize (bitmask_clearall b) = bsize b"
  using fold_setbit by (simp add: bitmask_clearall_def)

lemma bit_values: "(if n \<in> S then 1 else 0 :: 32 word) \<noteq> 0 \<longleftrightarrow> n \<in> S" "(if n \<in> S then 1 else 0 :: 32 word) = 0 \<longleftrightarrow> n \<notin> S"
  "(if n \<in> S then 1 else 0 :: 32 word) AND (if m \<in> T then 1 else 0) = (if n \<in> S \<and> m \<in> T then 1 else 0)"
  "(if n \<in> S then 1 else 0 :: 32 word) AND NOT (if m \<in> T then 1 else 0) = (if n \<in> S \<and> m \<notin> T then 1 else 0)"
  "(if n \<in> S then 1 else 0 :: 32 word) OR (if m \<in> T then 1 else 0) = (if n \<in> S \<or> m \<in> T then 1 else 0)"
  "(if n \<in> S then 1 else 0 :: 32 word) XOR (if m \<in> T then 1 else 0) = (if (n \<in> S) \<noteq> (m \<in> T) then 1 else 0)"
  by (simp_all add: not_one_eq)

lemma pointwise_op:
  assumes "bm_ok (h p)" "\<And>i. i < bsize (h p) \<Longrightarrow> g (getbit (h q) i) (getbit (h t) i) \<noteq> 0 \<longleftrightarrow> i \<in> S"
  shows "assigns h p S (fold (\<lambda>i h. h(p := setbit (h p) i (g (getbit (h q) i) (getbit (h t) i)))) [0..<bsize (h p)] h)"
  using assms by (intro store_op [where h = h and p = p and r = "\<lambda>i. i" and s = "\<lambda>i. i"]) (auto dest: upto_prefix)

lemma shiftleft_assigns:
  assumes "bm_ok (h p)" "bsize (h p) \<le> 2 ^ 31" "bsize (h q) \<le> 2 ^ 31" "n \<le> 2 ^ 31"
  shows "assigns h p ((+) n ` bits (h q)) (bitmask_shiftleft p q n h)"
proof -
  let ?r = "\<lambda>i. nat ((int i - int n) mod 2 ^ 32)"
  have r: "?r i = (if n \<le> i then i - n else 2 ^ 32 + i - n)" if "i < bsize (h p)" for i
    using left_index [of i n] that assms(2,4) by simp
  have "assigns h p ((+) n ` bits (h q)) (fold (\<lambda>i h. h(p := setbit (h p) i (getbit (h q) (?r i)))) (rev [0..<bsize (h p)]) h)"
  proof (rule store_op [where h = h and p = p and g = "\<lambda>x y. x" and r = ?r and s = "\<lambda>i. i", OF assms(1)])
    fix xs i ys assume l: "rev [0..<bsize (h p)] = xs @ i # ys"
    then have i: "i < bsize (h p)" by (metis atLeastLessThan_iff in_set_conv_decomp set_rev set_upt)
    have "j < bsize (h p)" if "j \<in> set xs" for j using that l by (metis Un_iff atLeastLessThan_iff set_append set_rev set_upt)
    then have "2 ^ 32 + i - n \<notin> set xs" using assms(2,4) by fastforce
    then show "?r i \<notin> set xs \<and> i \<notin> set xs" using downto_prefix [OF l] r [OF i] by simp
  next
    fix i assume i: "i < bsize (h p)"
    have "2 ^ 32 + i - n \<notin> bits (h q)" using assms(3,4) bits_bound [of "2 ^ 32 + i - n" "h q"] by auto
    moreover have "i \<in> (+) n ` bits (h q) \<longleftrightarrow> n \<le> i \<and> i - n \<in> bits (h q)" by (auto simp: image_iff) (metis le_add_diff_inverse)
    ultimately show "getbit (h q) (?r i) \<noteq> 0 \<longleftrightarrow> i \<in> (+) n ` bits (h q)"
      unfolding r [OF i] getbit_bits by simp
  qed auto
  then show ?thesis using assms(2) by (simp add: bitmask_shiftleft_def)
qed

text \<open>C10: Every operation that writes a mask computes the set operation of its name on the sets that the
  masks had before, cut to the size of the target, for masks of any sizes, and also when the target is one of the
  sources; other masks are untouched. Shifts must not leave the
  range of their indices. Setting and clearing bits and ranges does so on the set.\<close>
theorem bitmask_operations:
  assumes "bm_ok (h p)"
  shows "assigns h p (bits (h q)) (bitmask_copy p q h)
    \<and> assigns h p (- bits (h q)) (bitmask_complement p q h)
    \<and> assigns h p (bits (h q) \<inter> bits (h t)) (bitmask_and p q t h)
    \<and> assigns h p (bits (h q) - bits (h t)) (bitmask_andnot p q t h)
    \<and> assigns h p (bits (h q) \<union> bits (h t)) (bitmask_or p q t h)
    \<and> assigns h p (bits (h q) - bits (h t) \<union> (bits (h t) - bits (h q))) (bitmask_eor p q t h)
    \<and> (bsize (h p) + n \<le> 2 ^ 32 \<longrightarrow> assigns h p {i. i + n \<in> bits (h q)} (bitmask_shiftright p q n h))
    \<and> (bsize (h p) \<le> 2 ^ 31 \<and> bsize (h q) \<le> 2 ^ 31 \<and> n \<le> 2 ^ 31 \<longrightarrow>
         assigns h p ((+) n ` bits (h q)) (bitmask_shiftleft p q n h))
    \<and> bits (bitmask_setall (h p)) = {..<bsize (h p)} \<and> bits (bitmask_clearall (h p)) = {}
    \<and> bits (bitmask_setbit (h p) n) = (bits (h p) \<union> {n}) \<inter> {..<bsize (h p)} \<and> bits (bitmask_clearbit (h p) n) = bits (h p) - {n}
    \<and> bits (bitmask_setrange (h p) i j) = bits (h p) \<union> {i..<j} \<inter> {..<bsize (h p)}
    \<and> bits (bitmask_clearrange (h p) i j) = bits (h p) - {i..<j} \<and> bits (bitmask_keeprange (h p) i j) = bits (h p) \<inter> {i..<j}"
proof (intro conjI impI)
  note op = pointwise_op [where h = h and p = p, OF assms]
  show "assigns h p (bits (h q)) (bitmask_copy p q h)"
    unfolding bitmask_copy_def by (rule op [where g = "\<lambda>x y. x"]) (simp add: getbit_bits)
  show "assigns h p (- bits (h q)) (bitmask_complement p q h)"
    unfolding bitmask_complement_def by (rule op [where g = "\<lambda>x y. if x = 0 then 1 else 0"]) (simp add: getbit_bits)
  show "assigns h p (bits (h q) \<inter> bits (h t)) (bitmask_and p q t h)"
    unfolding bitmask_and_def by (rule op) (simp add: getbit_bits)
  show "assigns h p (bits (h q) - bits (h t)) (bitmask_andnot p q t h)"
    unfolding bitmask_andnot_def by (rule op [where g = "\<lambda>x y. x AND NOT y"]) (simp add: getbit_bits)
  show "assigns h p (bits (h q) \<union> bits (h t)) (bitmask_or p q t h)"
    unfolding bitmask_or_def by (rule op) (simp add: getbit_bits)
  show "assigns h p (bits (h q) - bits (h t) \<union> (bits (h t) - bits (h q))) (bitmask_eor p q t h)"
    unfolding bitmask_eor_def by (rule op) (auto simp: getbit_bits)
  show "assigns h p {i. i + n \<in> bits (h q)} (bitmask_shiftright p q n h)" if "bsize (h p) + n \<le> 2 ^ 32"
    unfolding bitmask_shiftright_def
  proof (rule store_op [where h = h and p = p and g = "\<lambda>x y. x" and r = "\<lambda>i. (i + n) mod 2 ^ 32" and s = "\<lambda>i. i", OF assms])
    fix xs i ys assume l: "[0..<bsize (h p)] = xs @ i # ys"
    then have "i < bsize (h p)" by (metis atLeastLessThan_iff in_set_conv_decomp set_upt)
    then show "(i + n) mod 2 ^ 32 \<notin> set xs \<and> i \<notin> set xs" using that upto_prefix [OF l] by simp
  qed (use that in \<open>auto simp: getbit_bits\<close>)
  show "assigns h p ((+) n ` bits (h q)) (bitmask_shiftleft p q n h)"
    if b: "bsize (h p) \<le> 2 ^ 31 \<and> bsize (h q) \<le> 2 ^ 31 \<and> n \<le> 2 ^ 31"
    by (rule shiftleft_assigns [where h = h and p = p, OF assms]) (use b in auto)
  show "bits (bitmask_setbit (h p) n) = (bits (h p) \<union> {n}) \<inter> {..<bsize (h p)}" "bits (bitmask_clearbit (h p) n) = bits (h p) - {n}"
    using bits_setbit [OF assms] bits_bound [of _ "h p"] by (auto simp: bitmask_setbit_def bitmask_clearbit_def)
qed (rule range_bits [OF assms])+

text \<open>A mask shifted onto itself.\<close>

theorem bitmask_operations_witness:
  "bits (bitmask_shiftleft 0 0 3 (\<lambda>p. \<lparr>bsize = 10, maskp = [0x25]\<rparr>) 0) = {3, 5, 8}"
proof -
  have ok: "bm_ok \<lparr>bsize = 10, maskp = [0x25]\<rparr>" by (simp add: bm_ok_def longsperbits_def howmany_def bitsperlong_def)
  have "bit (0x25 :: 64 word) n \<longleftrightarrow> n \<in> {0, 2, 5}" if "n < 10" for n
    using that by (auto simp: less_Suc_eq numeral_eq_Suc)
  then have "bits \<lparr>bsize = 10, maskp = [0x25]\<rparr> = {0, 2, 5}" by (auto simp: bits_def)
  then show ?thesis
    using bitmask_operations [of "\<lambda>p. \<lparr>bsize = 10, maskp = [0x25]\<rparr>" 0 0 0 3] ok by (simp add: assigns_def)
qed

section \<open>Single masks and queries\<close>

text \<open>The elements in order.\<close>

definition elems :: "bitmask \<Rightarrow> nat list" where
  "elems b = filter (\<lambda>i. i \<in> bits b) [0..<bsize b]"

lemma elems_props: "set (elems b) = bits b" "sorted_wrt (<) (elems b)" "length (elems b) = card (bits b)"
proof -
  show s: "set (elems b) = bits b" using bits_bound by (auto simp: elems_def)
  show "sorted_wrt (<) (elems b)" by (simp add: elems_def sorted_wrt_filter)
  have "distinct (elems b)" by (simp add: elems_def)
  then show "length (elems b) = card (bits b)" using s distinct_card by metis
qed

lemma elems_sorted: "sorted_list_of_set (bits b) = elems b"
proof -
  have "finite (bits b)" using bits_subset finite_subset by blast
  then show ?thesis using elems_props [of b] by (metis sorted_list_of_set_unique)
qed

lemma fold_count: "fold (\<lambda>i w. if P i then w + 1 else w) xs w = w + length (filter P xs)" for w :: nat
  by (induction xs arbitrary: w) auto

lemma next_eq: "bitmask_next b n = (if \<exists>m \<ge> n. m \<in> bits b then LEAST m. n \<le> m \<and> m \<in> bits b else max n (bsize b))"
proof (induction b n rule: bitmask_next.induct)
  case (1 b n)
  show ?case
  proof (cases "n < bsize b \<and> n \<notin> bits b")
    case True
    then have "bitmask_next b n = bitmask_next b (n + 1)" by (subst bitmask_next.simps) (simp add: getbit_bits)
    moreover have "n + 1 \<le> m \<and> m \<in> bits b \<longleftrightarrow> n \<le> m \<and> m \<in> bits b" for m using True by (auto simp: Suc_le_eq le_less)
    ultimately show ?thesis using "1.IH" True by (auto simp: getbit_bits max_def)
  next
    case False
    then show ?thesis
    proof (cases "n \<in> bits b")
      case True
      then have "(LEAST m. n \<le> m \<and> m \<in> bits b) = n" by (intro Least_equality) auto
      then show ?thesis using True bits_bound [OF True] by (subst bitmask_next.simps) (auto simp: getbit_bits)
    next
      case n: False
      then have "\<not> n < bsize b" using False by simp
      then show ?thesis using bits_bound [of _ b] by (subst bitmask_next.simps) (force simp: max_def)
    qed
  qed
qed

lemma rel_loop_eq:
  "i \<le> bsize b \<Longrightarrow> rel_loop b n i = (let l = filter (\<lambda>j. j \<in> bits b) [i..<bsize b] in if n < length l then l ! n else bsize b)"
proof (induction b n i rule: rel_loop.induct)
  case (1 b n i)
  show ?case
  proof (cases "i < bsize b")
    case True
    then have "[i..<bsize b] = i # [i + 1..<bsize b]" by (simp add: upt_conv_Cons)
    then show ?thesis using 1 True by (subst rel_loop.simps) (auto simp: getbit_bits Let_def nth_Cons' split: if_splits)
  next
    case False
    then show ?thesis using "1.prems" by (subst rel_loop.simps) simp
  qed
qed

lemma last_eq: "fold (\<lambda>i m. if i \<in> S then i else m) xs m = (let l = filter (\<lambda>i. i \<in> S) xs in if l = [] then m else last l)"
  by (induction xs arbitrary: m) (auto simp: Let_def)

lemma sorted_last_max: "sorted_wrt (<) l \<Longrightarrow> l \<noteq> [] \<Longrightarrow> last l = Max (set l)" for l :: "nat list"
proof -
  assume l: "sorted_wrt (<) l" "l \<noteq> []"
  then obtain m x where "l = m @ [x]" by (metis append_butlast_last_id)
  then show ?thesis using l by (intro Max_eqI [symmetric]) (auto simp: sorted_wrt_append less_imp_le)
qed

text \<open>C30: The queries answer for the set: its cardinality, comparisons, the next, first and last
  element (the size when there is none), and the element with a given rank, to which the rank of an element is inverse.\<close>
theorem bitmask_queries:
  shows "bitmask_weight b = card (bits b)
    \<and> (bitmask_isallset b \<longleftrightarrow> bits b = {..<bsize b}) \<and> (bitmask_isallclear b \<longleftrightarrow> bits b = {})
    \<and> (bitmask_equal b c \<longleftrightarrow> bits b = bits c) \<and> (bitmask_subset b c \<longleftrightarrow> bits b \<subseteq> bits c)
    \<and> (bitmask_disjoint b c \<longleftrightarrow> bits b \<inter> bits c = {}) \<and> (bitmask_intersects b c \<longleftrightarrow> bits b \<inter> bits c \<noteq> {})
    \<and> bitmask_first b = (if bits b = {} then bsize b else Min (bits b))
    \<and> bitmask_last b = (if bits b = {} then bsize b else Max (bits b))
    \<and> bitmask_rel_to_abs_pos b n = (if n < card (bits b) then sorted_list_of_set (bits b) ! n else bsize b)
    \<and> bitmask_abs_to_rel_pos b n = (if n \<in> bits b then card {i \<in> bits b. i < n} else bsize b)"
proof -
  have fin: "finite (bits b)" using bits_subset finite_subset by blast
  note bound = bits_bound [of _ b] bits_bound [of _ c]
  show ?thesis
  proof (intro conjI)
    show "bitmask_weight b = card (bits b)"
      using elems_props(3) [of b] fold_count [of "\<lambda>i. i \<in> bits b" "[0..<bsize b]" 0] by (simp add: bitmask_weight_def getbit_zero elems_def)
    show "bitmask_isallset b \<longleftrightarrow> bits b = {..<bsize b}" "bitmask_isallclear b \<longleftrightarrow> bits b = {}"
      using bound by (auto simp: bitmask_isallset_def bitmask_isallclear_def list_all_iff getbit_bits split: if_splits)
    have "bitmask_equal b c \<longleftrightarrow> (\<forall>i < max (bsize b) (bsize c). i \<in> bits b \<longleftrightarrow> i \<in> bits c)"
      by (simp add: bitmask_equal_def list_all_iff getbit_bits atLeast0LessThan) blast
    then show "bitmask_equal b c \<longleftrightarrow> bits b = bits c"
      using bound by (metis less_max_iff_disj set_eqI)
    show "bitmask_subset b c \<longleftrightarrow> bits b \<subseteq> bits c" "bitmask_disjoint b c \<longleftrightarrow> bits b \<inter> bits c = {}"
      "bitmask_intersects b c \<longleftrightarrow> bits b \<inter> bits c \<noteq> {}"
      using bound by (auto simp: bitmask_subset_def bitmask_disjoint_def bitmask_intersects_def list_all_iff list_ex_iff getbit_bits split: if_splits)
    show "bitmask_first b = (if bits b = {} then bsize b else Min (bits b))"
      using fin by (auto simp: bitmask_first_def next_eq Least_Min)
    show "bitmask_last b = (if bits b = {} then bsize b else Max (bits b))"
      using elems_props [of b] last_eq [of "bits b" "[0..<bsize b]" "bsize b"] sorted_last_max [of "elems b"]
      by (cases "elems b = []") (auto simp: bitmask_last_def getbit_zero Let_def elems_def [symmetric])
    show "bitmask_rel_to_abs_pos b n = (if n < card (bits b) then sorted_list_of_set (bits b) ! n else bsize b)"
      using elems_props(3) [of b] by (simp add: elems_sorted bitmask_rel_to_abs_pos_def rel_loop_eq Let_def elems_def)
    have "length (filter (\<lambda>i. i \<in> bits b) [0..<n]) = card {i \<in> bits b. i < n}"
      by (subst distinct_card [symmetric]) (auto intro!: arg_cong [of _ _ card])
    then show "bitmask_abs_to_rel_pos b n = (if n \<in> bits b then card {i \<in> bits b. i < n} else bsize b)"
      using fold_count [of "\<lambda>i. i \<in> bits b" "[0..<n]" 0] by (simp add: bitmask_abs_to_rel_pos_def getbit_zero)
  qed
qed

section \<open>Lists of ranges\<close>

text \<open>The list format: numbers, ranges, and ranges with a stride, separated by commas.\<close>

datatype item = One nat | Range nat nat | Stride nat nat nat

fun item_text :: "item \<Rightarrow> string" where
  "item_text (One a) = dec_of_nat a"
| "item_text (Range a b) = dec_of_nat a @ ''-'' @ dec_of_nat b"
| "item_text (Stride a b s) = dec_of_nat a @ ''-'' @ dec_of_nat b @ '':'' @ dec_of_nat s"

fun item_range :: "item \<Rightarrow> nat \<times> nat \<times> nat" where
  "item_range (One a) = (a, a, 1)"
| "item_range (Range a b) = (a, b, 1)"
| "item_range (Stride a b s) = (a, b, s)"

definition item_ok :: "nat \<Rightarrow> item \<Rightarrow> bool" where
  "item_ok n i = (case item_range i of (a, b, s) \<Rightarrow> a \<le> b \<and> b < n \<and> s \<le> 2 ^ 31)"

definition stride :: "item \<Rightarrow> nat" where
  "stride i = snd (snd (item_range i))"

definition item_set :: "item \<Rightarrow> nat set" where
  "item_set i = (case item_range i of (a, b, s) \<Rightarrow> {x. a \<le> x \<and> x \<le> b \<and> s dvd x - a})"

fun list_text :: "item list \<Rightarrow> string" where
  "list_text [] = []"
| "list_text [i] = item_text i"
| "list_text (i # is) = item_text i @ CHR '','' # list_text is"

lemma nexttoken_simps: "nexttoken [] sep = None" "nexttoken (c # s) sep = (if c = sep then Some s else nexttoken s sep)"
  "sep \<notin> set u \<Longrightarrow> nexttoken (u @ s) sep = nexttoken s sep"
  by (auto simp: nexttoken_def dropWhile_append1 dropWhile_append2 dropWhile_append3 dropWhile_append split: list.splits)

lemma nexttoken_none: "sep \<notin> set u \<Longrightarrow> nexttoken u sep = None"
  using nexttoken_simps(3) [of sep u "[]"] by (simp add: nexttoken_simps(1))

lemma dec_no_sep: "CHR '','' \<notin> set (dec_of_nat n)" "CHR ''-'' \<notin> set (dec_of_nat n)" "CHR '':'' \<notin> set (dec_of_nat n)"
proof -
  have "\<forall>c \<in> set (dec_of_nat n). isdigit c" using dec_of_nat_digits [of n] by (simp add: list_all_iff)
  moreover have "\<not> isdigit (CHR '','')" "\<not> isdigit (CHR ''-'')" "\<not> isdigit (CHR '':'')" by (simp_all add: isdigit_def char_between_def)
  ultimately show "CHR '','' \<notin> set (dec_of_nat n)" "CHR ''-'' \<notin> set (dec_of_nat n)" "CHR '':'' \<notin> set (dec_of_nat n)" by blast+
qed

lemma strtoul_number:
  assumes "\<not> isdigit (deref rest)" "n < 2 ^ 32"
  shows "strtoul (dec_of_nat n @ rest) = (int n, rest)"
  using assms(2) number_split [OF assms(1)] by (simp add: strtoul_def Let_def dec_val_dec_of_nat)

lemma scan_uc_number:
  assumes "\<not> isdigit (deref rest)" "n < 2 ^ 32"
  shows "scan_uc (dec_of_nat n @ rest) = (case rest of [] \<Rightarrow> (1, n, NUL) | c # _ \<Rightarrow> (2, n, c))"
proof -
  obtain c cs where c: "dec_of_nat n = c # cs" by (cases "dec_of_nat n") auto
  have "isdigit c" using dec_of_nat_digits [of n] by (simp add: c)
  then have "dropWhile isspace (dec_of_nat n @ rest) \<noteq> []" using digit_facts [of c] by (simp add: c)
  moreover have "nat (c_uint (int n)) = n" using assms(2) by (simp add: c_uint_id)
  ultimately show ?thesis using strtoul_number [OF assms]
    by (cases rest) (auto simp: scan_uc_def not_sym [OF dec_of_nat_ne] simp del: dropWhile_eq_Nil_conv)
qed

lemma scan_range_item:
  assumes "item_ok n i" "n \<le> 2 ^ 31" "rest = [] \<or> rest = CHR '','' # r"
  shows "scan_range (item_text i @ rest) = Some (item_range i)"
proof -
  have nd: "\<not> isdigit (deref rest)" "\<not> isdigit (CHR ''-'')" "\<not> isdigit (CHR '':'')"
    using assms(3) by (auto simp: isdigit_def char_between_def)
  have far: "\<not> before (nexttoken rest c) (nexttoken rest (CHR '',''))" if "c \<noteq> CHR '',''" for c
    using assms(3) that nexttoken_shorter [of r c] by (auto simp: nexttoken_simps before_def split: option.splits)
  have near: "before (Some (u @ rest)) (nexttoken rest (CHR '',''))" for u
    using assms(3) by (auto simp: nexttoken_simps before_def)
  note tok = dec_no_sep nexttoken_simps nexttoken_none
  show ?thesis
  proof (cases i)
    case (One a)
    then show ?thesis using assms nd far [of "CHR ''-''"] scan_uc_number [of rest a]
      by (auto simp: scan_range_def item_ok_def tok scan_was_ok_def Let_def)
  next
    case (Range a b)
    then show ?thesis using assms nd far [of "CHR '':''"] near [of "dec_of_nat b"] scan_uc_number [of "CHR ''-'' # dec_of_nat b @ rest" a] scan_uc_number [of rest b]
      by (auto simp: scan_range_def item_ok_def tok scan_was_ok_def Let_def)
  next
    case (Stride a b s)
    then show ?thesis using assms nd near [of "dec_of_nat b @ CHR '':'' # dec_of_nat s"] near [of "dec_of_nat s"]
        scan_uc_number [of "CHR ''-'' # dec_of_nat b @ CHR '':'' # dec_of_nat s @ rest" a]
        scan_uc_number [of "CHR '':'' # dec_of_nat s @ rest" b] scan_uc_number [of rest s]
      by (auto simp: scan_range_def item_ok_def tok scan_was_ok_def Let_def)
  qed
qed

lemma stride_hangs: "a \<le> b \<Longrightarrow> a < 2 ^ 32 \<Longrightarrow> stride_loop a b 0 bmp = None"
proof (rule ccontr)
  assume a: "a \<le> b" "a < 2 ^ 32" and "stride_loop a b 0 bmp \<noteq> None"
  then obtain y where "stride_loop a b 0 bmp = Some y" by auto
  then have "a \<le> b \<longrightarrow> a < 2 ^ 32 \<longrightarrow> (0 :: nat) \<noteq> 0"
  proof (rule stride_loop.raw_induct [where P = "\<lambda>a b s _ _. a \<le> b \<longrightarrow> a < 2 ^ 32 \<longrightarrow> s \<noteq> 0", rotated])
    fix f a b s bmp y
    assume "\<And>a b s bmp y. f a b s bmp = Some y \<Longrightarrow> a \<le> b \<longrightarrow> a < 2 ^ 32 \<longrightarrow> s \<noteq> 0"
      and "(if a \<le> b then f ((a + s) mod 2 ^ 32) b s (setbit bmp a 1) else Some bmp) = Some y"
    from this(1) [of "(a + s) mod 2 ^ 32" b s "setbit bmp a 1" y] this(2)
    show "a \<le> b \<longrightarrow> a < 2 ^ 32 \<longrightarrow> s \<noteq> 0" by auto
  qed
  with a show False by simp
qed

lemma stride_step: "0 < s \<Longrightarrow> a \<le> x \<and> s dvd x - a \<longleftrightarrow> x = a \<or> a + s \<le> x \<and> s dvd x - (a + s)" for a s x :: nat
proof -
  assume s: "0 < s"
  show ?thesis
  proof
    assume x: "a \<le> x \<and> s dvd x - a"
    show "x = a \<or> a + s \<le> x \<and> s dvd x - (a + s)"
    proof (cases "x = a")
      case False
      then have "s \<le> x - a" using x by (intro dvd_imp_le) auto
      then have "x - a = x - (a + s) + s" by simp
      then show ?thesis using x \<open>s \<le> x - a\<close> False by (metis dvd_add_triv_right_iff le_diff_conv2 add.commute)
    qed simp
  next
    assume "x = a \<or> a + s \<le> x \<and> s dvd x - (a + s)"
    then show "a \<le> x \<and> s dvd x - a"
      by (metis add.commute add_leD1 diff_diff_left dvd_0_right dvd_diffD diff_self_eq_0 dvd_refl le_diff_conv2 order_refl)
  qed
qed

lemma stride_sets:
  assumes "bm_ok bmp" "b < bsize bmp" "b < 2 ^ 31" "0 < s" "s \<le> 2 ^ 31"
  shows "\<exists>bmp'. stride_loop a b s bmp = Some bmp' \<and> bm_ok bmp' \<and> bsize bmp' = bsize bmp
    \<and> bits bmp' = bits bmp \<union> {x. a \<le> x \<and> x \<le> b \<and> s dvd x - a}"
  using assms(1,2)
proof (induction "Suc b - a" arbitrary: a bmp rule: less_induct)
  case less
  show ?case
  proof (cases "a \<le> b")
    case True
    have m: "(a + s) mod 4294967296 = a + s" "Suc b - (a + s) < Suc b - a" using True assms(3-5) by simp_all
    have "{x. a \<le> x \<and> x \<le> b \<and> s dvd x - a} = insert a {x. a + s \<le> x \<and> x \<le> b \<and> s dvd x - (a + s)}"
      using True stride_step [OF assms(4)] by blast
    then show ?thesis
      using less.hyps [of "a + s" "setbit bmp a 1"] True assms(4) less.prems bits_setbit [OF less.prems(1), of a 1]
      by (subst stride_loop.simps) (simp add: m)
  next
    case False
    then show ?thesis using less.prems by (subst stride_loop.simps) auto
  qed
qed

lemma item_token: "nexttoken (item_text i @ CHR '','' # r) (CHR '','') = Some r" "nexttoken (item_text i) (CHR '','') = None"
  using dec_no_sep(1) by (cases i; simp add: nexttoken_simps nexttoken_none)+

lemma parselist_step:
  assumes "item_ok (bsize bmp) i" "bsize bmp \<le> 2 ^ 31" "bm_ok bmp" "rest = [] \<or> rest = CHR '','' # r"
  shows "stride i = 0 \<Longrightarrow> parselist_loop (item_text i @ rest) bmp = None"
    and "0 < stride i \<Longrightarrow> \<exists>bmp'. parselist_loop (item_text i @ rest) bmp = (if rest = [] then Some (False, bmp') else parselist_loop r bmp')
      \<and> bm_ok bmp' \<and> bsize bmp' = bsize bmp \<and> bits bmp' = bits bmp \<union> item_set i"
proof -
  obtain a b s where i: "item_range i = (a, b, s)" by (cases "item_range i")
  have ok: "a \<le> b" "b < bsize bmp" "s \<le> 2 ^ 31" using assms(1) by (simp_all add: item_ok_def i)
  have b: "b < 2 ^ 31" using ok(2) assms(2) by (rule less_le_trans)
  have "scan_range (item_text i @ rest) = Some (a, b, s)" using scan_range_item [OF assms(1,2,4)] i by simp
  then have p: "parselist_loop (item_text i @ rest) bmp = (case stride_loop a b s bmp of None \<Rightarrow> None
    | Some bmp \<Rightarrow> if rest = [] then Some (False, bmp) else parselist_loop r bmp)"
    using ok assms(4) item_token [of i] by (subst parselist_loop.simps) (auto split: option.splits)
  show "parselist_loop (item_text i @ rest) bmp = None" if "stride i = 0"
    using stride_hangs [of a b bmp] ok(1) b that by (simp add: p stride_def i)
  show "\<exists>bmp'. parselist_loop (item_text i @ rest) bmp = (if rest = [] then Some (False, bmp') else parselist_loop r bmp')
      \<and> bm_ok bmp' \<and> bsize bmp' = bsize bmp \<and> bits bmp' = bits bmp \<union> item_set i" if "0 < stride i"
    using stride_sets [OF assms(3) ok(2) b _ ok(3), of a] that by (auto simp: p stride_def item_set_def i)
qed

lemma parselist_items:
  assumes "is \<noteq> []" "\<forall>i \<in> set is. item_ok (bsize bmp) i" "bsize bmp \<le> 2 ^ 31" "bm_ok bmp"
  shows "if \<exists>i \<in> set is. stride i = 0 then parselist_loop (list_text is) bmp = None
    else \<exists>bmp'. parselist_loop (list_text is) bmp = Some (False, bmp') \<and> bm_ok bmp' \<and> bsize bmp' = bsize bmp
      \<and> bits bmp' = bits bmp \<union> \<Union> (item_set ` set is)"
  using assms
proof (induction "is" arbitrary: bmp rule: list_text.induct)
  case (2 i)
  then show ?case using parselist_step [of bmp i "[]"] by (cases "stride i = 0") auto
next
  case (3 i j js)
  let ?l = "list_text (j # js)"
  have ok: "item_ok (bsize bmp) i" using "3.prems"(2) by simp
  note step = parselist_step [OF ok "3.prems"(3,4), of "CHR '','' # ?l" ?l]
  show ?case
  proof (cases "stride i = 0")
    case True
    then show ?thesis using step(1) by simp
  next
    case False
    then obtain bmp1 where p: "parselist_loop (list_text (i # j # js)) bmp = parselist_loop ?l bmp1"
      and f: "bm_ok bmp1" "bsize bmp1 = bsize bmp" "bits bmp1 = bits bmp \<union> item_set i"
      using step(2) by auto
    have "if \<exists>i \<in> set (j # js). stride i = 0 then parselist_loop ?l bmp1 = None
      else \<exists>bmp'. parselist_loop ?l bmp1 = Some (False, bmp') \<and> bm_ok bmp' \<and> bsize bmp' = bsize bmp1
        \<and> bits bmp' = bits bmp1 \<union> \<Union> (item_set ` set (j # js))"
      by (rule "3.IH") (use "3.prems" f in simp_all)
    moreover have "(\<exists>i \<in> set (i # j # js). stride i = 0) \<longleftrightarrow> (\<exists>i \<in> set (j # js). stride i = 0)" using False by simp
    moreover have "\<Union> (item_set ` set (i # j # js)) = item_set i \<union> \<Union> (item_set ` set (j # js))" by simp
    ultimately show ?thesis unfolding p f(2,3) by (metis Un_assoc)
  qed
qed simp

section \<open>Printing a list\<close>

lemma snprintf_append:
  "0 < l \<Longrightarrow> snprintf_at (take (nat l - 1) t) l (length t) s = take (nat l - 1) (t @ s)"
  by (auto simp: snprintf_at_def Let_def min_def nat_diff_distrib diff_right_commute max_def)

text \<open>The maximal runs of consecutive numbers in an ascending list that begins with \<open>a .. b\<close>.\<close>

definition run :: "nat \<Rightarrow> nat \<Rightarrow> item" where
  "run a b = (if a = b then One a else Range a b)"

fun runs :: "nat \<Rightarrow> nat \<Rightarrow> nat list \<Rightarrow> item list" where
  "runs a b [] = [run a b]"
| "runs a b (x # xs) = (if x = b + 1 then runs a x xs else run a b # runs x x xs)"

definition list_items :: "nat list \<Rightarrow> item list" where
  "list_items xs = (case xs of [] \<Rightarrow> [] | x # xs \<Rightarrow> runs x x xs)"

definition add_item :: "string \<Rightarrow> item \<Rightarrow> string" where
  "add_item t i = (if t = [] then [] else t @ '','') @ item_text i"

lemma item_text_ne: "item_text i \<noteq> []"
  by (cases i) simp_all

lemma add_items: "foldl add_item t is = (if is = [] then t else (if t = [] then [] else t @ '','') @ list_text is)"
proof (induction "is" arbitrary: t rule: list_text.induct)
  case (3 i j js)
  have "add_item t i \<noteq> []" "add_item t i = (if t = [] then [] else t @ '','') @ item_text i"
    using item_text_ne [of i] by (simp_all add: add_item_def)
  then show ?case using "3.IH" [of "add_item t i"] by simp
qed (simp_all add: add_item_def)

lemma emit_eq:
  assumes "0 < l" "a < 2 ^ 31" "b < 2 ^ 31"
  shows "emit (take (nat l - 1) t) l a b (length t) = (take (nat l - 1) (add_item t (run a b)), length (add_item t (run a b)))"
proof -
  have "dec_of_int (c_int (int x)) = dec_of_nat x" if "x < 2 ^ 31" for x
    using that by (simp add: c_int_id dec_of_int_def)
  then show ?thesis
    using assms snprintf_append [OF assms(1), of t "'',''"] snprintf_append [OF assms(1), of "t @ '',''" "item_text (run a b)"]
      snprintf_append [OF assms(1), of "[]" "item_text (run a b)"]
    by (auto simp: emit_def add_item_def run_def Let_def simp del: take_append)
qed

lemma next_elems:
  "filter (\<lambda>i. i \<in> bits b) [n..<bsize b] =
     (let m = bitmask_next b n in if m < bsize b then m # filter (\<lambda>i. i \<in> bits b) [Suc m..<bsize b] else [])"
proof (induction b n rule: bitmask_next.induct)
  case (1 b n)
  show ?case
  proof (cases "n < bsize b")
    case True
    then have "[n..<bsize b] = n # [n + 1..<bsize b]" by (simp add: upt_conv_Cons)
    then show ?thesis using 1 True bitmask_next.simps [of b n] by (simp add: getbit_bits Let_def split: if_splits)
  next
    case False
    then show ?thesis by (subst bitmask_next.simps) simp
  qed
qed

lemma displaylist_runs:
  assumes "bsize b \<le> 2 ^ 31" "0 < l" "rbot \<le> cur" "cur < bsize b"
  shows "displaylist_loop b l rbot cur (take (nat l - 1) t) (length t) =
    (let u = foldl add_item t (runs rbot cur (filter (\<lambda>i. i \<in> bits b) [Suc cur..<bsize b])) in (take (nat l - 1) u, length u))"
  using assms(3,4)
proof (induction "bsize b - cur" arbitrary: cur rbot t rule: less_induct)
  case less
  let ?m = "bitmask_next b (Suc cur)" and ?fl = "\<lambda>n. filter (\<lambda>i. i \<in> bits b) [n..<bsize b]"
  have ge: "Suc cur \<le> ?m" by (rule bitmask_next_ge)
  have e: "emit (take (nat l - 1) t) l rbot cur (length t) = (take (nat l - 1) (add_item t (run rbot cur)), length (add_item t (run rbot cur)))"
    using less.prems assms by (intro emit_eq) auto
  have fl: "?fl (Suc cur) = (if ?m < bsize b then ?m # ?fl (Suc ?m) else [])" using next_elems [of b "Suc cur"] by (simp add: Let_def)
  show ?case
  proof (cases "?m < bsize b")
    case False
    then show ?thesis using less.prems e fl by (subst displaylist_loop.simps) (simp add: displaylist_loop.simps [of _ _ ?m] Let_def)
  next
    case True
    then show ?thesis using less.prems ge e fl less.hyps [of ?m rbot t] less.hyps [of ?m ?m "add_item t (run rbot cur)"]
      by (subst displaylist_loop.simps) (auto simp: Let_def)
  qed
qed

lemma displaylist_eq:
  assumes "bsize b \<le> 2 ^ 31" "0 < l"
  shows "bitmask_displaylist buf0 l b = (take (nat l - 1) (list_text (list_items (elems b))), length (list_text (list_items (elems b))))"
proof (cases "bitmask_first b < bsize b")
  case True
  then show ?thesis
    using displaylist_runs [OF assms, of "bitmask_first b" "bitmask_first b" "[]"] next_elems [of b 0] add_items [of "[]"] assms
    by (simp add: bitmask_displaylist_def bitmask_first_def elems_def list_items_def Let_def)
next
  case False
  then show ?thesis
    using next_elems [of b 0] assms
    by (simp add: bitmask_displaylist_def bitmask_first_def elems_def list_items_def Let_def displaylist_loop.simps)
qed

lemma runs_items:
  "a \<le> b \<Longrightarrow> sorted_wrt (<) (b # xs) \<Longrightarrow> \<forall>x \<in> set (b # xs). x < n \<Longrightarrow>
    \<Union> (item_set ` set (runs a b xs)) = {a..b} \<union> set xs \<and> (\<forall>i \<in> set (runs a b xs). item_ok n i \<and> stride i = 1)"
proof (induction a b xs rule: runs.induct)
  case (1 a b)
  then show ?case by (auto simp: run_def item_set_def item_ok_def stride_def)
next
  case (2 a b x xs)
  have r: "item_set (run a b) = {a..b}" "item_ok n (run a b) \<and> stride (run a b) = 1"
    using "2.prems" by (auto simp: run_def item_set_def item_ok_def stride_def)
  show ?case
  proof (cases "x = b + 1")
    case True
    then have "{a..x} = insert x {a..b}" using "2.prems"(1) by (auto simp: le_Suc_eq)
    then show ?thesis using "2.IH"(1) [OF True] "2.prems" True by auto
  next
    case False
    then show ?thesis using "2.IH"(2) [OF False] "2.prems" r by auto
  qed
qed

lemma elems_items:
  "\<Union> (item_set ` set (list_items (elems b))) = bits b" "\<forall>i \<in> set (list_items (elems b)). item_ok (bsize b) i \<and> stride i = 1"
  "list_items (elems b) = [] \<longleftrightarrow> bits b = {}"
proof -
  have ne: "runs a b xs \<noteq> []" for a b xs by (induction a b xs rule: runs.induct) auto
  have "\<Union> (item_set ` set (list_items (elems b))) = set (elems b) \<and> (\<forall>i \<in> set (list_items (elems b)). item_ok (bsize b) i \<and> stride i = 1)"
  proof (cases "elems b")
    case (Cons x xs)
    then show ?thesis using runs_items [of x x xs "bsize b"] elems_props [of b] bits_bound by (simp add: list_items_def) fastforce
  qed (simp add: list_items_def)
  then show "\<Union> (item_set ` set (list_items (elems b))) = bits b" "\<forall>i \<in> set (list_items (elems b)). item_ok (bsize b) i \<and> stride i = 1"
    by (simp_all add: elems_props)
  show "list_items (elems b) = [] \<longleftrightarrow> bits b = {}"
    using elems_props(1) [of b] ne by (cases "elems b") (auto simp: list_items_def)
qed

text \<open>C18: For a nonempty list of numbers, ranges and ranges with strides that fit into the mask, \<open>bitmask_parselist\<close>
  returns 0 and the mask is the union of the ranges, whatever it was before. When one of
  the strides is 0, it does not return.\<close>
theorem bitmask_parselist_correct:
  assumes "is \<noteq> []" "\<forall>i \<in> set is. item_ok (bsize b) i" "bsize b \<le> 2 ^ 31" "bm_ok b"
  shows "if \<exists>i \<in> set is. stride i = 0 then bitmask_parselist (list_text is) b = None
    else \<exists>b'. bitmask_parselist (list_text is) b = Some (0, b') \<and> bm_ok b' \<and> bsize b' = bsize b
      \<and> bits b' = \<Union> (item_set ` set is)"
proof -
  note c = clearall_fields [OF assms(4)] range_bits(2) [OF assms(4)]
  show ?thesis using parselist_items [of "is" "bitmask_clearall b"] assms c by (auto simp: bitmask_parselist_def split: if_splits)
qed

text \<open>The example \<open>0-3:2,8-15:4\<close> of the source, and a list that keeps the parser busy forever.\<close>

theorem bitmask_parselist_correct_witness:
  "(\<exists>b'. bitmask_parselist ''0-3:2,8-15:4'' \<lparr>bsize = 16, maskp = [0]\<rparr> = Some (0, b') \<and> bits b' = {0, 2, 8, 12})
    \<and> bitmask_parselist ''7,0-3:0'' \<lparr>bsize = 16, maskp = [0]\<rparr> = None"
proof -
  have t: "list_text [Stride 0 3 2, Stride 8 15 4] = ''0-3:2,8-15:4''" "list_text [One 7, Stride 0 3 0] = ''7,0-3:0''" by code_simp+
  have ok: "bm_ok \<lparr>bsize = 16, maskp = [0]\<rparr>" by (simp add: bm_ok_def longsperbits_def howmany_def bitsperlong_def)
  have "x \<le> 3 \<and> 2 dvd x \<longleftrightarrow> x \<in> {0, 2}" "8 \<le> x \<and> x \<le> 15 \<and> 4 dvd x - 8 \<longleftrightarrow> x \<in> {8, 12}" for x :: nat
    unfolding insert_iff empty_iff by presburger+
  then show ?thesis
    using bitmask_parselist_correct [of "[Stride 0 3 2, Stride 8 15 4]" "\<lparr>bsize = 16, maskp = [0]\<rparr>"]
      bitmask_parselist_correct [of "[One 7, Stride 0 3 0]" "\<lparr>bsize = 16, maskp = [0]\<rparr>"] ok
    unfolding t by (auto simp: item_ok_def stride_def item_set_def)
qed

text \<open>C16: \<open>bitmask_displaylist\<close> prints the maximal runs of consecutive elements in ascending order, cut to the
  buffer, and returns the length of the whole text. Unless it is cut, \<open>bitmask_parselist\<close> reads it back to the same
  set. The text of the empty set is empty, which \<open>bitmask_parselist\<close> does not accept.\<close>
theorem bitmask_list_roundtrip:
  assumes "bsize b \<le> 2 ^ 31" "0 < l" "bm_ok c" "bsize c = bsize b"
  shows "(let t = list_text (list_items (sorted_list_of_set (bits b))) in
      bitmask_displaylist buf0 l b = (take (nat l - 1) t, length t))
    \<and> (case bitmask_displaylist buf0 l b of (t, n) \<Rightarrow> int n < l \<longrightarrow>
        (\<exists>c'. bitmask_parselist t c = Some (if bits b = {} then -1 else 0, c') \<and> bits c' = bits b))"
proof (cases "bits b = {}")
  case True
  have "scan_range [] = None" by (simp add: scan_range_def scan_uc_def scan_was_ok_def)
  then have "\<exists>c'. bitmask_parselist [] c = Some (-1, c') \<and> bits c' = {}"
    using clearall_fields [OF assms(3)] range_bits(2) [of "bitmask_clearall c"] by (simp add: bitmask_parselist_def parselist_loop.simps)
  moreover have "list_items (elems b) = []" using True elems_items(3) by simp
  ultimately show ?thesis using displaylist_eq [OF assms(1,2)] True by (simp add: list_items_def Let_def)
next
  case False
  let ?is = "list_items (elems b)"
  have "\<exists>c'. bitmask_parselist (list_text ?is) c = Some (0, c') \<and> bits c' = bits b"
    using parselist_items [of ?is "bitmask_clearall c"] elems_items [of b] False assms clearall_fields [OF assms(3)] range_bits(2) [OF assms(3)]
    by (auto simp: bitmask_parselist_def split: if_splits)
  moreover have "int (length (list_text ?is)) < l \<Longrightarrow> take (nat l - 1) (list_text ?is) = list_text ?is" by simp
  ultimately show ?thesis using displaylist_eq [OF assms(1,2)] False by (simp add: elems_sorted [symmetric] Let_def)
qed

theorem bitmask_list_roundtrip_witness:
  "bitmask_displaylist [] 64 \<lparr>bsize = 10, maskp = [0x1A7]\<rparr> = (''0-2,5,7-8'', 9)
    \<and> (\<exists>c'. bitmask_parselist ''0-2,5,7-8'' \<lparr>bsize = 10, maskp = [0]\<rparr> = Some (0, c') \<and> bits c' = {0, 1, 2, 5, 7, 8})"
proof -
  let ?b = "\<lparr>bsize = 10, maskp = [0x1A7]\<rparr>"
  have ok: "bm_ok \<lparr>bsize = 10, maskp = [0]\<rparr>" by (simp add: bm_ok_def longsperbits_def howmany_def bitsperlong_def)
  have "bit (0x1A7 :: 64 word) n \<longleftrightarrow> n \<in> {0, 1, 2, 5, 7, 8}" if "n < 10" for n
    using that by (auto simp: less_Suc_eq numeral_eq_Suc)
  then have b: "bits ?b = {0, 1, 2, 5, 7, 8}" by (auto simp: bits_def)
  have "list_text (list_items [0, 1, 2, 5, 7, 8]) = ''0-2,5,7-8''" by code_simp
  then show ?thesis using bitmask_list_roundtrip [of ?b 64 "\<lparr>bsize = 10, maskp = [0]\<rparr>" "[]"] ok by (auto simp: b Let_def)
qed

section \<open>Hexadecimal words\<close>

lemma fold_chunk:
  "n \<le> 32 \<Longrightarrow> bit (fold (\<lambda>b val. push_bit 1 val OR getbit bmp (k + b)) (rev [0..<n]) v) i \<longleftrightarrow>
     i < 32 \<and> (if i < n then k + i \<in> bits bmp else bit v (i - n))"
proof (induction n arbitrary: v)
  case 0
  then show ?case using bit_imp_le_length [of v i] by auto
next
  case (Suc n)
  have "bit (push_bit 1 v OR getbit bmp (k + n)) (i - n) \<longleftrightarrow> (if i - n = 0 then k + n \<in> bits bmp else i - n < 32 \<and> bit v (i - n - 1))"
    unfolding bit_or_iff bit_push_bit_iff by (auto simp: getbit_bits bit_1_iff)
  then show ?case using Suc by (auto simp: less_Suc_eq not_less_eq)
qed

lemma bit_chunk_value: "bit (chunk_value bmp c) i \<longleftrightarrow> i < 32 \<and> c * 32 + i \<in> bits bmp"
  using fold_chunk [of 32 bmp "c * 32" 0 i] by (auto simp: chunk_value_def HEXCHUNKSZ_def)

lemma of_char_hex_char: "d < 16 \<Longrightarrow> of_char (hex_char d) = (if d < 10 then 48 + d else 87 + d :: nat)"
  by (auto simp: hex_char_def of_char_of)

lemma hex_char_digit: "d < 16 \<Longrightarrow> hex_digit (hex_char d) = Some (int d)"
proof -
  assume d: "d < 16"
  have "int (of_char (hex_char d)) = int (if d < 10 then 48 + d else 87 + d)" by (simp only: of_char_hex_char [OF d])
  then have "of_char (hex_char d) = int (if d < 10 then 48 + d else 87 + d)" by (simp only: of_nat_of_char)
  then show ?thesis using d
    by (auto simp: hex_digit_def isdigit_def char_between_def digit_val_def of_char_hex_char)
qed

lemma nibble: "unat (drop_bit (4 * k) w AND 0xF) = unat w div 16 ^ k mod 16" for w :: "32 word"
proof -
  have "drop_bit (4 * k) w AND 0xF = take_bit 4 (drop_bit (4 * k) w)" using take_bit_eq_mask [of 4 "drop_bit (4 * k) w"] by (simp add: mask_eq_exp_minus_1)
  moreover have "unat w < 2 ^ 32" using unsigned_less [of w] by simp
  then have "unat (take_bit 4 (drop_bit (4 * k) w)) = take_bit 4 (drop_bit (4 * k) (unat w))"
    unfolding unsigned_take_bit_eq unsigned_drop_bit_eq by (simp add: take_bit_eq_mod)
  ultimately show ?thesis by (simp add: take_bit_eq_mod drop_bit_eq_div power_mult del: drop_bit_of_0)
qed

lemma hex_value:
  "foldl (\<lambda>v c. v * 16 + the (hex_digit c)) v (map (\<lambda>k. hex_char (x div 16 ^ k mod 16)) (rev [0..<n])) =
     v * 16 ^ n + int (x mod 16 ^ n)"
proof (induction n arbitrary: v)
  case (Suc n)
  have "x mod 16 ^ Suc n = (x div 16 ^ n mod 16) * 16 ^ n + x mod 16 ^ n"
    using mod_mult2_eq [of x "16 ^ n" 16] by (simp add: mult.commute)
  then show ?case using Suc by (simp add: hex_char_digit algebra_simps)
qed simp

definition hex_digits :: "nat \<Rightarrow> string" where
  "hex_digits x = map (\<lambda>k. hex_char (x div 16 ^ k mod 16)) (rev [0..<8])"

lemma hex_text_eq: "hex_text w = hex_digits (unat w)"
  by (simp add: hex_text_def hex_digits_def nibble HEXCHARSZ_def)

lemma hex_text_digits: "length (hex_text w) = 8" "\<forall>c \<in> set (hex_text w). \<exists>d < 16. c = hex_char d"
  by (auto simp: hex_text_eq hex_digits_def intro!: exI [of _ "_ mod 16"])

lemma hex_char_facts: "d < 16 \<Longrightarrow> \<not> isspace (hex_char d) \<and> hex_char d \<notin> {CHR ''-'', CHR ''+'', CHR '','', CHR ''x'', CHR ''X''}"
  using of_char_hex_char [of d] by (auto simp: isspace_def char_between_def split: if_splits)

lemma strtoul16_hex:
  assumes "hex_digit (deref rest) = None"
  shows "strtoul16 (hex_text w @ rest) = (uint w, rest)"
proof -
  obtain x y s where s: "hex_text w = x # y # s" 
    using hex_text_digits(1) [of w] by (cases "hex_text w"; cases "tl (hex_text w)") auto
  have d: "\<exists>d < 16. x = hex_char d" "\<exists>d < 16. y = hex_char d" using hex_text_digits(2) [of w] by (auto simp: s)
  then have "sign_digits (hex_text w @ rest) = (False, hex_text w @ rest)" "hex_prefix (hex_text w @ rest) = hex_text w @ rest"
    using hex_char_facts by (auto simp: sign_digits_def hex_prefix_def s)
  moreover have "takeWhile (\<lambda>c. hex_digit c \<noteq> None) (hex_text w @ rest) = hex_text w"
    using hex_text_digits(2) [of w] assms hex_char_digit by (subst takeWhile_append2) (auto simp: deref_def split: list.splits)
  moreover have uw: "unat w < 2 ^ 32" using unsigned_less [of w] by simp
  moreover have "foldl (\<lambda>v c. v * 16 + the (hex_digit c)) 0 (hex_text w) = uint w"
    using hex_value [of 0 "unat w" 8] uw by (simp add: hex_text_eq hex_digits_def)
  ultimately show ?thesis using uint_lt2p [of w] by (simp add: strtoul16_def s Let_def)
qed

fun hex_list :: "32 word list \<Rightarrow> string" where
  "hex_list [] = []"
| "hex_list [w] = hex_text w"
| "hex_list (w # ws) = hex_text w @ CHR '','' # hex_list ws"

lemma hex_token: "nexttoken (hex_text w @ CHR '','' # r) (CHR '','') = Some r" "nexttoken (hex_text w) (CHR '','') = None"
proof -
  have "CHR '','' \<notin> set (hex_text w)" using hex_text_digits(2) [of w] hex_char_facts by fastforce
  then show "nexttoken (hex_text w @ CHR '','' # r) (CHR '','') = Some r" "nexttoken (hex_text w) (CHR '','') = None"
    by (simp_all add: nexttoken_simps nexttoken_none)
qed

lemma displayhex_chunks:
  "0 < l \<Longrightarrow> displayhex_loop b l cs sep (take (nat l - 1) t) (length t) =
    (let u = (if cs = [] then t else t @ sep @ hex_list (map (chunk_value b) cs)) in (take (nat l - 1) u, length u))"
proof (induction cs arbitrary: sep t)
  case (Cons c cs)
  let ?s = "sep @ hex_text (chunk_value b c)"
  have "displayhex_loop b l (c # cs) sep (take (nat l - 1) t) (length t) = displayhex_loop b l cs '','' (take (nat l - 1) (t @ ?s)) (length (t @ ?s))"
    using snprintf_append [OF Cons.prems, of t ?s] by (simp add: Let_def del: take_append)
  then show ?case using Cons.IH [OF Cons.prems, of "'',''" "t @ ?s"] by (cases cs) (simp_all add: Let_def del: take_append)
qed simp

lemma count_hex: "ws \<noteq> [] \<Longrightarrow> count_tokens (hex_list ws) = length ws"
proof (induction ws rule: hex_list.induct)
  case (3 w v vs)
  then show ?case by (subst count_tokens.simps) (simp add: hex_token)
qed (simp_all add: count_tokens.simps hex_token)

lemma set_chunk_bits:
  assumes "bm_ok b" "\<forall>i \<in> set is. i < 32" "chunk * 32 + 32 \<le> sz" "sz \<le> 2 ^ 32"
  shows "\<exists>b'. set_chunk sz v chunk is b = (False, b') \<and> bm_ok b' \<and> bsize b' = bsize b
    \<and> bits b' = {n. n < bsize b \<and> (if n div 32 = chunk \<and> n mod 32 \<in> set is then bit v (n mod 32) else n \<in> bits b)}"
  using assms
proof (induction "is" arbitrary: b)
  case Nil
  then show ?case using bits_bound by auto
next
  case (Cons i "is")
  let ?n = "chunk * 32 + i" and ?v = "drop_bit i v AND 1"
  have i: "?n < sz" "?n mod 2 ^ 32 = ?n" "?n div 32 = chunk" "?n mod 32 = i" using Cons.prems by simp_all
  have v: "?v \<noteq> 0 \<longleftrightarrow> bit v i" by (simp add: and_one_eq bit_iff_odd_drop_bit mod_2_eq_odd)
  have s: "set_chunk sz v chunk (i # is) b = set_chunk sz v chunk is (setbit b ?n ?v)"
    using i(1,2) by (simp add: HEXCHUNKSZ_def Let_def)
  have n: "n div 32 = chunk \<and> n mod 32 = i \<longleftrightarrow> n = ?n" for n using i(3,4) by (metis div_mod_decomp)
  have "bits (setbit b ?n ?v) = {n. n < bsize b \<and> (if n = ?n then bit v i else n \<in> bits b)}"
    unfolding bits_setbit [OF Cons.prems(1)] v using bits_bound [of _ b] by auto
  then show ?case
    using Cons.IH [of "setbit b ?n ?v"] Cons.prems unfolding s by (auto simp: n [symmetric])
qed

lemma parsehex_word:
  assumes "bm_ok b" "chunk * 32 + 32 \<le> sz" "sz \<le> 2 ^ 32" "rest = [] \<or> rest = CHR '','' # r"
  shows "\<exists>b'. parsehex_loop sz (hex_text w @ rest) chunk b = (if rest = [] then (False, b') else parsehex_loop sz r (chunk - 1) b')
    \<and> bm_ok b' \<and> bsize b' = bsize b \<and> bits b' = {n. n < bsize b \<and> (if n div 32 = chunk then bit w (n mod 32) else n \<in> bits b)}"
proof -
  have "hex_digit (deref rest) = None" using assms(4) by (auto simp: hex_digit_def isdigit_def char_between_def)
  then have s: "strtoul16 (hex_text w @ rest) = (uint w, rest)" by (rule strtoul16_hex)
  obtain b' where b': "set_chunk sz w chunk (rev [0..<32]) b = (False, b')" "bm_ok b'" "bsize b' = bsize b"
    "bits b' = {n. n < bsize b \<and> (if n div 32 = chunk then bit w (n mod 32) else n \<in> bits b)}"
    using set_chunk_bits [OF assms(1) _ assms(2,3), of "rev [0..<32]" w] by auto
  have "parsehex_loop sz (hex_text w @ rest) chunk b = (if rest = [] then (False, b') else parsehex_loop sz r (chunk - 1) b')"
    using assms(4) hex_text_digits(1) [of w] b'(1)
    by (subst parsehex_loop.simps) (auto simp: s hex_token HEXCHARSZ_def HEXCHUNKSZ_def Let_def)
  then show ?thesis using b' by blast
qed

lemma parsehex_words:
  assumes "ws \<noteq> []" "bm_ok b" "32 * length ws \<le> sz" "sz \<le> 2 ^ 32"
  shows "\<exists>b'. parsehex_loop sz (hex_list ws) (length ws - 1) b = (False, b') \<and> bm_ok b' \<and> bsize b' = bsize b
    \<and> bits b' = {n. n < bsize b \<and> (if n div 32 < length ws then bit (rev ws ! (n div 32)) (n mod 32) else n \<in> bits b)}"
  using assms
proof (induction ws arbitrary: b rule: hex_list.induct)
  case (2 w)
  then show ?case using parsehex_word [of b 0 sz "[]" _ w] by (auto cong: conj_cong)
next
  case (3 w v vs)
  let ?k = "length (v # vs)" and ?r = "hex_list (v # vs)"
  obtain b1 where p: "parsehex_loop sz (hex_list (w # v # vs)) (length (w # v # vs) - 1) b = parsehex_loop sz ?r (?k - 1) b1"
    and f: "bm_ok b1" "bsize b1 = bsize b"
    and b1: "bits b1 = {n. n < bsize b \<and> (if n div 32 = ?k then bit w (n mod 32) else n \<in> bits b)}"
    using parsehex_word [OF "3.prems"(2), of ?k sz "CHR '','' # ?r" ?r w] "3.prems"(3,4) by auto
  obtain b' where b': "parsehex_loop sz ?r (?k - 1) b1 = (False, b')" "bm_ok b'" "bsize b' = bsize b1"
    "bits b' = {n. n < bsize b1 \<and> (if n div 32 < ?k then bit (rev (v # vs) ! (n div 32)) (n mod 32) else n \<in> bits b1)}"
    using "3.IH" [OF _ f(1)] "3.prems"(3,4) by auto
  have "rev (w # v # vs) ! m = (if m < ?k then rev (v # vs) ! m else w)" if "m < length (w # v # vs)" for m
    using that by (auto simp: nth_append less_Suc_eq)
  then have "bits b' = {n. n < bsize b \<and> (if n div 32 < length (w # v # vs) then bit (rev (w # v # vs) ! (n div 32)) (n mod 32) else n \<in> bits b)}"
    unfolding b'(4) f(2) b1 by auto
  then show ?case using b' p f by auto
qed simp

lemma chunk_index: "n < s \<Longrightarrow> n div 32 < (s + 31) div 32" for n s :: nat
  by linarith

lemma hex_chunks: "n < bsize b \<Longrightarrow> bit (rev (map (chunk_value b) (rev [0..<(bsize b + 31) div 32])) ! (n div 32)) (n mod 32) \<longleftrightarrow> n \<in> bits b"
proof -
  assume "n < bsize b"
  then show ?thesis using chunk_index [of n "bsize b"] by (simp add: rev_map bit_chunk_value)
qed

text \<open>C17: \<open>bitmask_displayhex\<close> prints the 32 bit words of the mask, the highest first, cut to the buffer, and
  returns the length of the whole text. Unless it is cut, \<open>bitmask_parsehex\<close> reads it back to the same set. The text
  of a mask without bits is empty, which \<open>bitmask_parsehex\<close> does not accept.\<close>
theorem bitmask_hex_roundtrip:
  assumes "bsize b \<le> 2 ^ 31" "0 < l" "bm_ok c" "bsize c = bsize b"
  shows "(let t = hex_list (map (chunk_value b) (rev [0..<(bsize b + 31) div 32])) in
      bitmask_displayhex buf0 l b = (take (nat l - 1) t, length t))
    \<and> (case bitmask_displayhex buf0 l b of (t, n) \<Rightarrow> int n < l \<longrightarrow>
        (case bitmask_parsehex t c of (r, c') \<Rightarrow> r = (if bsize b = 0 then -1 else 0) \<and> bits c' = bits b))"
proof -
  let ?ws = "map (chunk_value b) (rev [0..<(bsize b + 31) div 32])"
  let ?c = "bitmask_clearall c" and ?sz = "longsperbits (bsize c) * 8 * 8"
  have d: "bitmask_displayhex buf0 l b = (take (nat l - 1) (hex_list ?ws), length (hex_list ?ws))"
    using displayhex_chunks [OF assms(2), of b "rev [0..<(bsize b + 31) div 32]" "[]" "[]"] assms(1,2)
    by (auto simp: bitmask_displayhex_def HEXCHUNKSZ_def Let_def)
  have c: "bm_ok ?c" "bsize ?c = bsize b" using clearall_fields [OF assms(3)] assms(4) by auto
  have "case bitmask_parsehex (hex_list ?ws) c of (r, c') \<Rightarrow> r = (if bsize b = 0 then -1 else 0) \<and> bits c' = bits b"
  proof (cases "bsize b = 0")
    case True
    have "strtoul16 [] = (0, [])" by (simp add: strtoul16_def sign_digits_def hex_prefix_def)
    then show ?thesis using True assms(4) c range_bits(2) [of ?c] bits_bound [of _ b]
      by (auto simp: bitmask_parsehex_def count_tokens.simps parsehex_loop.simps nexttoken_simps Let_def)
  next
    case False
    have sz: "32 * length ?ws \<le> ?sz" "?sz \<le> 2 ^ 31 + 63"
      using assms(1,4) by (auto simp: longsperbits_def howmany_def bitsperlong_def)
    have n: "n div 32 < length ?ws" if "n < bsize b" for n using chunk_index [OF that] by (simp only: length_map length_rev length_upt diff_zero)
    then have ne: "?ws \<noteq> []" using False by fastforce
    have "{n. n < bsize b \<and> (if n div 32 < length ?ws then bit (rev ?ws ! (n div 32)) (n mod 32) else n \<in> bits ?c)} = bits b"
      using n hex_chunks [of _ b] bits_bound [of _ b] by auto
    then obtain c' where "parsehex_loop ?sz (hex_list ?ws) (length ?ws - 1) ?c = (False, c')" "bits c' = bits b"
      using parsehex_words [OF ne c(1) sz(1)] sz(2) unfolding c(2) by auto
    then show ?thesis using count_hex [OF ne] False assms(4) c sz(2) by (simp add: bitmask_parsehex_def Let_def)
  qed
  moreover have "int (length (hex_list ?ws)) < l \<Longrightarrow> take (nat l - 1) (hex_list ?ws) = hex_list ?ws" by simp
  ultimately show ?thesis using d by (simp add: Let_def)
qed

theorem bitmask_hex_roundtrip_witness:
  "bitmask_displayhex [] 64 \<lparr>bsize = 40, maskp = [0xA500000001]\<rparr> = (''000000a5,00000001'', 17)
    \<and> (case bitmask_parsehex ''000000a5,00000001'' \<lparr>bsize = 40, maskp = [0]\<rparr> of (r, c) \<Rightarrow>
        r = 0 \<and> bits c = bits \<lparr>bsize = 40, maskp = [0xA500000001]\<rparr>)"
proof -
  let ?b = "\<lparr>bsize = 40, maskp = [0xA500000001]\<rparr>"
  have ok: "bm_ok \<lparr>bsize = 40, maskp = [0]\<rparr>" by (simp add: bm_ok_def longsperbits_def howmany_def bitsperlong_def)
  have "chunk_value ?b 1 = 0xA5" "chunk_value ?b 0 = 1"
    by (simp_all add: chunk_value_def HEXCHUNKSZ_def getbit_def bitsperlong_def upt_rec)
  moreover have "hex_text 0xA5 = ''000000a5''" "hex_text 1 = ''00000001''" by code_simp+
  moreover have "rev [0..<(40 + 31) div 32 :: nat] = [1, 0]" by code_simp
  ultimately have t: "hex_list (map (chunk_value ?b) (rev [0..<(bsize ?b + 31) div 32])) = ''000000a5,00000001''" by (simp only: bitmask.select_convs list.map hex_list.simps append.simps)
  have "bitmask_displayhex [] 64 ?b = (''000000a5,00000001'', 17)"
    using bitmask_hex_roundtrip [of ?b 64 "\<lparr>bsize = 40, maskp = [0]\<rparr>" "[]"] ok unfolding t by simp
  then show ?thesis using bitmask_hex_roundtrip [of ?b 64 "\<lparr>bsize = 40, maskp = [0]\<rparr>" "[]"] ok unfolding t by simp
qed

section \<open>Well-formed masks\<close>

definition same_shape :: "bitmask \<Rightarrow> bitmask \<Rightarrow> bool" where
  "same_shape b c \<longleftrightarrow> bsize c = bsize b \<and> bm_ok c = bm_ok b"

lemma shape_refl: "same_shape b b"
  by (simp add: same_shape_def)

lemma shape_trans: "same_shape a b \<Longrightarrow> same_shape b c \<Longrightarrow> same_shape a c"
  by (simp add: same_shape_def)

lemma shape_setbit: "same_shape b (setbit b n v)"
  by (simp add: same_shape_def)

lemma shape_fold: "same_shape b (fold (\<lambda>i b. setbit b (f i) (g b i)) is b)"
proof (induction "is" arbitrary: b)
  case (Cons i "is")
  show ?case using shape_trans [OF shape_setbit Cons.IH] by simp
qed (simp add: shape_refl)

lemma shape_clearall: "same_shape b (bitmask_clearall b)"
  unfolding bitmask_clearall_def by (rule shape_fold)

lemma shape_ranges: "same_shape b (bitmask_setall b)" "same_shape b (bitmask_setrange b i j)" "same_shape b (bitmask_clearrange b i j)"
    "same_shape b (bitmask_keeprange b i j)"
proof -
  show c: "same_shape b (bitmask_clearrange b i j)" for b i j
    unfolding bitmask_clearrange_def by (rule shape_fold)
  show "same_shape b (bitmask_setall b)" "same_shape b (bitmask_setrange b i j)"
    unfolding bitmask_setall_def bitmask_setrange_def by (rule shape_fold)+
  show "same_shape b (bitmask_keeprange b i j)"
    unfolding bitmask_keeprange_def Let_def by (rule shape_trans [OF c c])
qed

lemma shape_set_chunk: "same_shape b (snd (set_chunk sz val chunk bs b))"
  by (induction sz val chunk bs b rule: set_chunk.induct) (auto simp: Let_def shape_refl intro: shape_trans [OF shape_setbit])

lemma shape_parsehex: "same_shape b (snd (parsehex_loop sz p chunk b))"
proof (induction sz p chunk b rule: parsehex_loop.induct)
  case (1 sz p chunk b)
  obtain v e where v: "strtoul16 p = (v, e)" by (cases "strtoul16 p")
  obtain err c where c: "set_chunk sz (word_of_int v) chunk (rev [0..<HEXCHUNKSZ]) b = (err, c)"
    by (cases "set_chunk sz (word_of_int v) chunk (rev [0..<HEXCHUNKSZ]) b")
  have bc: "same_shape b c" using shape_set_chunk [of b sz "word_of_int v" chunk "rev [0..<HEXCHUNKSZ]"] c by simp
  define n where "n = length p - length e"
  define bad where "bad = (case nexttoken p (CHR '','') of None \<Rightarrow> False | Some q \<Rightarrow> int (length e) - int (length q) \<noteq> 1)"
  have eq: "parsehex_loop sz p chunk b = (if n < 1 \<or> HEXCHARSZ < n then (True, b) else if bad then (True, b) else if err then (True, c)
      else case nexttoken p (CHR '','') of None \<Rightarrow> (False, c) | Some q \<Rightarrow> parsehex_loop sz q (chunk - 1) c)"
    by (subst parsehex_loop.simps) (simp add: v c n_def bad_def Let_def)
  show ?case
  proof (cases "\<not> (n < 1 \<or> HEXCHARSZ < n) \<and> \<not> bad \<and> \<not> err")
    case True
    then have "same_shape c (snd (parsehex_loop sz q (chunk - 1) c))" if "nexttoken p (CHR '','') = Some q" for q
      using "1.IH" [OF refl v [symmetric] refl refl _ _ c [symmetric] _ that] unfolding n_def bad_def by blast
    then show ?thesis using bc shape_trans [OF bc] True by (auto simp: eq split: option.split)
  qed (use bc shape_refl [of b] in \<open>auto simp: eq\<close>)
qed

lemma shape_stride:
  assumes "stride_loop a e s b = Some c"
  shows "same_shape b c"
  using assms
proof (rule stride_loop.raw_induct [where P = "\<lambda>a e s b c. same_shape b c", rotated])
  fix stride_loop a e s b c
  assume IH: "\<And>a e s b c. stride_loop a e s b = Some c \<Longrightarrow> same_shape b c"
    and step: "(if a \<le> e then stride_loop ((a + s) mod 2 ^ 32) e s (setbit b a 1) else Some b) = Some c"
  show "same_shape b c"
  proof (cases "a \<le> e")
    case True
    then have "same_shape (setbit b a 1) c" using step by (intro IH) simp
    then show ?thesis by (rule shape_trans [OF shape_setbit])
  qed (use step shape_refl in simp)
qed

lemma shape_parselist: "parselist_loop p b = Some (e, c) \<Longrightarrow> same_shape b c"
proof (induction p b arbitrary: e c rule: parselist_loop.induct)
  case (1 p b)
  show ?case
  proof (cases "scan_range p")
    case None
    then show ?thesis using "1.prems" by (simp add: parselist_loop.simps [of p b] shape_refl)
  next
    case (Some r)
    obtain l h s where r: "r = (l, h, s)" by (cases r)
    show ?thesis
    proof (cases "l \<le> h \<and> \<not> bsize b \<le> h")
      case True
      then obtain b1 where b1: "stride_loop l h s b = Some b1" using "1.prems" Some r by (cases "stride_loop l h s b") (simp_all add: parselist_loop.simps [of p b])
      then have "same_shape b b1" by (rule shape_stride)
      moreover have "nexttoken p (CHR '','') = Some q \<Longrightarrow> parselist_loop q b1 = Some (e, c) \<Longrightarrow> same_shape b1 c" for q
        using "1.IH" [OF Some r [symmetric] refl _ _ b1] True by simp
      ultimately show ?thesis
        using "1.prems" Some r True b1 shape_trans by (auto simp: parselist_loop.simps [of p b] split: option.splits)
    qed (use "1.prems" Some r in \<open>auto simp: parselist_loop.simps [of p b] shape_refl split: if_splits\<close>)
  qed
qed



end
