(* ===== verification/Test_Options.thy ===== *)
theory Test_Options
  imports Ltp_Prelude
begin

text \<open>
  The command line of a test (\<open>lib/tst_test.c\<close>): numbers with bounds
  (\<open>tst_parse_int()\<close>, \<open>tst_parse_long()\<close>, \<open>tst_parse_filesize()\<close>, and \<open>safe_strtol()\<close> of
  \<open>lib/safe_macros.c\<close>) and the options of the library and of the test. Floating point
  numbers are a type parameter with their parser as an argument.
\<close>

section \<open>Numbers\<close>

definition EINVAL :: int where "EINVAL = 22"

definition ERANGE :: int where "ERANGE = 34"

definition LONG_MAX :: int where "LONG_MAX = 2 ^ 63 - 1"

definition LONG_MIN :: int where "LONG_MIN = - (2 ^ 63)"

definition INT_MAX :: int where "INT_MAX = 2 ^ 31 - 1"

text \<open>The end of \<open>strtol()\<close> and \<open>strtoll()\<close>: the value in the range of the type, the rest and \<open>errno\<close>.\<close>

definition strtol_result :: "bool \<Rightarrow> int \<Rightarrow> string \<Rightarrow> int \<times> string \<times> int" where
  "strtol_result neg v r =
     (let v = (if neg then - v else v) in
      if v > LONG_MAX then (LONG_MAX, r, ERANGE) else if v < LONG_MIN then (LONG_MIN, r, ERANGE) else (v, r, 0))"

definition strtol :: "string \<Rightarrow> int \<times> string \<times> int" where
  "strtol s = (case sign_digits s of (neg, t) \<Rightarrow>
     let ds = takeWhile isdigit t in
     if ds = [] then (0, s, 0) else strtol_result neg (dec_val ds) (dropWhile isdigit t))"

text \<open>\<open>strtoll(s, &end, 0)\<close>: hexadecimal behind \<open>0x\<close>, octal behind \<open>0\<close>, decimal otherwise.\<close>

definition base_digit :: "int \<Rightarrow> char \<Rightarrow> bool" where
  "base_digit base c = (case hex_digit c of None \<Rightarrow> False | Some d \<Rightarrow> d < base)"

definition strtoll0 :: "string \<Rightarrow> int \<times> string \<times> int" where
  "strtoll0 s = (case sign_digits s of (neg, t) \<Rightarrow>
     let base = (if hex_prefix t \<noteq> t then 16 else if deref t = CHR ''0'' then 8 else 10);
         ds = takeWhile (base_digit base) (hex_prefix t) in
     if ds = [] then (0, s, 0)
     else strtol_result neg (foldl (\<lambda>v c. v * base + the (hex_digit c)) 0 ds) (dropWhile (base_digit base) (hex_prefix t)))"

text \<open>The functions return an error number and the stored value; nothing is stored on an error or without a string.\<close>

definition tst_parse_long :: "string option \<Rightarrow> int \<Rightarrow> int \<Rightarrow> int \<times> int option" where
  "tst_parse_long str lo hi =
     (case str of
        None \<Rightarrow> (0, None)
      | Some s \<Rightarrow> (case strtol s of (rval, end0, err) \<Rightarrow>
          if end0 = s \<or> end0 \<noteq> [] then (EINVAL, None)
          else if err \<noteq> 0 then (err, None)
          else if rval > hi \<or> rval < lo then (ERANGE, None)
          else (0, Some rval)))"

definition tst_parse_int :: "string option \<Rightarrow> int \<Rightarrow> int \<Rightarrow> int \<times> int option" where
  "tst_parse_int str lo hi =
     (if str = None then (0, None)
      else case tst_parse_long str lo hi of (ret, val) \<Rightarrow> if ret \<noteq> 0 then (ret, None) else (0, map_option c_int val))"

text \<open>A product that does not fit into a \<open>long long\<close> is undefined: no result.\<close>

definition unit_factor :: "char \<Rightarrow> int" where
  "unit_factor c =
     (if c = CHR ''g'' \<or> c = CHR ''G'' then 1024 * 1024 * 1024
      else if c = CHR ''m'' \<or> c = CHR ''M'' then 1024 * 1024
      else if c = CHR ''k'' \<or> c = CHR ''K'' then 1024
      else 1)"

definition tst_parse_filesize :: "string option \<Rightarrow> int \<Rightarrow> int \<Rightarrow> (int \<times> int option) option" where
  "tst_parse_filesize str lo hi =
     (case str of
        None \<Rightarrow> Some (0, None)
      | Some s \<Rightarrow> (case strtoll0 s of (rval, end0, err) \<Rightarrow>
          if end0 = s \<or> 1 < length end0 then Some (EINVAL, None)
          else if err \<noteq> 0 then Some (err, None)
          else let rval = rval * unit_factor (deref end0) in
            if rval > LONG_MAX \<or> rval < LONG_MIN then None
            else if rval > hi \<or> rval < lo then Some (ERANGE, None)
            else Some (0, Some rval)))"

definition safe_strtol :: "string \<Rightarrow> int \<Rightarrow> int \<Rightarrow> failure + int" where
  "safe_strtol str lo hi =
     (case strtol str of (rval, endptr, err) \<Rightarrow>
      if (err = ERANGE \<and> (rval = LONG_MAX \<or> rval = LONG_MIN)) \<or> (err \<noteq> 0 \<and> rval = 0)
      then Inl (Brk (''strtol('' @ str @ '') failed''))
      else if endptr = str \<or> (endptr \<noteq> [] \<and> deref endptr \<noteq> CHR 0x0A) then Inl (Brk (''strtol('' @ str @ ''): Invalid value''))
      else if rval > hi \<or> rval < lo
      then Inl (Brk (''strtol('' @ str @ ''): '' @ dec_of_int rval @ '' is out of range '' @ dec_of_int lo @ '' - '' @ dec_of_int hi))
      else Inr rval)"

section \<open>Options\<close>

record tst_option =
  optstr :: string
  arg :: nat
  ohelp :: string

text \<open>The options of the library; the addresses are not used.\<close>

definition options :: "(string \<times> string) list" where
  "options =
     [(''h'', ''-h       Prints this help''), (''i:'', ''-i n     Execute test n times''), (''I:'', ''-I x     Execute test for n seconds''),
      (''D'', ''-D       Prints debug information''), (''V'', ''-V       Prints LTP version'')]"

fun collision_inner :: "tst_option \<Rightarrow> (string \<times> string) list \<Rightarrow> failure + unit" where
  "collision_inner t [] = Inr ()"
| "collision_inner t ((o1, h) # os) =
     (if deref (optstr t) = deref o1 then Inl (Brk (''Option collision '' @ [CHR 0x27] @ h @ [CHR 0x27])) else collision_inner t os)"

fun collision_outer :: "tst_option list \<Rightarrow> failure + unit" where
  "collision_outer [] = Inr ()"
| "collision_outer (t # ts) = and_then (collision_inner t options) (\<lambda>_. collision_outer ts)"

definition check_option_collision :: "tst_option list option \<Rightarrow> failure + unit" where
  "check_option_collision toptions = (case toptions of None \<Rightarrow> Inr () | Some ts \<Rightarrow> collision_outer ts)"

definition count_options :: "tst_option list option \<Rightarrow> nat" where
  "count_options toptions = (case toptions of None \<Rightarrow> 0 | Some ts \<Rightarrow> length ts)"

text \<open>
  \<open>getopt()\<close>: the options in the order of the calls, and the arguments that are none, which it moves to the end.
  An option is reported as \<open>?\<close> when it is unknown or its argument is missing.
\<close>

definition takes_arg :: "string \<Rightarrow> char \<Rightarrow> bool option" where
  "takes_arg os c =
     (if c = CHR '':'' then None
      else case dropWhile (\<lambda>x. x \<noteq> c) os of [] \<Rightarrow> None | _ # r \<Rightarrow> Some (deref r = CHR '':''))"

fun cluster :: "string \<Rightarrow> string \<Rightarrow> string list \<Rightarrow> (char \<times> string option) list \<times> string list" where
  "cluster os [] args = ([], args)"
| "cluster os (c # cs) args =
     (case takes_arg os c of
        None \<Rightarrow> (case cluster os cs args of (opts, args) \<Rightarrow> ((CHR ''?'', None) # opts, args))
      | Some False \<Rightarrow> (case cluster os cs args of (opts, args) \<Rightarrow> ((c, None) # opts, args))
      | Some True \<Rightarrow>
          if cs \<noteq> [] then ([(c, Some cs)], args)
          else case args of [] \<Rightarrow> ([(CHR ''?'', None)], []) | a # args \<Rightarrow> ([(c, Some a)], args))"

lemma cluster_args: "length (snd (cluster os cs args)) \<le> length args"
  by (induction cs) (auto split: option.splits bool.splits prod.splits list.splits)

lemma cluster_shorter: "(opts, r) = cluster os cs args \<Longrightarrow> length r < Suc (length args)"
  using cluster_args [of os cs args] by (metis le_imp_less_Suc snd_conv)

function getopt :: "string \<Rightarrow> string list \<Rightarrow> (char \<times> string option) list \<times> string list" where
  "getopt os [] = ([], [])"
| "getopt os (a # args) =
     (if a = ''--'' then ([], args)
      else if deref a = CHR ''-'' \<and> a \<noteq> ''-'' then
        case cluster os (drop 1 a) args of (opts1, args) \<Rightarrow> case getopt os args of (opts, ops) \<Rightarrow> (opts1 @ opts, ops)
      else case getopt os args of (opts, ops) \<Rightarrow> (opts, a # ops))"
  by pat_completeness auto
termination by (relation "measure (\<lambda>(os, args). length args)") (auto dest: cluster_shorter)

text \<open>The variables that the options set: those of the library, and the test's own at their addresses.\<close>

record 'f settings =
  iterations :: int
  duration :: "'f option"
  runtime :: int
  tdebug :: bool
  vars :: "nat \<Rightarrow> string option"
  warned :: "char list"

fun find_option :: "tst_option list \<Rightarrow> char \<Rightarrow> tst_option option" where
  "find_option [] opt = None"
| "find_option (t # ts) opt = (if deref (optstr t) = opt then Some t else find_option ts opt)"

definition parse_topt :: "tst_option list option \<Rightarrow> char \<Rightarrow> string option \<Rightarrow> 'f settings \<Rightarrow> failure + 'f settings" where
  "parse_topt toptions opt optarg st =
     (case find_option (case toptions of None \<Rightarrow> [] | Some ts \<Rightarrow> ts) opt of
        None \<Rightarrow> Inl (Brk (''Invalid option '' @ [CHR 0x27, opt, CHR 0x27] @ '' (should not happen)''))
      | Some t \<Rightarrow>
          let st = (if vars st (arg t) \<noteq> None then st\<lparr>warned := warned st @ [opt]\<rparr> else st) in
          Inr (st\<lparr>vars := (vars st)(arg t \<mapsto> (case optarg of Some a \<Rightarrow> a | None \<Rightarrow> []))\<rparr>))"

text \<open>The end of option parsing: the settings, or the end of the process with or without a failure.\<close>

datatype 'f parsed = Settings "'f settings" | Exit int | Fails failure

text \<open>\<open>SAFE_STRTOF(optarg, 0.1, HUGE_VALF)\<close> is the argument \<open>strtof\<close>.\<close>

fun opts_loop :: "(string \<Rightarrow> failure + 'f) \<Rightarrow> tst_option list option \<Rightarrow> (char \<times> string option) list \<Rightarrow> 'f settings \<Rightarrow> 'f parsed" where
  "opts_loop strtof toptions [] st = Settings st"
| "opts_loop strtof toptions ((opt, optarg) # opts) st =
     (if opt = CHR ''?'' then Fails (Brk ''Invalid option'')
      else if opt = CHR ''D'' then opts_loop strtof toptions opts (st\<lparr>tdebug := True\<rparr>)
      else if opt = CHR ''h'' then Exit 0
      else if opt = CHR ''i'' then
        (case safe_strtol (the optarg) 0 INT_MAX of Inl f \<Rightarrow> Fails f | Inr n \<Rightarrow> opts_loop strtof toptions opts (st\<lparr>iterations := n\<rparr>))
      else if opt = CHR ''I'' then
        (if runtime st > 0
         then (case safe_strtol (the optarg) 1 INT_MAX of Inl f \<Rightarrow> Fails f | Inr n \<Rightarrow> opts_loop strtof toptions opts (st\<lparr>runtime := n\<rparr>))
         else (case strtof (the optarg) of Inl f \<Rightarrow> Fails f | Inr d \<Rightarrow> opts_loop strtof toptions opts (st\<lparr>duration := Some d\<rparr>)))
      else if opt = CHR ''V'' then Exit 0
      else (case parse_topt toptions opt optarg st of Inl f \<Rightarrow> Fails f | Inr st \<Rightarrow> opts_loop strtof toptions opts st))"

text \<open>The option string is collected in an array of \<open>2 * 5 + 2 * topts_len\<close> bytes.\<close>

definition option_string :: "tst_option list option \<Rightarrow> failure + string" where
  "option_string toptions =
     (let os = concat (map fst options) @ concat (map optstr (case toptions of None \<Rightarrow> [] | Some ts \<Rightarrow> ts)) in
      if length os + 1 \<le> 2 * length options + 2 * count_options toptions then Inr os else Inl Overrun)"

definition parse_opts :: "(string \<Rightarrow> failure + 'f) \<Rightarrow> tst_option list option \<Rightarrow> string list \<Rightarrow> 'f settings \<Rightarrow> 'f parsed" where
  "parse_opts strtof toptions args st =
     (case and_then (check_option_collision toptions) (\<lambda>_. option_string toptions) of
        Inl f \<Rightarrow> Fails f
      | Inr os \<Rightarrow> (case getopt os args of (opts, ops) \<Rightarrow>
          case opts_loop strtof toptions opts st of
            Settings st \<Rightarrow>
              if ops \<noteq> [] then Fails (Brk (''Unexpected argument(s) '' @ [CHR 0x27] @ hd ops @ [CHR 0x27] @ ''...'')) else Settings st
          | r \<Rightarrow> r))"

section \<open>Correctness of the number parsers\<close>

lemma neg_sign: "sign_digits (CHR ''-'' # dec_of_nat n @ rest) = (True, dec_of_nat n @ rest)"
  by (simp add: sign_digits_def isspace_def char_between_def)

lemma strtol_int:
  assumes "\<not> isdigit (deref rest)"
  shows "strtol (dec_of_int n @ rest) = (if n > LONG_MAX then (LONG_MAX, rest, ERANGE) else if n < LONG_MIN then (LONG_MIN, rest, ERANGE) else (n, rest, 0))"
  using number_split [OF assms] neg_sign
  by (auto simp: strtol_def strtol_result_def dec_of_int_def dec_val_dec_of_nat Let_def)

lemma dec_of_int_ne [simp]: "dec_of_int n \<noteq> []" "[] \<noteq> dec_of_int n"
  by (simp_all add: dec_of_int_def not_sym [OF dec_of_nat_ne])

lemma dec_digits_base: "c \<in> set (dec_of_nat n) \<Longrightarrow> isdigit c \<and> hex_digit c = Some (digit_val c) \<and> digit_val c < 10"
proof -
  assume "c \<in> set (dec_of_nat n)"
  then have d: "isdigit c" using dec_of_nat_digits [of n] by (simp add: list_all_iff)
  then have "int (of_char c) < 58" by (simp add: isdigit_def char_between_def)
  then show ?thesis using d by (simp add: hex_digit_def digit_val_def of_nat_of_char)
qed

text \<open>Units are not hexadecimal digits; a decimal number without leading zeros is read in base 10, and 0 in base 8.\<close>

lemma strtoll0_dec:
  assumes "hex_digit (deref rest) = None" "deref rest \<noteq> CHR ''x''" "deref rest \<noteq> CHR ''X''"
  shows "strtoll0 (dec_of_nat n @ rest) = (if int n > LONG_MAX then (LONG_MAX, rest, ERANGE) else (int n, rest, 0))"
proof -
  obtain c cs where c: "dec_of_nat n = c # cs" by (cases "dec_of_nat n") auto
  have nd: "\<not> isdigit (deref rest)" using assms(1) by (auto simp: hex_digit_def split: if_splits)
  have dig: "\<forall>c \<in> set (dec_of_nat n). isdigit c \<and> hex_digit c = Some (digit_val c) \<and> digit_val c < 10" using dec_digits_base by blast
  have x: "\<not> isdigit (CHR ''x'')" "\<not> isdigit (CHR ''X'')" by (simp_all add: isdigit_def char_between_def)
  have "take 2 (dec_of_nat n @ rest) \<notin> {''0x'', ''0X''}"
  proof (cases cs)
    case Nil
    then show ?thesis using assms(2,3) by (cases rest) (auto simp: c)
  next
    case (Cons d ds)
    then show ?thesis using dig x by (auto simp: c)
  qed
  then have hp: "hex_prefix (dec_of_nat n @ rest) = dec_of_nat n @ rest" by (simp add: hex_prefix_def)
  define b :: int where "b = (if c = CHR ''0'' then 8 else 10)"
  have z: "c = CHR ''0'' \<Longrightarrow> dec_of_nat n = ''0'' \<and> n = 0" 
  proof -
    have "dec_of_nat 0 = ''0''" by code_simp
    then show "c = CHR ''0'' \<Longrightarrow> dec_of_nat n = ''0'' \<and> n = 0" using dec_of_nat_hd [of n] by (auto simp: c)
  qed
  have bd: "\<forall>c \<in> set (dec_of_nat n). base_digit b c"
    using dig z by (auto simp: base_digit_def b_def digit_val_def)
  have "foldl (\<lambda>v c. v * b + the (hex_digit c)) 0 (dec_of_nat n) = int n"
  proof (cases "c = CHR ''0''")
    case True
    then show ?thesis using z dig by (auto simp: digit_val_def)
  next
    case False
    have "foldl (\<lambda>v c. v * 10 + the (hex_digit c)) v s = foldl (\<lambda>v c. v * 10 + digit_val c) v s" if "set s \<subseteq> set (dec_of_nat n)" for v s
      using that dig by (induction s arbitrary: v) auto
    then show ?thesis using dec_val_dec_of_nat [of n] False by (simp add: b_def dec_val_def)
  qed
  moreover have "takeWhile (base_digit b) (dec_of_nat n @ rest) = dec_of_nat n" "dropWhile (base_digit b) (dec_of_nat n @ rest) = rest"
    using bd assms(1) by (auto simp: takeWhile_append2 dropWhile_append2 base_digit_def deref_def split: list.splits)
  ultimately show ?thesis
    using number_split(3) [OF nd, of n] hp by (simp add: strtoll0_def c b_def strtol_result_def LONG_MIN_def Let_def)
qed

text \<open>C33: The parsers accept a printed number exactly when it is inside the bounds, and store it; otherwise they
  return \<open>ERANGE\<close> or break the test. A file size may have a unit of one character: sizes with
  \<open>k\<close>, \<open>m\<close> and \<open>g\<close> are multiplied, any other character is ignored, and a product outside of
  \<open>long long\<close> is undefined behaviour.\<close>
theorem parse_numbers:
  assumes "LONG_MIN \<le> lo" "hi \<le> LONG_MAX" "u = [] \<or> (\<exists>c. u = [c] \<and> hex_digit c = None \<and> c \<notin> {CHR ''x'', CHR ''X''})"
  shows "tst_parse_long (Some (dec_of_int n)) lo hi = (if lo \<le> n \<and> n \<le> hi then (0, Some n) else (ERANGE, None))
    \<and> (- (2 ^ 31) \<le> lo \<and> hi < 2 ^ 31 \<longrightarrow>
        tst_parse_int (Some (dec_of_int n)) lo hi = (if lo \<le> n \<and> n \<le> hi then (0, Some n) else (ERANGE, None)))
    \<and> (if lo \<le> n \<and> n \<le> hi then safe_strtol (dec_of_int n) lo hi = Inr n else \<exists>m. safe_strtol (dec_of_int n) lo hi = Inl (Brk m))
    \<and> tst_parse_filesize (Some (dec_of_nat k @ u)) lo hi =
        (if int k > LONG_MAX then Some (ERANGE, None)
         else if int k * unit_factor (deref u) > LONG_MAX then None
         else if lo \<le> int k * unit_factor (deref u) \<and> int k * unit_factor (deref u) \<le> hi
         then Some (0, Some (int k * unit_factor (deref u)))
         else Some (ERANGE, None))"
proof (intro conjI impI)
  have e: "ERANGE \<noteq> 0" "ERANGE \<noteq> EINVAL" by (simp_all add: ERANGE_def EINVAL_def)
  have nul: "\<not> isdigit (deref [])" by (simp add: not_digit)
  show l: "tst_parse_long (Some (dec_of_int n)) lo hi = (if lo \<le> n \<and> n \<le> hi then (0, Some n) else (ERANGE, None))"
    using assms(1,2) strtol_int [OF nul, of n] e by (auto simp: tst_parse_long_def)
  show "tst_parse_int (Some (dec_of_int n)) lo hi = (if lo \<le> n \<and> n \<le> hi then (0, Some n) else (ERANGE, None))"
    if "- (2 ^ 31) \<le> lo \<and> hi < 2 ^ 31"
    using that l e by (auto simp: tst_parse_int_def c_int_id)
  show "if lo \<le> n \<and> n \<le> hi then safe_strtol (dec_of_int n) lo hi = Inr n else \<exists>m. safe_strtol (dec_of_int n) lo hi = Inl (Brk m)"
    using assms(1,2) strtol_int [OF nul, of n] e by (auto simp: safe_strtol_def)
  have u: "hex_digit (deref u) = None" "deref u \<noteq> CHR ''x''" "deref u \<noteq> CHR ''X''" "length u \<le> 1"
    using assms(3) by (auto simp: hex_digit_def isdigit_def char_between_def)
  have "LONG_MIN \<le> int k * unit_factor (deref u)"
    using mult_nonneg_nonneg [of "int k" "unit_factor (deref u)"] by (simp add: LONG_MIN_def unit_factor_def split: if_splits)
  then show "tst_parse_filesize (Some (dec_of_nat k @ u)) lo hi =
        (if int k > LONG_MAX then Some (ERANGE, None)
         else if int k * unit_factor (deref u) > LONG_MAX then None
         else if lo \<le> int k * unit_factor (deref u) \<and> int k * unit_factor (deref u) \<le> hi
         then Some (0, Some (int k * unit_factor (deref u)))
         else Some (ERANGE, None))"
    using strtoll0_dec [OF u(1-3), of k] u(4) e by (auto simp: tst_parse_filesize_def Let_def)
qed

theorem parse_numbers_witness:
  "tst_parse_int (Some ''-17'') (-20) 20 = (0, Some (-17)) \<and> tst_parse_filesize (Some ''64k'') 1 LONG_MAX = Some (0, Some 65536)
    \<and> tst_parse_filesize (Some ''10T'') 1 LONG_MAX = Some (0, Some 10)"
proof -
  have d: "dec_of_int (-17) = ''-17''" "dec_of_nat 64 = ''64''" "dec_of_nat 10 = ''10''" by code_simp+
  have u: "hex_digit (CHR ''k'') = None" "hex_digit (CHR ''T'') = None" by (simp_all add: hex_digit_def isdigit_def char_between_def)
  show ?thesis
    using parse_numbers [of "-20" 20 "[]" "-17" 0] parse_numbers [of 1 LONG_MAX "''k''" 0 64] parse_numbers [of 1 LONG_MAX "''T''" 0 10]
    by (simp add: d u LONG_MAX_def LONG_MIN_def unit_factor_def)
qed

section \<open>Correctness of the option parser\<close>

text \<open>The declared option strings: a character, and a colon when it takes an argument.\<close>

definition opt_ok :: "string \<Rightarrow> bool" where
  "opt_ok s \<longleftrightarrow> (\<exists>c. c \<notin> {CHR '':'', CHR ''-'', CHR ''?'', NUL} \<and> (s = [c] \<or> s = [c, CHR '':'']))"

lemma opt_okD: "opt_ok s \<Longrightarrow> hd s \<noteq> CHR '':'' \<and> hd s \<noteq> CHR ''-'' \<and> deref s = hd s \<and> s = hd s # (if tl s = [] then [] else '':'')"
  by (auto simp: opt_ok_def)

lemma takes_arg_append:
  "opt_ok t \<Longrightarrow> d \<noteq> CHR '':'' \<Longrightarrow> takes_arg (t @ r) d =
    (if d = hd t then Some (tl t \<noteq> [] \<or> deref r = CHR '':'') else takes_arg r d)"
  by (subst opt_okD [of t, THEN conjunct2, THEN conjunct2, THEN conjunct2]) (auto simp: takes_arg_def)

lemma takes_arg_concat:
  assumes "\<forall>s \<in> set ss. opt_ok s" "s \<in> set ss" "distinct (map hd ss)"
  shows "takes_arg (concat ss) (hd s) = Some (tl s \<noteq> [])"
  using assms
proof (induction ss)
  case (Cons t ss)
  have t: "opt_ok t" and s: "hd s \<noteq> CHR '':''" using Cons.prems(1,2) opt_okD by auto
  have "deref (concat ss) \<noteq> CHR '':''"
  proof (cases ss)
    case (Cons u us)
    then have "opt_ok u" using Cons.prems(1) by simp
    then have "concat ss = hd u # tl u @ concat us" using Cons opt_okD [of u] by (cases u) auto
    then show ?thesis using opt_okD [OF \<open>opt_ok u\<close>] by simp
  qed simp
  moreover have "s \<noteq> t \<Longrightarrow> hd s \<noteq> hd t" using Cons.prems(2,3) by (auto simp: image_iff)
  ultimately show ?case using Cons takes_arg_append [OF t s, of "concat ss"] by (cases "s = t") auto
qed simp

fun opt_args :: "char \<times> string option \<Rightarrow> string list" where
  "opt_args (c, None) = [[CHR ''-'', c]]"
| "opt_args (c, Some a) = [[CHR ''-'', c], a]"

definition opt_text :: "char \<times> string option \<Rightarrow> string" where
  "opt_text o1 = fst o1 # (if snd o1 = None then [] else '':'')"

lemma getopt_declared:
  assumes "\<forall>s \<in> set ss. opt_ok s" "distinct (map hd ss)" "\<forall>o1 \<in> set opts. opt_text o1 \<in> set ss"
  shows "getopt (concat ss) (concat (map opt_args opts)) = (opts, [])"
  using assms(3)
proof (induction opts)
  case (Cons o1 opts)
  obtain c a where o1: "o1 = (c, a)" by (cases o1)
  have "opt_text o1 \<in> set ss" using Cons.prems by simp
  then have "takes_arg (concat ss) c = Some (a \<noteq> None)" "c \<noteq> CHR ''-''"
    using takes_arg_concat [OF assms(1) _ assms(2), of "opt_text o1"] assms(1) by (auto simp: o1 opt_text_def opt_ok_def split: if_splits)
  then show ?case using Cons by (cases a) (simp_all add: o1)
qed simp

definition options_ok :: "tst_option list \<Rightarrow> bool" where
  "options_ok ts \<longleftrightarrow> (\<forall>t \<in> set ts. opt_ok (optstr t)) \<and> distinct (map hd (map fst options @ map optstr ts))"



end
