(* ===== verification/Test_Result.thy ===== *)
theory Test_Result
  imports Ltp_Prelude
begin

text \<open>
  Result reporting of the test library (\<open>lib/tst_test.c\<close>, \<open>lib/tst_ansi_color.c\<close>,
  \<open>include/tst_res_flags.h\<close>): the counters in shared memory, the text of a result line, and the exit
  code and summary of the library process.

  A \<open>ttype\<close> is the \<open>int\<close> of the source. The names of error numbers and whether the
  output is coloured are arguments, as is the message after formatting.
\<close>

unbundle bit_operations_syntax

section \<open>Flags and counters\<close>

definition TPASS :: int where "TPASS = 0"

definition TFAIL :: int where "TFAIL = 1"

definition TBROK :: int where "TBROK = 2"

definition TWARN :: int where "TWARN = 4"

definition TDEBUG :: int where "TDEBUG = 8"

definition TINFO :: int where "TINFO = 16"

definition TCONF :: int where "TCONF = 32"

definition TERRNO :: int where "TERRNO = 0x100"

definition TTERRNO :: int where "TTERRNO = 0x200"

definition TRERRNO :: int where "TRERRNO = 0x400"

lemmas flag_defs = TPASS_def TFAIL_def TBROK_def TWARN_def TDEBUG_def TINFO_def TCONF_def TERRNO_def TTERRNO_def TRERRNO_def

definition TTYPE_MASK :: int where "TTYPE_MASK = 0x3f"

definition TTYPE_RESULT :: "int \<Rightarrow> int" where "TTYPE_RESULT ttype = ttype AND TTYPE_MASK"

record results =
  passed :: int
  skipped :: int
  failed :: int
  warnings :: int
  broken :: int

definition tst_atomic_inc :: "int \<Rightarrow> int" where
  "tst_atomic_inc v = c_int (v + 1)"

text \<open>Before the shared memory is set up there are no counters.\<close>

definition update_results :: "int \<Rightarrow> results option \<Rightarrow> results option" where
  "update_results ttype = map_option (\<lambda>r.
     if ttype = TCONF then r\<lparr>skipped := tst_atomic_inc (skipped r)\<rparr>
     else if ttype = TPASS then r\<lparr>passed := tst_atomic_inc (passed r)\<rparr>
     else if ttype = TWARN then r\<lparr>warnings := tst_atomic_inc (warnings r)\<rparr>
     else if ttype = TFAIL then r\<lparr>failed := tst_atomic_inc (failed r)\<rparr>
     else if ttype = TBROK then r\<lparr>broken := tst_atomic_inc (broken r)\<rparr>
     else r)"

section \<open>Colours\<close>

definition esc_seq :: "string \<Rightarrow> string" where
  "esc_seq s = CHR 0x1B # CHR ''['' # s"

definition tst_ttype2color :: "int \<Rightarrow> string" where
  "tst_ttype2color ttype =
     (let r = TTYPE_RESULT ttype in
      if r = TPASS then esc_seq ''1;32m''
      else if r = TFAIL then esc_seq ''1;31m''
      else if r = TBROK then esc_seq ''1;31m''
      else if r = TCONF then esc_seq ''1;33m''
      else if r = TWARN then esc_seq ''1;35m''
      else if r = TINFO then esc_seq ''1;34m''
      else if r = TDEBUG then esc_seq ''1;37m''
      else [])"

definition ANSI_COLOR_RESET :: string where "ANSI_COLOR_RESET = esc_seq ''0m''"

definition ANSI_COLOR_YELLOW :: string where "ANSI_COLOR_YELLOW = esc_seq ''1;33m''"

text \<open>The static variable keeps the first decision; the environment variable is \<open>LTP_COLORIZE_OUTPUT\<close>.\<close>

definition tst_color_enabled :: "string option \<Rightarrow> bool \<Rightarrow> int \<Rightarrow> int \<times> int" where
  "tst_color_enabled env isatty color =
     (if color \<noteq> 0 then (color - 1, color)
      else case env of
        Some v \<Rightarrow>
          let color = (if v = ''n'' \<or> v = ''0'' then 1 else color);
              color = (if v = ''y'' \<or> v = ''1'' then 2 else color) in (color - 1, color)
      | None \<Rightarrow> let color = (if \<not> isatty then 1 else 2) in (color - 1, color))"

section \<open>Result lines\<close>

record report_env =
  quiet_output :: bool
  reproducible_output :: bool
  colored :: bool
  strerrno :: "int \<Rightarrow> string"
  errno :: int
  TST_ERR :: int
  TST_RET :: int

definition res_name :: "int \<Rightarrow> string option" where
  "res_name r =
     (if r = TPASS then Some ''TPASS''
      else if r = TFAIL then Some ''TFAIL''
      else if r = TBROK then Some ''TBROK''
      else if r = TCONF then Some ''TCONF''
      else if r = TWARN then Some ''TWARN''
      else if r = TINFO then Some ''TINFO''
      else if r = TDEBUG then Some ''TDEBUG''
      else None)"

definition quiet_type :: "report_env \<Rightarrow> int \<Rightarrow> bool" where
  "quiet_type e r \<longleftrightarrow> quiet_output e \<and> (r = TCONF \<or> r = TINFO \<or> r = TDEBUG)"

text \<open>The error number to print and its name; the last flag wins.\<close>

definition err_number :: "report_env \<Rightarrow> int \<Rightarrow> int option" where
  "err_number e ttype =
     (let n = (if ttype AND TERRNO \<noteq> 0 then Some (errno e) else None);
          n = (if ttype AND TTERRNO \<noteq> 0 then Some (TST_ERR e) else n)
      in if ttype AND TRERRNO \<noteq> 0
         then Some (if TST_RET e < 0 then c_int (- c_int (TST_RET e)) else c_int (TST_RET e)) else n)"

definition BUFLEN :: nat where "BUFLEN = 1024"

text \<open>
  \<open>snprintf(str, size, ...)\<close> in the middle of the buffer. The characters before \<open>str\<close> are the
  first \<open>BUFLEN - size\<close> ones, because the source moves \<open>str\<close> and \<open>size\<close> together.
\<close>

definition print_at :: "string \<Rightarrow> int \<Rightarrow> string \<Rightarrow> failure + string" where
  "print_at buf sz s =
     (if sz < 0 then Inl Overrun else Inr (take (nat (int BUFLEN - sz)) buf @ take (nat sz - 1) s))"

text \<open>The newline, and the bytes that are written: one more than stand before \<open>str\<close>.\<close>

definition print_end :: "string \<Rightarrow> int \<Rightarrow> failure + string" where
  "print_end buf sz =
     (if sz < 1 then Inl Overrun
      else Inr (take (nat (int BUFLEN - sz)) buf @ [if sz = 1 then NUL else CHR 0x0A]))"

text \<open>The line, and whether it was found too long.\<close>

definition format_line :: "report_env \<Rightarrow> string \<Rightarrow> int \<Rightarrow> int \<Rightarrow> string \<Rightarrow> failure + string \<times> bool" where
  "format_line e file lineno ttype msg =
     (case res_name (TTYPE_RESULT ttype) of
        None \<Rightarrow> Inl (Brk (''Invalid ttype value '' @ dec_of_int ttype))
      | Some res \<Rightarrow>
          let s1 = file @ '':'' @ dec_of_int lineno @ '': '';
              s2 = (if colored e then tst_ttype2color ttype @ res @ '': '' @ ANSI_COLOR_RESET else res @ '': '') in
          and_then (print_at [] (int BUFLEN) s1) (\<lambda>buf. let sz = int BUFLEN - int (length s1) in
          and_then (print_at buf sz s2) (\<lambda>buf. let sz = sz - int (length s2) in
          if reproducible_output e then and_then (print_end buf sz) (\<lambda>text. Inr (text, False))
          else let ssize = sz - 2; ret = int (length msg) in
            and_then (print_at buf sz msg) (\<lambda>buf. let sz = sz - min ret ssize in
            if ssize \<le> ret then and_then (print_end buf sz) (\<lambda>text. Inr (text, True))
            else case err_number e ttype of
                None \<Rightarrow> and_then (print_end buf sz) (\<lambda>text. Inr (text, False))
              | Some n \<Rightarrow>
                  let s3 = '': '' @ strerrno e n @ '' ('' @ dec_of_int n @ '')''; ssize = sz - 2; ret = int (length s3) in
                  and_then (print_at buf sz s3) (\<lambda>buf. let sz = sz - min ret ssize in
                  and_then (print_end buf sz) (\<lambda>text. Inr (text, ssize \<le> ret)))))))"

record report =
  out :: "string list"
  results :: "results option"

definition too_long :: string where "too_long = ''Next message is too long and truncated:''"

text \<open>A line that is too long is announced by a warning, which is a result of its own.\<close>

partial_function (option) print_result :: "report_env \<Rightarrow> string \<Rightarrow> int \<Rightarrow> int \<Rightarrow> string \<Rightarrow> report \<Rightarrow> (failure + report) option" where
  "print_result e file lineno ttype msg st =
     (if quiet_type e (TTYPE_RESULT ttype) then Some (Inr st)
      else case format_line e file lineno ttype msg of
        Inl f \<Rightarrow> Some (Inl f)
      | Inr (text, warn) \<Rightarrow>
          if warn then Option.bind (print_result e file lineno TWARN too_long st) (\<lambda>r.
            Some (and_then r (\<lambda>st. let st = st\<lparr>results := update_results TWARN (results st)\<rparr> in Inr (st\<lparr>out := out st @ [text]\<rparr>))))
          else Some (Inr (st\<lparr>out := out st @ [text]\<rparr>)))"

text \<open>The loop around \<open>write()\<close>: the bytes that reach the terminal, given the results of the calls.\<close>

fun write_loop :: "int list \<Rightarrow> string \<Rightarrow> string" where
  "write_loop [] str = []"
| "write_loop (ret # rets) str =
     (if str = [] \<or> ret \<le> 0 then [] else take (nat ret) str @ write_loop rets (drop (nat ret) str))"

definition tst_vres :: "report_env \<Rightarrow> string \<Rightarrow> int \<Rightarrow> int \<Rightarrow> string \<Rightarrow> report \<Rightarrow> (failure + report) option" where
  "tst_vres e file lineno ttype msg st =
     Option.bind (print_result e file lineno ttype msg st) (\<lambda>r.
       Some (and_then r (\<lambda>st. Inr (st\<lparr>results := update_results (TTYPE_RESULT ttype) (results st)\<rparr>))))"

text \<open>What replaces \<open>tst_brk()\<close> in cleanup functions.\<close>

definition tst_cvres :: "report_env \<Rightarrow> string \<Rightarrow> int \<Rightarrow> int \<Rightarrow> string \<Rightarrow> report \<Rightarrow> (failure + report) option" where
  "tst_cvres e file lineno ttype msg st =
     (let ttype = (if TTYPE_RESULT ttype = TBROK then (ttype AND NOT TTYPE_MASK) OR TWARN else ttype) in
      Option.bind (print_result e file lineno ttype msg st) (\<lambda>r.
        Some (and_then r (\<lambda>st. Inr (st\<lparr>results := update_results (TTYPE_RESULT ttype) (results st)\<rparr>)))))"

text \<open>Debug messages need the shared memory and the debug flag, and do not come from the library process.\<close>

definition tst_res :: "report_env \<Rightarrow> (int \<times> bool) option \<Rightarrow> int \<Rightarrow> string \<Rightarrow> int \<Rightarrow> int \<Rightarrow> string \<Rightarrow> report \<Rightarrow> (failure + report) option" where
  "tst_res e context pid file lineno ttype msg st =
     (if ttype = TDEBUG \<and> (case context of None \<Rightarrow> True | Some (lib_pid, tdebug) \<Rightarrow> lib_pid = pid \<or> \<not> tdebug)
      then Some (Inr st)
      else tst_vres e file lineno ttype msg st)"

section \<open>The end of the library process\<close>

type_synonym tag = "string \<times> string"

definition print_colored :: "bool \<Rightarrow> string \<Rightarrow> string" where
  "print_colored col str = (if col then ANSI_COLOR_YELLOW @ str @ ANSI_COLOR_RESET else str)"

definition newline :: string where "newline = [CHR 0x0A]"

fun hint_loop :: "bool \<Rightarrow> string \<Rightarrow> string \<Rightarrow> string option \<Rightarrow> bool \<Rightarrow> tag list \<Rightarrow> string" where
  "hint_loop col tag hint url hint_printed [] = []"
| "hint_loop col tag hint url hint_printed ((name, v) # tags) =
     (if name = tag then
        (if hint_printed then []
         else newline @ print_colored col ''HINT: '' @ ''You _MAY_ be '' @ hint @ '':'' @ newline @ newline)
        @ (case url of Some u \<Rightarrow> u @ v @ newline | None \<Rightarrow> v @ newline)
        @ hint_loop col tag hint url True tags
      else hint_loop col tag hint url hint_printed tags)"

definition print_failure_hint :: "bool \<Rightarrow> tag list option \<Rightarrow> string \<Rightarrow> string \<Rightarrow> string option \<Rightarrow> string" where
  "print_failure_hint col tags tag hint url = (case tags of None \<Rightarrow> [] | Some tags \<Rightarrow> hint_loop col tag hint url False tags)"

definition LINUX_GIT_URL :: string where
  "LINUX_GIT_URL = ''https://git.kernel.org/pub/scm/linux/kernel/git/torvalds/linux.git/commit/?id=''"

definition LINUX_STABLE_GIT_URL :: string where
  "LINUX_STABLE_GIT_URL = ''https://git.kernel.org/pub/scm/linux/kernel/git/stable/linux.git/commit/?id=''"

definition GLIBC_GIT_URL :: string where "GLIBC_GIT_URL = ''https://sourceware.org/git/?p=glibc.git;a=commit;h=''"

definition MUSL_GIT_URL :: string where "MUSL_GIT_URL = ''https://git.musl-libc.org/cgit/musl/commit/src/linux/clone.c?id=''"

definition CVE_DB_URL :: string where "CVE_DB_URL = ''https://cve.mitre.org/cgi-bin/cvename.cgi?name=CVE-''"

definition print_failure_hints :: "bool \<Rightarrow> tag list option \<Rightarrow> string" where
  "print_failure_hints col tags =
     print_failure_hint col tags ''linux-git'' ''missing kernel fixes'' (Some LINUX_GIT_URL)
     @ print_failure_hint col tags ''linux-stable-git'' ''missing stable kernel fixes'' (Some LINUX_STABLE_GIT_URL)
     @ print_failure_hint col tags ''glibc-git'' ''missing glibc fixes'' (Some GLIBC_GIT_URL)
     @ print_failure_hint col tags ''musl-git'' ''missing musl fixes'' (Some MUSL_GIT_URL)
     @ print_failure_hint col tags ''CVE'' ''vulnerable to CVE(s)'' (Some CVE_DB_URL)
     @ print_failure_hint col tags ''known-fail'' ''hit by known kernel failures'' None"

definition summary :: "results \<Rightarrow> string" where
  "summary r = newline @ ''Summary:'' @ newline
     @ ''passed   '' @ dec_of_int (passed r) @ newline
     @ ''failed   '' @ dec_of_int (failed r) @ newline
     @ ''broken   '' @ dec_of_int (broken r) @ newline
     @ ''skipped  '' @ dec_of_int (skipped r) @ newline
     @ ''warnings '' @ dec_of_int (warnings r) @ newline"

text \<open>\<open>do_exit()\<close> up to the cleanup: the exit code and what is printed. Printing the hints clears the flag.\<close>

definition exit_code :: "bool \<Rightarrow> tag list option \<Rightarrow> bool \<Rightarrow> results option \<Rightarrow> int \<Rightarrow> int \<times> string" where
  "exit_code col tags show_failure_hints res ret =
     (case res of
        None \<Rightarrow> (ret, [])
      | Some r \<Rightarrow>
          let ret = (if passed r \<noteq> 0 \<and> ret = TCONF then 0 else ret);
              (ret, text, show) = (if failed r \<noteq> 0
                then (ret OR TFAIL, if show_failure_hints then print_failure_hints col tags else [], False)
                else (ret, [], show_failure_hints));
              ret = (if skipped r \<noteq> 0 \<and> passed r = 0 then ret OR TCONF else ret);
              ret = (if warnings r \<noteq> 0 then ret OR TWARN else ret);
              (ret, text) = (if broken r \<noteq> 0
                then (ret OR TBROK, text @ (if show then print_failure_hints col tags else [])) else (ret, text))
          in (ret, text @ summary r))"

section \<open>Exit codes\<close>

lemma flag_bits: "bit TFAIL n \<longleftrightarrow> n = 0" "bit TBROK n \<longleftrightarrow> n = 1" "bit TWARN n \<longleftrightarrow> n = 2" "bit TCONF n \<longleftrightarrow> n = 5"
proof -
  have f: "TFAIL = 2 ^ 0" "TBROK = 2 ^ 1" "TWARN = 2 ^ 2" "TCONF = 2 ^ 5" by (simp_all add: flag_defs)
  show "bit TFAIL n \<longleftrightarrow> n = 0" "bit TBROK n \<longleftrightarrow> n = 1" "bit TWARN n \<longleftrightarrow> n = 2" "bit TCONF n \<longleftrightarrow> n = 5"
    unfolding f bit_exp_iff by auto
qed

lemma exit_code_eq:
  "fst (exit_code col tags show (Some r) ret) =
     (let ret = (if passed r \<noteq> 0 \<and> ret = TCONF then 0 else ret);
          ret = (if failed r \<noteq> 0 then ret OR TFAIL else ret);
          ret = (if skipped r \<noteq> 0 \<and> passed r = 0 then ret OR TCONF else ret);
          ret = (if warnings r \<noteq> 0 then ret OR TWARN else ret)
      in if broken r \<noteq> 0 then ret OR TBROK else ret)"
  by (simp add: exit_code_def Let_def)

text \<open>C22: The exit code of the library process has the bits it was called with, and a bit for failures, one for broken
  tests, one for warnings, and one for skipped tests when nothing passed; a skip does not count when something
  passed. So it is 0 exactly when nothing failed, broke or warned and something passed or
  nothing was skipped.\<close>
theorem exit_code_correct:
  "(bit (fst (exit_code col tags show (Some r) ret)) n \<longleftrightarrow>
      bit (if passed r \<noteq> 0 \<and> ret = TCONF then 0 else ret) n \<or> n = 0 \<and> failed r \<noteq> 0 \<or> n = 1 \<and> broken r \<noteq> 0
      \<or> n = 2 \<and> warnings r \<noteq> 0 \<or> n = 5 \<and> skipped r \<noteq> 0 \<and> passed r = 0)
    \<and> (fst (exit_code col tags show (Some r) ret) = 0 \<longleftrightarrow>
      failed r = 0 \<and> broken r = 0 \<and> warnings r = 0 \<and> (passed r \<noteq> 0 \<or> skipped r = 0)
      \<and> (ret = 0 \<or> ret = TCONF \<and> passed r \<noteq> 0))"
proof
  show b: "bit (fst (exit_code col tags show (Some r) ret)) n \<longleftrightarrow>
      bit (if passed r \<noteq> 0 \<and> ret = TCONF then 0 else ret) n \<or> n = 0 \<and> failed r \<noteq> 0 \<or> n = 1 \<and> broken r \<noteq> 0
      \<or> n = 2 \<and> warnings r \<noteq> 0 \<or> n = 5 \<and> skipped r \<noteq> 0 \<and> passed r = 0" for n
    unfolding exit_code_eq by (auto simp: Let_def bit_or_iff flag_bits)
  have z: "x = 0 \<longleftrightarrow> (\<forall>n. \<not> bit x n)" for x :: int by (auto simp: bit_eq_iff)
  show "fst (exit_code col tags show (Some r) ret) = 0 \<longleftrightarrow>
      failed r = 0 \<and> broken r = 0 \<and> warnings r = 0 \<and> (passed r \<noteq> 0 \<or> skipped r = 0)
      \<and> (ret = 0 \<or> ret = TCONF \<and> passed r \<noteq> 0)"
    unfolding z b by (auto simp: z [of ret])
qed

theorem exit_code_correct_witness:
  "fst (exit_code False None False (Some \<lparr>passed = 3, skipped = 1, failed = 0, warnings = 0, broken = 0\<rparr>) TCONF) = 0
    \<and> bit (fst (exit_code False None False (Some \<lparr>passed = 0, skipped = 1, failed = 2, warnings = 0, broken = 0\<rparr>) 0)) 5"
  using exit_code_correct [of False None False "\<lparr>passed = 3, skipped = 1, failed = 0, warnings = 0, broken = 0\<rparr>" TCONF 0]
    exit_code_correct [of False None False "\<lparr>passed = 0, skipped = 1, failed = 2, warnings = 0, broken = 0\<rparr>" 0 5]
  by simp

section \<open>Result lines\<close>

definition line_prefix :: "report_env \<Rightarrow> string \<Rightarrow> int \<Rightarrow> int \<Rightarrow> string" where
  "line_prefix e file lineno ttype =
     (let res = the (res_name (TTYPE_RESULT ttype)) in
      file @ '':'' @ dec_of_int lineno @ '': ''
      @ (if colored e then tst_ttype2color ttype @ res @ '': '' @ ANSI_COLOR_RESET else res @ '': ''))"

definition err_text :: "report_env \<Rightarrow> int \<Rightarrow> string" where
  "err_text e ttype = (case err_number e ttype of None \<Rightarrow> [] | Some n \<Rightarrow> '': '' @ strerrno e n @ '' ('' @ dec_of_int n @ '')'')"

text \<open>A message that reaches column 1022 of its line loses the error number.\<close>

definition full_line :: "report_env \<Rightarrow> string \<Rightarrow> int \<Rightarrow> int \<Rightarrow> string \<Rightarrow> string" where
  "full_line e file lineno ttype msg =
     (let l = line_prefix e file lineno ttype in
      if reproducible_output e then l else if length (l @ msg) < 1022 then l @ msg @ err_text e ttype else l @ msg)"

lemma print_at_end: "length l \<le> 1024 \<Longrightarrow> print_at l (1024 - int (length l)) s = Inr (l @ take (1023 - length l) s)"
proof -
  assume "length l \<le> 1024"
  then have "nat (1024 - int (length l)) - 1 = 1023 - length l" by linarith
  then show ?thesis using \<open>length l \<le> 1024\<close> by (simp add: print_at_def BUFLEN_def)
qed

lemma print_end_at: "k \<le> 1022 \<Longrightarrow> print_end buf (1024 - int k) = Inr (take k buf @ newline)"
  by (auto simp: print_end_def BUFLEN_def newline_def)

lemma print_end_2: "print_end buf 2 = Inr (take 1022 buf @ newline)"
  using print_end_at [of 1022 buf] by simp

text \<open>Appending a piece to a line that is not full.\<close>

lemma print_piece:
  assumes "length t < 1022" "sz = 1024 - int (length t)"
  shows "print_at t sz s = Inr (t @ take (1023 - length t) s)"
    "print_end (t @ take (1023 - length t) s) (sz - min (int (length s)) (sz - 2)) = Inr (take 1022 (t @ s) @ newline)"
    "sz - 2 \<le> int (length s) \<longleftrightarrow> 1022 \<le> length (t @ s)"
proof -
  show "print_at t sz s = Inr (t @ take (1023 - length t) s)" unfolding assms(2) using assms(1) by (intro print_at_end) simp
  show "print_end (t @ take (1023 - length t) s) (sz - min (int (length s)) (sz - 2)) = Inr (take 1022 (t @ s) @ newline)"
  proof (cases "int (length s) \<le> sz - 2")
    case True
    then show ?thesis using print_end_at [of "length (t @ s)" "t @ s"] by (simp add: assms(2) algebra_simps)
  next
    case False
    then show ?thesis using assms(1) by (simp add: print_end_2)
  qed
  show "sz - 2 \<le> int (length s) \<longleftrightarrow> 1022 \<le> length (t @ s)" using assms by auto
qed

lemma format_line_eq:
  assumes "res_name (TTYPE_RESULT ttype) \<noteq> None" "length (line_prefix e file lineno ttype) \<le> 1022"
  shows "format_line e file lineno ttype msg =
    Inr (take 1022 (full_line e file lineno ttype msg) @ newline,
         \<not> reproducible_output e \<and> 1022 \<le> length (full_line e file lineno ttype msg))"
proof -
  obtain res where res: "res_name (TTYPE_RESULT ttype) = Some res" using assms(1) by auto
  define s1 where "s1 = file @ '':'' @ dec_of_int lineno @ '': ''"
  define s2 where "s2 = (if colored e then tst_ttype2color ttype @ res @ '': '' @ ANSI_COLOR_RESET else res @ '': '')"
  define l where "l = s1 @ s2"
  have p: "line_prefix e file lineno ttype = l" by (simp add: line_prefix_def l_def s1_def s2_def res Let_def)
  then have l: "length l \<le> 1022" using assms(2) by simp
  have start: "print_at [] (int BUFLEN) s1 = Inr s1" "print_at s1 (int BUFLEN - int (length s1)) s2 = Inr l"
    "int BUFLEN - int (length s1) - int (length s2) = 1024 - int (length l)"
    using l by (simp_all add: l_def print_at_def BUFLEN_def)
  have m: "print_at l (1024 - int (length l)) msg = Inr (l @ take (1023 - length l) msg)" using l by (simp add: print_at_end)
  note fl = format_line_def [of e "file" lineno ttype msg, unfolded res option.case, folded s1_def s2_def, unfolded Let_def start m and_then_simps]
  consider "reproducible_output e" | "\<not> reproducible_output e" "1022 \<le> length (l @ msg)" | "\<not> reproducible_output e" "length (l @ msg) < 1022"
    by linarith
  then show ?thesis
  proof cases
    case 3
    define sz where "sz = 1024 - int (length (l @ msg))"
    have sz: "1024 - int (length l) - min (int (length msg)) (1024 - int (length l) - 2) = sz" using 3 by (auto simp: sz_def)
    have lm: "l @ take (1023 - length l) msg = l @ msg" "\<not> 1024 - int (length l) - 2 \<le> int (length msg)" using 3 by auto
    note piece = print_piece [OF 3(2) sz_def]
    have "format_line e file lineno ttype msg = Inr (take 1022 (l @ msg @ err_text e ttype) @ newline, 1022 \<le> length (l @ msg @ err_text e ttype))"
      using 3 lm(2) fl [unfolded lm(1) sz and_then_simps piece] piece(2,3) [of "[]"]
      by (cases "err_number e ttype") (simp_all add: err_text_def)
    then show ?thesis using 3 by (simp add: full_line_def p Let_def)
  qed (use l print_end_at [of "length l" l] in \<open>simp_all add: fl full_line_def p Let_def print_end_2\<close>)
qed

lemma res_name_TWARN: "TTYPE_RESULT TWARN = TWARN" "res_name TWARN = Some ''TWARN''" "err_number e TWARN = None"
  by (simp_all add: TTYPE_RESULT_def TTYPE_MASK_def res_name_def err_number_def flag_defs)

lemma print_warning:
  assumes "length (line_prefix e file lineno TWARN @ too_long) < 1022"
  shows "print_result e file lineno TWARN too_long st =
    Some (Inr (st\<lparr>out := out st @ [full_line e file lineno TWARN too_long @ newline]\<rparr>))"
proof -
  have "length (full_line e file lineno TWARN too_long) < 1022"
    using assms by (simp add: full_line_def Let_def err_text_def res_name_TWARN)
  then show ?thesis using assms
    by (subst print_result.simps) (simp add: quiet_type_def res_name_TWARN format_line_eq, simp add: flag_defs)
qed



end
