(* ===== verification/Kvercmp.thy ===== *)
theory Kvercmp
  imports Ltp_Prelude "HOL-Library.Product_Lexorder" "HOL-Library.List_Lexorder"
begin

text \<open>
  Comparison of kernel versions (\<open>lib/tst_kvercmp.c\<close>). The release of the running kernel and the
  content of \<open>/etc/os-release\<close> are arguments. The conversions of \<open>sscanf()\<close> that the code uses are written out.
\<close>

section \<open>Parsing\<close>

definition parse_digit :: "string \<Rightarrow> (int \<times> string) option" where
  "parse_digit str = (case strtoul str of (v, e) \<Rightarrow>
     if str = e then None else if 2147483647 < v then None else Some (v, e))"

text \<open>The result and the three numbers that are stored.\<close>

definition tst_parse_kver :: "string \<Rightarrow> int \<times> int \<times> int \<times> int" where
  "tst_parse_kver str_kver =
     (case parse_digit str_kver of
        None \<Rightarrow> (1, 0, 0, 0)
      | Some (v1, str) \<Rightarrow>
          if deref str \<noteq> CHR ''.'' then (1, v1, 0, 0)
          else case parse_digit (drop 1 str) of
            None \<Rightarrow> (1, v1, 0, 0)
          | Some (v2, str) \<Rightarrow>
              if deref str = CHR '' '' \<or> deref str = NUL \<or> deref str = CHR ''-'' then (0, v1, v2, 0)
              else if deref str \<noteq> CHR ''.'' then (1, v1, v2, 0)
              else case parse_digit (drop 1 str) of
                None \<Rightarrow> (1, v1, v2, 0)
              | Some (v3, _) \<Rightarrow> (0, v1, v2, v3))"

definition tst_kvcmp :: "string \<Rightarrow> int \<Rightarrow> int \<Rightarrow> int \<Rightarrow> int \<times> message list" where
  "tst_kvcmp cur_kver r1 r2 r3 =
     (case tst_parse_kver cur_kver of (ret, a1, a2, a3) \<Rightarrow>
      let testver = c_int (c_int (r1 * 2 ^ 20) + c_int (r2 * 2 ^ 10) + r3);
          currver = c_int (c_int (a1 * 2 ^ 20) + c_int (a2 * 2 ^ 10) + a3)
      in (c_int (currver - testver),
          if ret \<noteq> 0 then [(TWARN, ''Invalid kernel version '' @ cur_kver @ '', expected %d.%d.%d'')] else []))"

definition tst_kvercmp :: "string \<Rightarrow> int \<Rightarrow> int \<Rightarrow> int \<Rightarrow> int \<times> message list" where
  "tst_kvercmp release r1 r2 r3 = tst_kvcmp release r1 r2 r3"

text \<open>
  A \<open>%d\<close> of \<open>sscanf()\<close>, which converts like \<open>strtol()\<close> and stores an \<open>int\<close>, and the format: numbers with a
  character in front of each but the first; what is not reached keeps its value 0.
\<close>

definition scan_int :: "string \<Rightarrow> (int \<times> string) option" where
  "scan_int s = (case sign_digits s of (neg, t) \<Rightarrow>
     let ds = takeWhile isdigit t; v = (if neg then - dec_val ds else dec_val ds) in
     if ds = [] then None
     else Some (c_int (max (- 9223372036854775808) (min 9223372036854775807 v)), dropWhile isdigit t))"

fun scan_ints :: "char list \<Rightarrow> string \<Rightarrow> int list" where
  "scan_ints seps s = (case scan_int s of
     None \<Rightarrow> replicate (Suc (length seps)) 0
   | Some (v, r) \<Rightarrow> (case seps of
       [] \<Rightarrow> [v]
     | c # seps' \<Rightarrow> v # (if deref r = c then scan_ints seps' (drop 1 r) else replicate (length seps) 0)))"

declare scan_ints.simps [simp del]

fun first_diff :: "int list \<Rightarrow> int list \<Rightarrow> int" where
  "first_diff (c # cs) (t # ts) = (let ret = c_int (c - t) in if ret \<noteq> 0 \<or> cs = [] then ret else first_diff cs ts)"
| "first_diff _ _ = 0"

definition tst_kvexcmp :: "string \<Rightarrow> string \<Rightarrow> int" where
  "tst_kvexcmp tst_exv cur_ver = first_diff (scan_ints ''..-.'' cur_ver) (scan_ints ''..-.'' tst_exv)"

section \<open>The distribution\<close>

text \<open>\<open>sscanf(line, "ID=%s")\<close>, and the loop of \<open>SAFE_FILE_LINES_SCANF\<close> over the lines of a file.\<close>

definition scan_id :: "string \<Rightarrow> string option" where
  "scan_id line = (if take 3 line = ''ID=''
     then let w = takeWhile (\<lambda>c. \<not> isspace c) (dropWhile isspace (drop 3 line)) in if w = [] then None else Some w
     else None)"

definition BUFSIZ :: nat where "BUFSIZ = 8192"

function lines_id :: "string \<Rightarrow> string option" where
  "lines_id s = (case fgets BUFSIZ s of
     None \<Rightarrow> None
   | Some (l, r) \<Rightarrow> (case scan_id (c_str l) of Some w \<Rightarrow> Some w | None \<Rightarrow> lines_id r))"
  by pat_completeness auto
termination
  by (relation "measure length") (auto dest: fgets_shorter simp: BUFSIZ_def)

declare lines_id.simps [simp del]

definition toupper :: "char \<Rightarrow> char" where
  "toupper c = (if char_between (CHR ''a'') (CHR ''z'') c then char_of (of_char c - 32 :: nat) else c)"

definition quote :: char where "quote = CHR 0x22"

definition upper_name :: "string \<Rightarrow> string" where
  "upper_name p = map toupper (takeWhile (\<lambda>c. c \<noteq> quote) p)"

text \<open>The name is stored in an array of 64 bytes; the file is \<^term>\<open>None\<close> when it does not exist.\<close>

definition tst_kvcmp_distname :: "string option \<Rightarrow> string \<Rightarrow> failure + string option" where
  "tst_kvcmp_distname os_release kver =
     (if strstr kver ''.el7'' \<noteq> None then Inr (Some ''RHEL7'')
      else if strstr kver ''.el8'' \<noteq> None then Inr (Some ''RHEL8'')
      else if strstr kver ''.el9'' \<noteq> None then Inr (Some ''RHEL9'')
      else case os_release of
        None \<Rightarrow> Inr None
      | Some content \<Rightarrow> (case lines_id content of
            None \<Rightarrow> Inl (Brk ''Expected 1 conversions got 0'')
          | Some distname \<Rightarrow>
              if 64 \<le> length distname then Inl Overrun
              else Inr (Some (upper_name (if deref distname = quote then drop 1 distname else distname)))))"

record tst_kern_exv =
  dist_name :: string
  extra_ver :: string

definition tst_kvercmp2 :: "string option \<Rightarrow> string \<Rightarrow> int \<Rightarrow> int \<Rightarrow> int \<Rightarrow> tst_kern_exv list \<Rightarrow> failure + int \<times> message list" where
  "tst_kvercmp2 os_release kver r1 r2 r3 vers =
     and_then (tst_kvcmp_distname os_release kver) (\<lambda>cur_dist_name.
       case cur_dist_name of
         None \<Rightarrow> Inr (tst_kvercmp kver r1 r2 r3)
       | Some d \<Rightarrow> (case find (\<lambda>v. dist_name v = d) vers of
             Some v \<Rightarrow> Inr (tst_kvexcmp (extra_ver v) kver, [(TINFO, ''Detected '' @ d @ '' using kernel version '' @ kver)])
           | None \<Rightarrow> Inr (tst_kvcmp kver r1 r2 r3)))"

section \<open>Versions and their text\<close>

lemma parse_digit_number:
  assumes "\<not> isdigit (deref rest)" "n \<le> 2147483647"
  shows "parse_digit (dec_of_nat n @ rest) = Some (int n, rest)"
  using assms(2) number_split [OF assms(1)]
  by (simp add: parse_digit_def strtoul_def Let_def dec_val_dec_of_nat)

lemma parse_kver_three:
  assumes "v1 \<le> 2147483647" "v2 \<le> 2147483647" "v3 \<le> 2147483647" "\<not> isdigit (deref rest)"
  shows "tst_parse_kver (dec_of_nat v1 @ ''.'' @ dec_of_nat v2 @ ''.'' @ dec_of_nat v3 @ rest) = (0, int v1, int v2, int v3)"
  using assms by (simp add: tst_parse_kver_def parse_digit_number not_digit)

lemma parse_kver_two:
  assumes "v1 \<le> 2147483647" "v2 \<le> 2147483647" "deref rest \<in> {CHR '' '', NUL, CHR ''-''}"
  shows "tst_parse_kver (dec_of_nat v1 @ ''.'' @ dec_of_nat v2 @ rest) = (0, int v1, int v2, 0)"
proof -
  have "\<not> isdigit (deref rest)" using assms(3) not_digit by auto
  then show ?thesis using assms by (auto simp: tst_parse_kver_def parse_digit_number not_digit)
qed

text \<open>A version packed into an \<open>int\<close> with ten bits for each of the lower numbers keeps the order.\<close>

definition packable :: "int \<times> int \<times> int \<Rightarrow> bool" where
  "packable v = (case v of (a, b, c) \<Rightarrow> 0 \<le> a \<and> a < 2048 \<and> 0 \<le> b \<and> b < 1024 \<and> 0 \<le> c \<and> c < 1024)"

definition packed :: "int \<times> int \<times> int \<Rightarrow> int" where
  "packed v = (case v of (a, b, c) \<Rightarrow> c_int (c_int (a * 2 ^ 20) + c_int (b * 2 ^ 10) + c))"

lemma packed_eq: "packable (a, b, c) \<Longrightarrow> packed (a, b, c) = a * 1048576 + b * 1024 + c"
  by (simp add: packable_def packed_def c_int_id)

lemma packed_inj:
  assumes "packable (a, b, c)" "packable (x, y, z)" "a * 1048576 + b * 1024 + c = x * 1048576 + y * 1024 + z"
  shows "a = x \<and> b = y \<and> c = z"
proof -
  have "a = x" using assms by (simp add: packable_def)
  moreover from this have "b = y" using assms by (simp add: packable_def)
  ultimately show ?thesis using assms by simp
qed

lemma packed_order:
  assumes "packable v" "packable r"
  shows "c_int (packed v - packed r) < 0 \<longleftrightarrow> v < r" "c_int (packed v - packed r) = 0 \<longleftrightarrow> v = r"
proof -
  obtain a b c x y z where v: "v = (a, b, c)" and r: "r = (x, y, z)" by (cases v; cases r) auto
  have e: "c_int (packed v - packed r) = packed v - packed r"
    using assms by (simp add: v r packed_eq c_int_id) (auto simp: packable_def intro!: c_int_id)
  show "c_int (packed v - packed r) < 0 \<longleftrightarrow> v < r" "c_int (packed v - packed r) = 0 \<longleftrightarrow> v = r"
    unfolding e using assms packed_inj [of a b c x y z] by (auto simp: v r packed_eq) (auto simp: packable_def)
qed

lemma kvcmp_packed: "tst_parse_kver s = (ret, a, b, c) \<Longrightarrow> fst (tst_kvcmp s r1 r2 r3) = c_int (packed (a, b, c) - packed (r1, r2, r3))"
  by (simp add: tst_kvcmp_def packed_def Let_def)

text \<open>C38: The comparison of the running kernel with a version has the sign of the lexicographic order
  of the three numbers, whatever follows them; a missing third number counts as 0. The lower two
  numbers must be below 1024: 4.9.1024 is taken for 4.10.0.\<close>
theorem kvcmp_order:
  assumes "packable (int v1, int v2, int v3)" "packable (r1, r2, r3)" "\<not> isdigit (deref rest)"
  shows "(fst (tst_kvcmp (dec_of_nat v1 @ ''.'' @ dec_of_nat v2 @ ''.'' @ dec_of_nat v3 @ rest) r1 r2 r3) < 0 \<longleftrightarrow> (int v1, int v2, int v3) < (r1, r2, r3))
    \<and> (fst (tst_kvcmp (dec_of_nat v1 @ ''.'' @ dec_of_nat v2 @ ''.'' @ dec_of_nat v3 @ rest) r1 r2 r3) = 0 \<longleftrightarrow> (int v1, int v2, int v3) = (r1, r2, r3))
    \<and> (deref rest \<in> {CHR '' '', NUL, CHR ''-''} \<longrightarrow>
         (fst (tst_kvcmp (dec_of_nat v1 @ ''.'' @ dec_of_nat v2 @ rest) r1 r2 r3) < 0 \<longleftrightarrow> (int v1, int v2, 0) < (r1, r2, r3)))
    \<and> fst (tst_kvcmp ''4.9.1024'' 4 10 0) = 0"
proof (intro conjI impI)
  have b: "v1 \<le> 2147483647" "v2 \<le> 2147483647" "v3 \<le> 2147483647" using assms(1) by (simp_all add: packable_def)
  note three = parse_kver_three [OF b assms(3)]
  have p0: "packable (int v1, int v2, 0)" using assms(1) by (simp add: packable_def)
  show "fst (tst_kvcmp (dec_of_nat v1 @ ''.'' @ dec_of_nat v2 @ ''.'' @ dec_of_nat v3 @ rest) r1 r2 r3) < 0 \<longleftrightarrow> (int v1, int v2, int v3) < (r1, r2, r3)"
    unfolding kvcmp_packed [OF three] by (rule packed_order(1) [OF assms(1,2)])
  show "fst (tst_kvcmp (dec_of_nat v1 @ ''.'' @ dec_of_nat v2 @ ''.'' @ dec_of_nat v3 @ rest) r1 r2 r3) = 0 \<longleftrightarrow> (int v1, int v2, int v3) = (r1, r2, r3)"
    unfolding kvcmp_packed [OF three] by (rule packed_order(2) [OF assms(1,2)])
  show "fst (tst_kvcmp (dec_of_nat v1 @ ''.'' @ dec_of_nat v2 @ rest) r1 r2 r3) < 0 \<longleftrightarrow> (int v1, int v2, 0) < (r1, r2, r3)"
    if "deref rest \<in> {CHR '' '', NUL, CHR ''-''}"
    unfolding kvcmp_packed [OF parse_kver_two [OF b(1,2) that]] by (rule packed_order(1) [OF p0 assms(2)])
  show "fst (tst_kvcmp ''4.9.1024'' 4 10 0) = 0" by code_simp
qed

theorem kvcmp_order_witness:
  "fst (tst_kvcmp (dec_of_nat 5 @ ''.'' @ dec_of_nat 15 @ ''.'' @ dec_of_nat 0 @ ''-91-generic'') 5 4 200) \<ge> 0"
  using kvcmp_order [of 5 15 0 5 4 200 "''-91-generic''"] by (simp add: packable_def not_digit)

section \<open>Vendor versions\<close>

text \<open>The text of numbers with the separators between them.\<close>

fun ver_text :: "char list \<Rightarrow> nat list \<Rightarrow> string" where
  "ver_text (c # seps) (n # ns) = dec_of_nat n @ c # ver_text seps ns"
| "ver_text [] (n # ns) = dec_of_nat n"
| "ver_text seps [] = []"

lemma scan_int_number:
  assumes "\<not> isdigit (deref rest)" "n \<le> 2147483647"
  shows "scan_int (dec_of_nat n @ rest) = Some (int n, rest)"
  using assms(2) number_split [OF assms(1)] by (simp add: scan_int_def Let_def dec_val_dec_of_nat c_int_id)

lemma scan_ints_text:
  assumes "length ns = Suc (length seps)" "list_all (\<lambda>n. n \<le> 2147483647) ns" "list_all (\<lambda>c. \<not> isdigit c) seps" "\<not> isdigit (deref rest)"
  shows "scan_ints seps (ver_text seps ns @ rest) = map int ns"
  using assms
proof (induction seps ns rule: ver_text.induct)
  case (1 c seps n ns)
  then show ?case using scan_int_number [of "c # ver_text seps ns @ rest" n] by (subst scan_ints.simps) simp
next
  case (2 n ns)
  then show ?case using scan_int_number [of rest n] by (subst scan_ints.simps) simp
qed simp

lemma first_diff_order:
  assumes "length cs = length ts" "list_all (\<lambda>n. n \<le> 2147483647) cs" "list_all (\<lambda>n. n \<le> 2147483647) ts"
  shows "(first_diff (map int cs) (map int ts) < 0 \<longleftrightarrow> cs < ts) \<and> (first_diff (map int cs) (map int ts) = 0 \<longleftrightarrow> cs = ts)"
  using assms
proof (induction cs ts rule: list_induct2)
  case (Cons c cs t ts)
  have "c_int (int c - int t) = int c - int t" using Cons.prems by (simp add: c_int_id)
  then show ?case using Cons by (auto simp: Let_def)
qed simp

text \<open>When a distribution is detected and has an entry in the table, the result is the comparison
  of the five numbers of the running kernel with those of the entry, in lexicographic order; the
  mainline version that was asked for plays no role.\<close>
theorem kvercmp2_vendor:
  assumes "length cs = 5" "length ts = 5" "list_all (\<lambda>n. n \<le> 2147483647) cs" "list_all (\<lambda>n. n \<le> 2147483647) ts"
    and "kver = ver_text ''..-.'' cs @ rest" "\<not> isdigit (deref rest)"
    and "tst_kvcmp_distname os_release kver = Inr (Some d)"
    and "find (\<lambda>v. dist_name v = d) vers = Some v" "extra_ver v = ver_text ''..-.'' ts"
  shows "\<exists>r ms. tst_kvercmp2 os_release kver r1 r2 r3 vers = Inr (r, ms) \<and> (r < 0 \<longleftrightarrow> cs < ts) \<and> (r = 0 \<longleftrightarrow> cs = ts)"
proof -
  have "scan_ints ''..-.'' kver = map int cs" "scan_ints ''..-.'' (extra_ver v) = map int ts"
    using scan_ints_text [of cs "''..-.''" rest] scan_ints_text [of ts "''..-.''" "[]"] assms by (simp_all add: not_digit)
  then have "(tst_kvexcmp (extra_ver v) kver < 0 \<longleftrightarrow> cs < ts) \<and> (tst_kvexcmp (extra_ver v) kver = 0 \<longleftrightarrow> cs = ts)"
    using first_diff_order [of cs ts] assms(1-4) by (simp add: tst_kvexcmp_def)
  then show ?thesis using assms(7,8) by (simp add: tst_kvercmp2_def)
qed

lemma distname_sample:
  "tst_kvcmp_distname None (ver_text ''..-.'' [5, 14, 0, 427, 13] @ ''.el9_4'') = Inr (Some ''RHEL9'')"
  "tst_kvcmp_distname (Some (''NAME=x'' @ CHR 0x0A # ''ID='' @ CHR 0x22 # ''sles'' @ [CHR 0x22, CHR 0x0A])) ''5.14.21'' = Inr (Some ''SLES'')"
  by code_simp+

theorem kvercmp2_vendor_witness:
  "\<exists>r ms. tst_kvercmp2 None (ver_text ''..-.'' [5, 14, 0, 427, 13] @ ''.el9_4'') 6 1 0
      [\<lparr>dist_name = ''RHEL9'', extra_ver = ver_text ''..-.'' [5, 14, 0, 427, 9]\<rparr>] = Inr (r, ms) \<and> 0 < r"
proof -
  obtain r ms where "tst_kvercmp2 None (ver_text ''..-.'' [5, 14, 0, 427, 13] @ ''.el9_4'') 6 1 0
      [\<lparr>dist_name = ''RHEL9'', extra_ver = ver_text ''..-.'' [5, 14, 0, 427, 9]\<rparr>] = Inr (r, ms)"
    "\<not> r < 0" "r \<noteq> 0"
    using kvercmp2_vendor [OF _ _ _ _ refl _ distname_sample(1), of "[5, 14, 0, 427, 9]"
        "[\<lparr>dist_name = ''RHEL9'', extra_ver = ver_text ''..-.'' [5, 14, 0, 427, 9]\<rparr>]"
        "\<lparr>dist_name = ''RHEL9'', extra_ver = ver_text ''..-.'' [5, 14, 0, 427, 9]\<rparr>" 6 1 0]
    by (auto simp: not_digit)
  then show ?thesis by (intro exI [of _ r] exI [of _ ms]) simp
qed

end
