(* ===== verification/Test_Run.thy ===== *)
theory Test_Run
  imports Test_Result Kvercmp
begin

text \<open>
  The processes of a test (\<open>lib/tst_test.c\<close>): the library process forks a main test process for every
  variant and file system, waits for it and turns what it left in shared memory into the exit code.

  What the callbacks of the test and its child processes do is a parameter: for every call of a
  callback the list of what the main process and its descendants do to the shared memory until it
  returns, in the order in which it takes effect. The same holds for the functions of the library
  that only report results or end the process. Beside the variables of the source the state records the results in the order of
  their reports, and the forks, the calls of the callbacks and the settings of the abort flag. The library process is assumed to live, so that \<open>heartbeat()\<close> only restarts its timer.
\<close>

section \<open>State\<close>

datatype wstatus = Exited int | Signaled int | Other_status

datatype action =
    Res int        \<comment> \<open>\<open>tst_res()\<close> in any process of the test\<close>
  | Main_brk int   \<comment> \<open>\<open>tst_brk()\<close> in the process itself\<close>
  | Child_brk int  \<comment> \<open>\<open>tst_brk()\<close> in a descendant of the main process\<close>
  | Exits int      \<comment> \<open>the process calls \<open>exit()\<close>\<close>
  | Dies int       \<comment> \<open>a signal ends the process\<close>

datatype callback = Started | Setup | Test_all | Test nat | Cleanup | Aborted

text \<open>Results of \<open>wait()\<close>, and what happens meanwhile; without further children it fails with \<open>ECHILD\<close>.\<close>

datatype wait_result = Reaped wstatus | Interrupted | Wait_error | Meanwhile action

text \<open>The description of the test, with the settings of the command line (the duration in milliseconds).\<close>

record tst_fs =
  fs_type :: "string option"
  mkfs_ver :: "string option"
  min_kver :: "string option"

record test_desc =
  tcnt :: nat
  has_test :: bool
  has_setup :: bool
  has_cleanup :: bool
  forks_child :: bool
  all_filesystems :: bool
  skip_filesystems :: "string list option"
  taint_check :: "32 word"
  test_variants :: nat
  filesystems :: "tst_fs list option"
  iterations :: nat
  duration :: "nat option"

record behaviour =
  does :: "nat \<Rightarrow> callback \<Rightarrow> action list"
  reaps :: "nat \<Rightarrow> wait_result list"
  late :: "nat \<Rightarrow> action list"
  fork_ok :: "nat \<Rightarrow> bool"
  clock :: "nat \<Rightarrow> nat option"
  cur_fs :: string
  caps_req :: "action list"
  caps_drop :: "action list"
  tainted :: "nat \<Rightarrow> 32 word"
  release :: string
  check_cmd :: "string \<Rightarrow> bool \<times> action list"
  prepare_device :: "string \<Rightarrow> action list"
  fs_support :: "string \<Rightarrow> nat"
  only_fs :: "string option"
  force_only_fs :: "string option"

record run_state =
  counters :: results
  abort_flag :: int
  ticks :: nat
  taint_mask :: "32 word"
  fs_types :: "string list"
  logged :: "int list"
  trace :: "callback list"

definition SIGKILL :: int where "SIGKILL = 9"

text \<open>\<open>update_results()\<close> on the counters in shared memory.\<close>

definition report :: "int \<Rightarrow> run_state \<Rightarrow> run_state" where
  "report ttype st = st\<lparr>counters := the (update_results ttype (Some (counters st))), logged := logged st @ [ttype]\<rparr>"

definition set_abort :: "run_state \<Rightarrow> run_state" where
  "set_abort st = st\<lparr>abort_flag := tst_atomic_inc (abort_flag st), trace := trace st @ [Aborted]\<rparr>"

section \<open>The main test process\<close>

text \<open>
  \<open>tst_vbrk_()\<close> in a descendant counts the result and, for a broken test, sets the flag and kills the main process.
  The functions return how the main process ended, or that it goes on.
\<close>

definition child_brk :: "int \<Rightarrow> run_state \<Rightarrow> run_state \<times> wstatus option" where
  "child_brk ttype st =
     (let r = TTYPE_RESULT ttype; st = report r st in
      if r = TBROK then (set_abort st, Some (Signaled SIGKILL)) else (st, None))"

text \<open>In the cleanup function \<open>tst_brk()\<close> is \<open>tst_cvres()\<close>, which returns.\<close>

definition cvres_type :: "int \<Rightarrow> int" where
  "cvres_type ttype = (if TTYPE_RESULT ttype = TBROK then TWARN else TTYPE_RESULT ttype)"

fun in_cleanup :: "action list \<Rightarrow> run_state \<Rightarrow> run_state \<times> wstatus option" where
  "in_cleanup [] st = (st, None)"
| "in_cleanup (Res t # as) st = in_cleanup as (report (TTYPE_RESULT t) st)"
| "in_cleanup (Main_brk t # as) st = in_cleanup as (report (cvres_type t) st)"
| "in_cleanup (Child_brk t # as) st =
     (case child_brk t st of (st, None) \<Rightarrow> in_cleanup as st | r \<Rightarrow> r)"
| "in_cleanup (Exits n # as) st = (st, Some (Exited n))"
| "in_cleanup (Dies n # as) st = (st, Some (Signaled n))"

definition do_test_cleanup :: "test_desc \<Rightarrow> behaviour \<Rightarrow> run_state \<Rightarrow> run_state \<times> wstatus option" where
  "do_test_cleanup T B st =
     (if has_cleanup T then in_cleanup (does B (length (trace st)) Cleanup) (st\<lparr>trace := trace st @ [Cleanup]\<rparr>) else (st, None))"

text \<open>\<open>tst_vbrk_()\<close> in the main process.\<close>

definition main_brk :: "test_desc \<Rightarrow> behaviour \<Rightarrow> int \<Rightarrow> run_state \<Rightarrow> run_state \<times> wstatus" where
  "main_brk T B ttype st =
     (let r = TTYPE_RESULT ttype in
      case do_test_cleanup T B (report r st) of
        (st, Some w) \<Rightarrow> (st, w)
      | (st, None) \<Rightarrow> (if r = TBROK then set_abort st else st, Exited 0))"

definition ends :: "run_state \<times> wstatus \<Rightarrow> run_state \<times> wstatus option" where
  "ends r = (fst r, Some (snd r))"

fun in_test :: "test_desc \<Rightarrow> behaviour \<Rightarrow> action list \<Rightarrow> run_state \<Rightarrow> run_state \<times> wstatus option" where
  "in_test T B [] st = (st, None)"
| "in_test T B (Res t # as) st = in_test T B as (report (TTYPE_RESULT t) st)"
| "in_test T B (Main_brk t # as) st = ends (main_brk T B t st)"
| "in_test T B (Child_brk t # as) st =
     (case child_brk t st of (st, None) \<Rightarrow> in_test T B as st | r \<Rightarrow> r)"
| "in_test T B (Exits n # as) st = (st, Some (Exited n))"
| "in_test T B (Dies n # as) st = (st, Some (Signaled n))"

definition run_callback :: "test_desc \<Rightarrow> behaviour \<Rightarrow> callback \<Rightarrow> run_state \<Rightarrow> run_state \<times> wstatus option" where
  "run_callback T B c st = in_test T B (does B (length (trace st)) c) (st\<lparr>trace := trace st @ [c]\<rparr>)"

definition and_go :: "run_state \<times> wstatus option \<Rightarrow> (run_state \<Rightarrow> run_state \<times> wstatus option) \<Rightarrow> run_state \<times> wstatus option" where
  "and_go r f = (case r of (st, None) \<Rightarrow> f st | _ \<Rightarrow> r)"

definition check_child_status :: "wstatus \<Rightarrow> bool" where
  "check_child_status w = (case w of Signaled _ \<Rightarrow> False | Other_status \<Rightarrow> False | Exited n \<Rightarrow> n = 0)"

fun tst_reap_children :: "test_desc \<Rightarrow> behaviour \<Rightarrow> wait_result list \<Rightarrow> run_state \<Rightarrow> run_state \<times> wstatus option" where
  "tst_reap_children T B [] st = (st, None)"
| "tst_reap_children T B (Reaped w # rs) st =
     (if check_child_status w then tst_reap_children T B rs st else ends (main_brk T B TBROK st))"
| "tst_reap_children T B (Interrupted # rs) st = tst_reap_children T B rs st"
| "tst_reap_children T B (Wait_error # rs) st = ends (main_brk T B TBROK st)"
| "tst_reap_children T B (Meanwhile a # rs) st = and_go (in_test T B [a] st) (tst_reap_children T B rs)"

definition results_equal :: "results \<Rightarrow> results \<Rightarrow> bool" where
  "results_equal a b \<longleftrightarrow> passed a = passed b \<and> failed a = failed b \<and> skipped a = skipped b \<and> broken a = broken b"

text \<open>A call of the test function, its children, and the check that it has reported something.\<close>

definition run_one :: "test_desc \<Rightarrow> behaviour \<Rightarrow> callback \<Rightarrow> run_state \<Rightarrow> run_state \<times> wstatus option" where
  "run_one T B c st =
     (let saved_results = counters st in
      and_go (run_callback T B c st) (\<lambda>st.
      and_go (tst_reap_children T B (reaps B (length (trace st))) st) (\<lambda>st.
      if results_equal saved_results (counters st) then ends (main_brk T B TBROK st) else (st, None))))"

fun tests_loop :: "test_desc \<Rightarrow> behaviour \<Rightarrow> nat list \<Rightarrow> run_state \<Rightarrow> run_state \<times> wstatus option" where
  "tests_loop T B [] st = (st, None)"
| "tests_loop T B (i # is) st = and_go (run_one T B (Test i) st) (tests_loop T B is)"

definition run_tests :: "test_desc \<Rightarrow> behaviour \<Rightarrow> run_state \<Rightarrow> run_state \<times> wstatus option" where
  "run_tests T B st = (if \<not> has_test T then run_one T B Test_all st else tests_loop T B [0..<tcnt T] st)"

definition tst_fs_in_skiplist :: "string \<Rightarrow> string list option \<Rightarrow> bool" where
  "tst_fs_in_skiplist fs skiplist = (case skiplist of None \<Rightarrow> False | Some l \<Rightarrow> fs \<in> set l)"

text \<open>The capabilities are requested before and dropped after the setup function.\<close>

definition do_test_setup :: "test_desc \<Rightarrow> behaviour \<Rightarrow> run_state \<Rightarrow> run_state \<times> wstatus option" where
  "do_test_setup T B st =
     (if \<not> all_filesystems T \<and> tst_fs_in_skiplist (cur_fs B) (skip_filesystems T) then ends (main_brk T B TCONF st)
      else and_go (in_test T B (caps_req B) st) (\<lambda>st.
        and_go (if has_setup T then run_callback T B Setup st else (st, None)) (\<lambda>st.
        in_test T B (caps_drop B) st)))"

definition get_time_ms :: "test_desc \<Rightarrow> behaviour \<Rightarrow> run_state \<Rightarrow> (run_state \<times> wstatus) + (nat \<times> run_state)" where
  "get_time_ms T B st =
     (case clock B (ticks st) of
        None \<Rightarrow> Inl (main_brk T B TBROK (st\<lparr>ticks := ticks st + 1\<rparr>))
      | Some t \<Rightarrow> Inr (t, st\<lparr>ticks := ticks st + 1\<rparr>))"

text \<open>The loop of \<open>testrun()\<close>; without a duration \<open>stop_time\<close> is 0.\<close>

definition more_time :: "test_desc \<Rightarrow> behaviour \<Rightarrow> nat \<Rightarrow> run_state \<Rightarrow> (run_state \<times> wstatus) + (bool \<times> run_state)" where
  "more_time T B stop_time st =
     (if stop_time = 0 then Inr (False, st)
      else case get_time_ms T B st of Inl e \<Rightarrow> Inl e | Inr (t, st) \<Rightarrow> Inr (t < stop_time, st))"

partial_function (option) test_loop :: "test_desc \<Rightarrow> behaviour \<Rightarrow> nat \<Rightarrow> nat \<Rightarrow> run_state \<Rightarrow> (run_state \<times> wstatus option) option" where
  "test_loop T B stop_time i st =
     (case more_time T B stop_time st of
        Inl e \<Rightarrow> Some (ends e)
      | Inr (more_t, st) \<Rightarrow>
          if \<not> i < iterations T \<and> \<not> more_t then Some (st, None)
          else case run_tests T B st of
            (st, Some w) \<Rightarrow> Some (st, Some w)
          | (st, None) \<Rightarrow> test_loop T B stop_time (if i < iterations T then i + 1 else i) st)"

definition after_setup :: "test_desc \<Rightarrow> behaviour \<Rightarrow> run_state \<Rightarrow> (run_state \<times> wstatus option) option" where
  "after_setup T B st =
     (case duration T of
        None \<Rightarrow> test_loop T B 0 0 st
      | Some ms \<Rightarrow> (case get_time_ms T B st of Inl e \<Rightarrow> Some (ends e) | Inr (t, st) \<Rightarrow> test_loop T B (t + ms) 0 st))"

definition testrun :: "test_desc \<Rightarrow> behaviour \<Rightarrow> run_state \<Rightarrow> (run_state \<times> wstatus) option" where
  "testrun T B st =
     (case do_test_setup T B st of
        (st, Some w) \<Rightarrow> Some (st, w)
      | (st, None) \<Rightarrow>
          map_option (\<lambda>r. case r of
              (st, Some w) \<Rightarrow> (st, w)
            | (st, None) \<Rightarrow> (case do_test_cleanup T B st of (st, Some w) \<Rightarrow> (st, w) | (st, None) \<Rightarrow> (st, Exited 0)))
            (after_setup T B st))"

section \<open>The library process\<close>

text \<open>It goes on, has ended with an exit code, or has left an array.\<close>

datatype lib = Cont run_state | Quit int run_state | Undefined

definition do_exit :: "int \<Rightarrow> run_state \<Rightarrow> lib" where
  "do_exit ret st = Quit (fst (exit_code False None False (Some (counters st)) ret)) st"

definition lib_brk :: "int \<Rightarrow> run_state \<Rightarrow> lib" where
  "lib_brk ttype st = (let r = TTYPE_RESULT ttype in do_exit r (report r st))"

text \<open>What other functions of the library do: they report, and may end the process.\<close>

fun lib_actions :: "action list \<Rightarrow> run_state \<Rightarrow> lib" where
  "lib_actions [] st = Cont st"
| "lib_actions (Main_brk t # as) st = lib_brk t st"
| "lib_actions (Exits n # as) st = Quit n st"
| "lib_actions (Res t # as) st = lib_actions as (report (TTYPE_RESULT t) st)"
| "lib_actions (_ # as) st = lib_actions as st"

text \<open>Descendants that outlive the main process, until they are killed.\<close>

fun late_actions :: "action list \<Rightarrow> run_state \<Rightarrow> run_state" where
  "late_actions [] st = st"
| "late_actions (Res t # as) st = late_actions as (report (TTYPE_RESULT t) st)"
| "late_actions (Child_brk t # as) st = late_actions as (fst (child_brk t st))"
| "late_actions (_ # as) st = late_actions as st"

definition tst_taint_check :: "32 word \<Rightarrow> run_state \<Rightarrow> 32 word option" where
  "tst_taint_check taint st = (if taint_mask st = - 1 then None else Some (taint AND taint_mask st))"

text \<open>The part of \<open>fork_testrun()\<close> behind \<open>waitpid()\<close>.\<close>

definition check_status :: "wstatus \<Rightarrow> run_state \<Rightarrow> lib" where
  "check_status status st =
     (case status of
        Exited n \<Rightarrow> if n \<noteq> 0 then lib_brk TBROK st else Cont st
      | Signaled s \<Rightarrow> if abort_flag st \<noteq> 0 then Cont st else lib_brk TBROK st
      | Other_status \<Rightarrow> Cont st)"

definition after_wait :: "test_desc \<Rightarrow> behaviour \<Rightarrow> wstatus \<Rightarrow> run_state \<Rightarrow> lib" where
  "after_wait T B status st =
     (if taint_check T \<noteq> 0 then
        case tst_taint_check (tainted B (length (trace st))) st of
          None \<Rightarrow> lib_brk TBROK st
        | Some taint \<Rightarrow> if taint \<noteq> 0 then Cont (report TFAIL st) else check_status status st
      else check_status status st)"

definition fork_testrun :: "test_desc \<Rightarrow> behaviour \<Rightarrow> run_state \<Rightarrow> lib option" where
  "fork_testrun T B st =
     (if \<not> fork_ok B (length (trace st)) then Some (lib_brk TBROK st)
      else map_option (\<lambda>(st, status). after_wait T B status (late_actions (late B (length (trace st))) st))
        (testrun T B (st\<lparr>trace := trace st @ [Started]\<rparr>)))"

section \<open>File systems\<close>

definition fs_type_whitelist :: "string list" where
  "fs_type_whitelist = [''ext2'', ''ext3'', ''ext4'', ''xfs'', ''btrfs'', ''bcachefs'', ''vfat'', ''exfat'', ''ntfs'', ''tmpfs'']"

text \<open>\<open>enum tst_fs_impl\<close>: 0 unsupported, 1 by the kernel, 2 by FUSE.\<close>

definition fs_could_be_used :: "behaviour \<Rightarrow> string \<Rightarrow> string list option \<Rightarrow> bool \<Rightarrow> bool" where
  "fs_could_be_used B fs skiplist skip_fuse =
     (if tst_fs_in_skiplist fs skiplist then False
      else let sup = fs_support B fs in if skip_fuse \<and> sup = 2 then False else sup \<noteq> 0)"

text \<open>The result is kept in a static array, whose entries behind the new ones stay.\<close>

definition tst_get_supported_fs_types :: "behaviour \<Rightarrow> string list option \<Rightarrow> string list \<Rightarrow> string list option" where
  "tst_get_supported_fs_types B skiplist arr =
     (if only_fs B \<noteq> None \<and> force_only_fs B \<noteq> None then None
      else let skip_fuse = tst_fs_in_skiplist ''fuse'' skiplist; keep = (\<lambda>new. new @ drop (length new) arr) in
        case only_fs B of
          Some fs \<Rightarrow>
            if fs \<noteq> [] then Some (keep (if fs_could_be_used B fs skiplist skip_fuse then [fs] else []))
            else Some (keep (filter (\<lambda>fs. fs_could_be_used B fs skiplist skip_fuse) fs_type_whitelist))
        | None \<Rightarrow>
            (case force_only_fs B of
               Some fs \<Rightarrow> Some (keep [fs])
             | None \<Rightarrow> Some (keep (filter (\<lambda>fs. fs_could_be_used B fs skiplist skip_fuse) fs_type_whitelist))))"

text \<open>The array of file system descriptions with its terminating entry.\<close>

fun typed_prefix :: "tst_fs list \<Rightarrow> nat option" where
  "typed_prefix [] = None"
| "typed_prefix (e # es) = (if fs_type e = None then Some 0 else map_option Suc (typed_prefix es))"

definition count_fs_descs :: "tst_fs list option \<Rightarrow> nat option" where
  "count_fs_descs fss =
     (case fss of
        None \<Rightarrow> Some 0
      | Some [] \<Rightarrow> None
      | Some (e # es) \<Rightarrow> if fs_type e = None then map_option Suc (typed_prefix es) else typed_prefix (e # es))"

fun fs_loop :: "string \<Rightarrow> tst_fs list \<Rightarrow> tst_fs option option" where
  "fs_loop fs [] = None"
| "fs_loop fs (e # es) =
     (case fs_type e of None \<Rightarrow> Some None | Some t \<Rightarrow> if fs = t then Some (Some e) else fs_loop fs es)"

definition empty_fs :: tst_fs where
  "empty_fs = \<lparr>fs_type = None, mkfs_ver = None, min_kver = None\<rparr>"

text \<open>\<open>None\<close> is a read behind the array, \<open>Some None\<close> the null pointer.\<close>

definition lookup_fs_desc :: "tst_fs list option \<Rightarrow> string \<Rightarrow> bool \<Rightarrow> tst_fs option option" where
  "lookup_fs_desc fss fs all_fs =
     (let ret = (if \<not> all_fs then None
                 else case fss of None \<Rightarrow> Some empty_fs | Some l \<Rightarrow> if fs_type (hd l) \<noteq> None then Some empty_fs else Some (hd l)) in
      case fss of
        None \<Rightarrow> Some ret
      | Some l \<Rightarrow> (case fs_loop fs l of None \<Rightarrow> None | Some (Some e) \<Rightarrow> Some (Some e) | Some None \<Rightarrow> Some ret))"

definition kver_ok :: "behaviour \<Rightarrow> string \<Rightarrow> run_state \<Rightarrow> bool \<times> run_state" where
  "kver_ok B kver st =
     (case tst_parse_kver kver of (ret, v1, v2, v3) \<Rightarrow>
      let st = (if ret \<noteq> 0 then report TWARN st else st) in
      case tst_kvercmp (release B) v1 v2 v3 of (c, ms) \<Rightarrow> (\<not> c < 0, fold (\<lambda>_. report TWARN) ms st))"

definition check_kver :: "behaviour \<Rightarrow> string \<Rightarrow> bool \<Rightarrow> run_state \<Rightarrow> lib \<times> bool" where
  "check_kver B kver brk_nosupp st =
     (case kver_ok B kver st of (ok, st) \<Rightarrow>
      if ok then (Cont st, True) else (if brk_nosupp then lib_brk TCONF st else Cont (report TCONF st), False))"

definition run_tcase_on_fs :: "test_desc \<Rightarrow> behaviour \<Rightarrow> tst_fs \<Rightarrow> string \<Rightarrow> run_state \<Rightarrow> lib option" where
  "run_tcase_on_fs T B fs type st =
     (let (ok, as) = (case mkfs_ver fs of None \<Rightarrow> (True, []) | Some v \<Rightarrow> check_cmd B v) in
      case lib_actions as st of
        Cont st \<Rightarrow>
          if \<not> ok then Some (Cont st)
          else (case (case min_kver fs of None \<Rightarrow> (Cont st, True) | Some v \<Rightarrow> check_kver B v False st) of
              (Cont st, True) \<Rightarrow>
                (case lib_actions (prepare_device B type) st of
                   Cont st \<Rightarrow> fork_testrun T B st
                 | l \<Rightarrow> Some l)
            | (l, _) \<Rightarrow> Some l)
      | l \<Rightarrow> Some l)"

fun fs_runs :: "test_desc \<Rightarrow> behaviour \<Rightarrow> string list \<Rightarrow> bool \<Rightarrow> run_state \<Rightarrow> lib option" where
  "fs_runs T B [] found_valid_fs st =
     Some (if found_valid_fs then Cont st else lib_brk TCONF st)"
| "fs_runs T B (type # types) found_valid_fs st =
     (case lookup_fs_desc (filesystems T) type (all_filesystems T) of
        None \<Rightarrow> Some Undefined
      | Some None \<Rightarrow> fs_runs T B types found_valid_fs st
      | Some (Some fs) \<Rightarrow>
          Option.bind (run_tcase_on_fs T B fs type st) (\<lambda>l. case l of
            Cont st \<Rightarrow> if abort_flag st \<noteq> 0 then Some (do_exit 0 st) else fs_runs T B types True st
          | l \<Rightarrow> Some l))"

definition run_tcases_per_fs :: "test_desc \<Rightarrow> behaviour \<Rightarrow> run_state \<Rightarrow> lib option" where
  "run_tcases_per_fs T B st =
     (case tst_get_supported_fs_types B (skip_filesystems T) (fs_types st) of
        None \<Rightarrow> Some (lib_brk TBROK st)
      | Some types \<Rightarrow>
          let st = st\<lparr>fs_types := types\<rparr> in
          if types = [] then Some (lib_brk TCONF st) else fs_runs T B types False st)"

section \<open>All variants\<close>

fun variants_loop :: "test_desc \<Rightarrow> behaviour \<Rightarrow> nat \<Rightarrow> run_state \<Rightarrow> lib option" where
  "variants_loop T B 0 st = Some (do_exit 0 st)"
| "variants_loop T B (Suc n) st =
     (case (if all_filesystems T then Some 2 else count_fs_descs (filesystems T)) of
        None \<Rightarrow> Some Undefined
      | Some k \<Rightarrow>
          Option.bind (if k > 1 then run_tcases_per_fs T B st
                       else fork_testrun T B st) (\<lambda>l. case l of
            Cont st \<Rightarrow> if abort_flag st \<noteq> 0 then Some (do_exit 0 st)
                       else variants_loop T B n st
          | l \<Rightarrow> Some l))"

definition init_state :: run_state where
  "init_state = \<lparr>counters = \<lparr>passed = 0, skipped = 0, failed = 0, warnings = 0, broken = 0\<rparr>, abort_flag = 0, ticks = 0,
     taint_mask = - 1, fs_types = [], logged = [], trace = []\<rparr>"

text \<open>What happens before the first fork is given by its actions and the taint mask it leaves.\<close>

definition tst_run_tcases :: "test_desc \<Rightarrow> behaviour \<Rightarrow> action list \<Rightarrow> 32 word \<Rightarrow> lib option" where
  "tst_run_tcases T B setup_actions tmask =
     (case lib_actions setup_actions init_state of
        Cont st \<Rightarrow>
          variants_loop T B (if test_variants T \<noteq> 0 then test_variants T else 1)
            (st\<lparr>taint_mask := tmask\<rparr>)
      | l \<Rightarrow> Some l)"

section \<open>Counters\<close>

definition tally :: "int \<Rightarrow> results \<Rightarrow> results" where
  "tally t r = the (update_results t (Some r))"

definition no_results :: results where
  "no_results = \<lparr>passed = 0, skipped = 0, failed = 0, warnings = 0, broken = 0\<rparr>"

lemma c_int_add: "c_int (c_int a + b) = c_int (a + b)"
proof -
  have "take_bit 32 (signed_take_bit 31 a) = take_bit 32 a" by (simp add: take_bit_signed_take_bit)
  then have "take_bit 32 (signed_take_bit 31 a + b) = take_bit 32 (a + b)" by (metis take_bit_add)
  then show ?thesis by (simp add: c_int_def signed_take_bit_eq_iff_take_bit_eq)
qed

lemma flags_distinct [simp]:
  "TPASS \<noteq> TFAIL" "TPASS \<noteq> TBROK" "TPASS \<noteq> TWARN" "TPASS \<noteq> TCONF" "TFAIL \<noteq> TPASS" "TFAIL \<noteq> TBROK" "TFAIL \<noteq> TWARN" "TFAIL \<noteq> TCONF"
  "TBROK \<noteq> TPASS" "TBROK \<noteq> TFAIL" "TBROK \<noteq> TWARN" "TBROK \<noteq> TCONF" "TWARN \<noteq> TPASS" "TWARN \<noteq> TFAIL" "TWARN \<noteq> TBROK" "TWARN \<noteq> TCONF"
  "TCONF \<noteq> TPASS" "TCONF \<noteq> TFAIL" "TCONF \<noteq> TBROK" "TCONF \<noteq> TWARN" "TBROK \<noteq> 0" "TCONF \<noteq> 0"
  by (simp_all add: flag_defs)

lemma tally_fields:
  "passed (tally t r) = (if t = TPASS then c_int (passed r + 1) else passed r)"
  "skipped (tally t r) = (if t = TCONF then c_int (skipped r + 1) else skipped r)"
  "failed (tally t r) = (if t = TFAIL then c_int (failed r + 1) else failed r)"
  "warnings (tally t r) = (if t = TWARN then c_int (warnings r + 1) else warnings r)"
  "broken (tally t r) = (if t = TBROK then c_int (broken r + 1) else broken r)"
  by (simp_all add: tally_def update_results_def tst_atomic_inc_def)

text \<open>A counter that one type of result increments.\<close>

lemma fold_counter:
  assumes "\<And>u r. f (tally u r) = (if u = t then c_int (f r + 1) else f r)" "f r = c_int a"
  shows "f (fold tally l r) = c_int (a + int (count_list l t))"
  using assms(2)
proof (induction l arbitrary: r a)
  case (Cons u l)
  show ?case
  proof (cases "u = t")
    case True
    then have "f (tally u r) = c_int (a + 1)" using Cons.prems assms(1) by (simp add: c_int_add)
    then show ?thesis using Cons.IH [of "tally u r" "a + 1"] True by (simp add: algebra_simps)
  next
    case False
    then show ?thesis using Cons.IH [of "tally u r" a] Cons.prems assms(1) by simp
  qed
qed simp

lemma counted:
  "passed (fold tally l no_results) = c_int (int (count_list l TPASS))"
  "skipped (fold tally l no_results) = c_int (int (count_list l TCONF))"
  "failed (fold tally l no_results) = c_int (int (count_list l TFAIL))"
  "warnings (fold tally l no_results) = c_int (int (count_list l TWARN))"
  "broken (fold tally l no_results) = c_int (int (count_list l TBROK))"
proof -
  have z: "c_int 0 = 0" by (simp add: c_int_id)
  show "passed (fold tally l no_results) = c_int (int (count_list l TPASS))"
    using fold_counter [of passed TPASS no_results 0 l] by (simp add: tally_fields no_results_def z)
  show "skipped (fold tally l no_results) = c_int (int (count_list l TCONF))"
    using fold_counter [of skipped TCONF no_results 0 l] by (simp add: tally_fields no_results_def z)
  show "failed (fold tally l no_results) = c_int (int (count_list l TFAIL))"
    using fold_counter [of failed TFAIL no_results 0 l] by (simp add: tally_fields no_results_def z)
  show "warnings (fold tally l no_results) = c_int (int (count_list l TWARN))"
    using fold_counter [of warnings TWARN no_results 0 l] by (simp add: tally_fields no_results_def z)
  show "broken (fold tally l no_results) = c_int (int (count_list l TBROK))"
    using fold_counter [of broken TBROK no_results 0 l] by (simp add: tally_fields no_results_def z)
qed

lemma count_nonzero: "length l < 2 ^ 31 \<Longrightarrow> c_int (int (count_list l t)) \<noteq> 0 \<longleftrightarrow> t \<in> set l"
proof -
  assume "length l < 2 ^ 31"
  then have "int (count_list l t) < 2147483648" using count_le_length [of l t] by simp
  then show ?thesis by (simp add: c_int_id count_list_0_iff)
qed

section \<open>Steps of the main process\<close>

text \<open>What changes from one state to a later one: results are added and counted, calls are added, and the
  abort flag counts its settings.\<close>

definition steps :: "run_state \<Rightarrow> int list \<Rightarrow> callback list \<Rightarrow> run_state \<Rightarrow> bool" where
  "steps st l tr st' \<longleftrightarrow> logged st' = logged st @ l \<and> counters st' = fold tally l (counters st) \<and> trace st' = trace st @ tr
     \<and> abort_flag st' = (tst_atomic_inc ^^ count_list tr Aborted) (abort_flag st) \<and> ticks st \<le> ticks st' \<and> taint_mask st' = taint_mask st"

lemma steps_refl [simp, intro]: "steps st [] [] st"
  by (simp add: steps_def)

lemma steps_trans: "steps st l tr st' \<Longrightarrow> steps st' l' tr' st'' \<Longrightarrow> steps st (l @ l') (tr @ tr') st''"
  by (auto simp: steps_def) (metis add.commute comp_apply funpow_add)

lemma steps_report [simp, intro]: "steps st [t] [] (report t st)"
  by (simp add: steps_def report_def tally_def)

lemma steps_abort [simp, intro]: "steps st [] [Aborted] (set_abort st)"
  by (simp add: steps_def set_abort_def)

lemma steps_call [simp, intro]: "c \<noteq> Aborted \<Longrightarrow> steps st [] [c] (st\<lparr>trace := trace st @ [c]\<rparr>)"
  by (simp add: steps_def)

lemma steps_tick [simp, intro]: "ticks st \<le> n \<Longrightarrow> steps st [] [] (st\<lparr>ticks := n\<rparr>)"
  by (simp add: steps_def)

definition quiet :: "callback list \<Rightarrow> bool" where
  "quiet tr \<longleftrightarrow> Started \<notin> set tr \<and> Cleanup \<notin> set tr \<and> Aborted \<notin> set tr"

text \<open>The calls of a process up to its end. Unless the test itself calls \<open>exit()\<close>, a process that exits has run the cleanup function.\<close>

definition ended :: "bool \<Rightarrow> test_desc \<Rightarrow> callback list \<Rightarrow> wstatus \<Rightarrow> bool" where
  "ended tidy T tr w \<longleftrightarrow> (\<exists>q c a. quiet q \<and> tr = q @ c @ a \<and> (c = [] \<or> c = [Cleanup]) \<and> (a = [] \<or> a = [Aborted])
     \<and> (tidy \<and> (\<exists>n. w = Exited n) \<longrightarrow> c = (if has_cleanup T then [Cleanup] else [])))"

definition main_ok :: "bool \<Rightarrow> test_desc \<Rightarrow> run_state \<Rightarrow> run_state \<times> wstatus option \<Rightarrow> bool" where
  "main_ok tidy T st r \<longleftrightarrow> (\<exists>l tr. steps st l tr (fst r) \<and> (case snd r of None \<Rightarrow> quiet tr | Some w \<Rightarrow> ended tidy T tr w))"

lemma quiet_append [simp]: "quiet (a @ b) \<longleftrightarrow> quiet a \<and> quiet b" "quiet []" "quiet [Setup]" "quiet [Test_all]" "quiet [Test i]"
  by (auto simp: quiet_def)

lemma ended_append: "quiet a \<Longrightarrow> ended tidy T b w \<Longrightarrow> ended tidy T (a @ b) w"
proof -
  assume a: "quiet a" and "ended tidy T b w"
  then obtain q c x where b: "quiet q" "b = q @ c @ x" "c = [] \<or> c = [Cleanup]" "x = [] \<or> x = [Aborted]"
    "tidy \<and> (\<exists>n. w = Exited n) \<longrightarrow> c = (if has_cleanup T then [Cleanup] else [])" unfolding ended_def by blast
  then have "quiet (a @ q)" "a @ b = (a @ q) @ c @ x" using a by simp_all
  then show ?thesis unfolding ended_def using b(3-5) by blast
qed

lemma main_ok_trans:
  "steps st l tr st' \<Longrightarrow> quiet tr \<Longrightarrow> main_ok tidy T st' r \<Longrightarrow> main_ok tidy T st r"
proof -
  assume s: "steps st l tr st'" "quiet tr" and "main_ok tidy T st' r"
  then obtain l' tr' where r: "steps st' l' tr' (fst r)" "case snd r of None \<Rightarrow> quiet tr' | Some w \<Rightarrow> ended tidy T tr' w"
    unfolding main_ok_def by blast
  have "case snd r of None \<Rightarrow> quiet (tr @ tr') | Some w \<Rightarrow> ended tidy T (tr @ tr') w"
    using r(2) s(2) ended_append by (auto split: option.splits)
  then show ?thesis unfolding main_ok_def using steps_trans [OF s(1) r(1)] by blast
qed

lemma main_ok_and_go:
  assumes "main_ok tidy T st r" "\<And>st'. r = (st', None) \<Longrightarrow> main_ok tidy T st' (f st')"
  shows "main_ok tidy T st (and_go r f)"
proof (cases r)
  case (Pair st' w)
  show ?thesis
  proof (cases w)
    case None
    then obtain l tr where "steps st l tr st'" "quiet tr" using assms(1) Pair by (auto simp: main_ok_def)
    then show ?thesis using assms(2) Pair None main_ok_trans by (simp add: and_go_def)
  qed (use assms(1) Pair in \<open>simp add: and_go_def\<close>)
qed

lemma main_ok_seq: "main_ok tidy T st (st', None) \<Longrightarrow> main_ok tidy T st' r \<Longrightarrow> main_ok tidy T st r"
proof -
  assume "main_ok tidy T st (st', None)" and r: "main_ok tidy T st' r"
  then obtain l tr where "steps st l tr st'" "quiet tr" by (auto simp: main_ok_def)
  then show ?thesis using r by (rule main_ok_trans)
qed

lemma main_ok_here: "main_ok tidy T st (st, None)"
  unfolding main_ok_def by (rule exI [of _ "[]"], rule exI [of _ "[]"]) simp

lemma main_ok_report: "main_ok tidy T (report t st) r \<Longrightarrow> main_ok tidy T st r"
  using main_ok_trans [OF steps_report] by simp

definition tidy :: "behaviour \<Rightarrow> bool" where
  "tidy B \<longleftrightarrow> (\<forall>x. (\<forall>n c. Exits x \<notin> set (does B n c)) \<and> Exits x \<notin> set (caps_req B) \<and> Exits x \<notin> set (caps_drop B)
     \<and> (\<forall>n. Meanwhile (Exits x) \<notin> set (reaps B n)))"

lemma child_brk_steps:
  "\<exists>l a. steps st l a (fst (child_brk t st)) \<and> (if snd (child_brk t st) = None then a = [] else a = [Aborted] \<and> snd (child_brk t st) = Some (Signaled SIGKILL))"
proof -
  have "steps st [TTYPE_RESULT t] [Aborted] (set_abort (report (TTYPE_RESULT t) st))"
    using steps_trans [OF steps_report steps_abort] by simp
  then show ?thesis using steps_report by (auto simp: child_brk_def Let_def)
qed

lemma in_cleanup_steps: "\<exists>l a. steps st l a (fst (in_cleanup as st)) \<and> (a = [] \<or> a = [Aborted]) \<and> (snd (in_cleanup as st) = None \<longrightarrow> a = [])"
proof (induction as arbitrary: st)
  case Nil
  show ?case by (rule exI [of _ "[]"], rule exI [of _ "[]"]) simp
next
  case (Cons x as)
  have step: "\<exists>l a. steps st l a st' \<and> (a = [] \<or> a = [Aborted]) \<and> (w = None \<longrightarrow> a = [])"
    if s0: "steps st l0 [] st0" and s1: "\<exists>l a. steps st0 l a st' \<and> (a = [] \<or> a = [Aborted]) \<and> (w = None \<longrightarrow> a = [])" for l0 st0 st' and w :: "wstatus option"
  proof -
    obtain l a where "steps st0 l a st'" "a = [] \<or> a = [Aborted]" "w = None \<longrightarrow> a = []" using s1 by blast
    then show ?thesis using steps_trans [OF s0] by fastforce
  qed
  show ?case
  proof (cases x)
    case (Child_brk t)
    obtain l a where c: "steps st l a (fst (child_brk t st))"
      "if snd (child_brk t st) = None then a = [] else a = [Aborted] \<and> snd (child_brk t st) = Some (Signaled SIGKILL)"
      using child_brk_steps by blast
    obtain st1 w where cb: "child_brk t st = (st1, w)" by (cases "child_brk t st")
    show ?thesis
    proof (cases w)
      case None
      then show ?thesis using step [of l st1] Cons.IH [of st1] c Child_brk cb by simp
    qed (use c Child_brk cb in auto)
  qed (use step [OF steps_report] Cons.IH steps_refl in \<open>fastforce+\<close>)
qed

lemma do_test_cleanup_steps:
  "\<exists>l a. steps st l ((if has_cleanup T then [Cleanup] else []) @ a) (fst (do_test_cleanup T B st)) \<and> (a = [] \<or> a = [Aborted])
    \<and> (snd (do_test_cleanup T B st) = None \<longrightarrow> a = [])"
proof (cases "has_cleanup T")
  case True
  let ?st = "st\<lparr>trace := trace st @ [Cleanup]\<rparr>" and ?as = "does B (length (trace st)) Cleanup"
  obtain l a where "steps ?st l a (fst (in_cleanup ?as ?st))" "a = [] \<or> a = [Aborted]" "snd (in_cleanup ?as ?st) = None \<longrightarrow> a = []"
    using in_cleanup_steps by blast
  moreover have "steps st [] [Cleanup] ?st" by simp
  ultimately show ?thesis using steps_trans [of st "[]" "[Cleanup]" ?st] True by (auto simp: do_test_cleanup_def) (metis append_Cons append_Nil)+
next
  case False
  then show ?thesis by (auto simp: do_test_cleanup_def)
qed

lemma main_brk_ok: "main_ok td T st (ends (main_brk T B t st))"
proof -
  let ?r = "TTYPE_RESULT t" and ?c = "if has_cleanup T then [Cleanup] else []"
  obtain l a where s: "steps (report ?r st) l (?c @ a) (fst (do_test_cleanup T B (report ?r st)))" and a: "a = [] \<or> a = [Aborted]"
    and n: "snd (do_test_cleanup T B (report ?r st)) = None \<longrightarrow> a = []"
    using do_test_cleanup_steps [of "report ?r st" T B] by metis
  have e: "\<exists>l a. steps st l (?c @ a) (fst (main_brk T B t st)) \<and> (a = [] \<or> a = [Aborted])"
  proof (cases "do_test_cleanup T B (report ?r st)")
    case (Pair st1 w)
    have s1: "steps st ([?r] @ l) (?c @ a) st1" using steps_trans [OF steps_report s] Pair by simp
    have s2: "a = [] \<Longrightarrow> steps st ([?r] @ l) (?c @ [Aborted]) (set_abort st1)" using steps_trans [OF s1 steps_abort] by simp
    show ?thesis
    proof (cases w)
      case None
      then have "a = []" "fst (main_brk T B t st) = (if ?r = TBROK then set_abort st1 else st1)" using n Pair by (simp_all add: main_brk_def Let_def)
      then show ?thesis using s1 s2 by (metis (full_types))
    next
      case (Some x)
      then have "fst (main_brk T B t st) = st1" using Pair by (simp add: main_brk_def Let_def)
      then show ?thesis using s1 a by metis
    qed
  qed
  then obtain l a where "steps st l (?c @ a) (fst (main_brk T B t st))" "a = [] \<or> a = [Aborted]" by blast
  moreover have "ended td T (?c @ a) w" if "a = [] \<or> a = [Aborted]" for a w
    unfolding ended_def using that by (intro exI [of _ "[]"] exI [of _ ?c] exI [of _ a]) auto
  ultimately show ?thesis by (auto simp: main_ok_def ends_def)
qed

lemma ended_here: "(td \<longrightarrow> (\<nexists>n. w = Exited n)) \<Longrightarrow> a = [] \<or> a = [Aborted] \<Longrightarrow> ended td T a w"
  unfolding ended_def by (intro exI [of _ "[]"] exI [of _ a]) auto

lemma main_ok_ended: "steps st l a st' \<Longrightarrow> ended td T a w \<Longrightarrow> main_ok td T st (st', Some w)"
  by (auto simp: main_ok_def)

lemma in_test_ok: "(td \<longrightarrow> (\<forall>n. Exits n \<notin> set as)) \<Longrightarrow> main_ok td T st (in_test T B as st)"
proof (induction as arbitrary: st)
  case Nil
  then show ?case by (simp add: main_ok_here)
next
  case (Cons x as)
  then have IH: "main_ok td T st (in_test T B as st)" for st by simp
  show ?case
  proof (cases x)
    case (Child_brk t)
    obtain l a where c: "steps st l a (fst (child_brk t st))"
      "if snd (child_brk t st) = None then a = [] else a = [Aborted] \<and> snd (child_brk t st) = Some (Signaled SIGKILL)"
      using child_brk_steps by blast
    obtain st1 w where cb: "child_brk t st = (st1, w)" by (cases "child_brk t st")
    show ?thesis
    proof (cases w)
      case None
      then show ?thesis using main_ok_trans [of st l a st1] IH [of st1] c Child_brk cb by simp
    next
      case (Some y)
      then show ?thesis using c Child_brk cb ended_here [of td "Signaled SIGKILL" "[Aborted]" T] by (auto simp: main_ok_def)
    qed
  next
    case (Exits n)
    then show ?thesis using Cons.prems main_ok_ended [OF steps_refl ended_here [of td "Exited n" "[]" T]] by auto
  next
    case (Dies n)
    then show ?thesis using main_ok_ended [OF steps_refl ended_here] by simp
  next
    case (Res t)
    then show ?thesis using main_ok_report [OF IH] by simp
  qed (use main_brk_ok in simp_all)
qed

lemma run_callback_ok:
  assumes "td \<longrightarrow> tidy B" "quiet [c]"
  shows "main_ok td T st (run_callback T B c st)"
proof -
  have "main_ok td T (st\<lparr>trace := trace st @ [c]\<rparr>) (run_callback T B c st)"
    unfolding run_callback_def using assms(1) by (intro in_test_ok) (auto simp: tidy_def)
  moreover have "steps st [] [c] (st\<lparr>trace := trace st @ [c]\<rparr>)" using assms(2) by (intro steps_call) (auto simp: quiet_def)
  ultimately show ?thesis using main_ok_trans assms(2) by blast
qed

lemma reap_ok:
  "(td \<longrightarrow> (\<forall>x. Meanwhile (Exits x) \<notin> set rs)) \<Longrightarrow> main_ok td T st (tst_reap_children T B rs st)"
proof (induction rs arbitrary: st)
  case (Cons r rs)
  then have IH: "main_ok td T st (tst_reap_children T B rs st)" for st by simp
  show ?case
  proof (cases r)
    case (Meanwhile a)
    then have "main_ok td T st (in_test T B [a] st)" using Cons.prems by (intro in_test_ok) auto
    then show ?thesis using main_ok_and_go IH Meanwhile by simp
  qed (use IH main_brk_ok in auto)
qed (simp add: main_ok_here)

lemma run_one_ok: "td \<longrightarrow> tidy B \<Longrightarrow> quiet [c] \<Longrightarrow> main_ok td T st (run_one T B c st)"
  unfolding run_one_def Let_def
  by (intro main_ok_and_go run_callback_ok reap_ok) (auto simp: tidy_def main_brk_ok main_ok_here)

lemma run_tests_ok: "td \<longrightarrow> tidy B \<Longrightarrow> main_ok td T st (run_tests T B st)"
proof -
  assume td: "td \<longrightarrow> tidy B"
  have "main_ok td T st (tests_loop T B is st)" for "is" st
    by (induction "is" arbitrary: st) (simp_all add: main_ok_here main_ok_and_go run_one_ok [OF td])
  then show ?thesis using td run_one_ok by (simp add: run_tests_def)
qed

lemma do_test_setup_ok: "td \<longrightarrow> tidy B \<Longrightarrow> main_ok td T st (do_test_setup T B st)"
  unfolding do_test_setup_def
  by (auto simp: tidy_def main_ok_here intro!: main_brk_ok main_ok_and_go in_test_ok run_callback_ok)

lemma get_time_cases:
  "(\<exists>e. get_time_ms T B st = Inl e \<and> main_ok td T st (ends e))
    \<or> (\<exists>t st'. get_time_ms T B st = Inr (t, st') \<and> steps st [] [] st' \<and> clock B (ticks st) = Some t \<and> ticks st' = ticks st + 1)"
  using main_ok_trans [OF steps_tick _ main_brk_ok]
  by (cases "clock B (ticks st)") (auto simp: get_time_ms_def)

lemma more_time_cases:
  "(\<exists>e. more_time T B stop st = Inl e \<and> main_ok td T st (ends e))
    \<or> (\<exists>m st'. more_time T B stop st = Inr (m, st') \<and> steps st [] [] st'
        \<and> (m \<longrightarrow> stop \<noteq> 0 \<and> (\<exists>t < stop. clock B (ticks st) = Some t) \<and> ticks st' = ticks st + 1))"
  using get_time_cases [of T B st td] by (auto simp: more_time_def)

lemma test_loop_ok:
  assumes "test_loop T B stop i st = Some r" "td \<longrightarrow> tidy B"
  shows "main_ok td T st r"
  using assms(1)
proof (rule test_loop.raw_induct [where P = "\<lambda>T' B' stop i st r. B' = B \<longrightarrow> main_ok td T' st r", rotated, THEN mp])
  fix loop T' B' stop i st r
  assume IH: "\<And>T' B' stop i st r. loop T' B' stop i st = Some r \<Longrightarrow> B' = B \<longrightarrow> main_ok td T' st r"
    and step: "(case more_time T' B' stop st of Inl e \<Rightarrow> Some (ends e)
      | Inr (more_t, st) \<Rightarrow> if \<not> i < iterations T' \<and> \<not> more_t then Some (st, None)
          else case run_tests T' B' st of (st, Some w) \<Rightarrow> Some (st, Some w)
            | (st, None) \<Rightarrow> loop T' B' stop (if i < iterations T' then i + 1 else i) st) = Some r"
  show "B' = B \<longrightarrow> main_ok td T' st r"
  proof
    assume B: "B' = B"
    consider e where "more_time T' B' stop st = Inl e" "main_ok td T' st (ends e)"
      | m st1 where "more_time T' B' stop st = Inr (m, st1)" "steps st [] [] st1"
      using more_time_cases [of T' B' stop st td] by blast
    then show "main_ok td T' st r"
    proof cases
      case 1
      then show ?thesis using step by simp
    next
      case 2
      have r: "r = (st1, None) \<or> (\<exists>st2 w. run_tests T' B' st1 = (st2, Some w) \<and> r = (st2, Some w))
        \<or> (\<exists>st2 j. run_tests T' B' st1 = (st2, None) \<and> loop T' B' stop j st2 = Some r)"
        using step 2(1) by (cases "run_tests T' B' st1") (auto split: if_splits option.splits)
      have t: "main_ok td T' st1 (run_tests T' B' st1)" using assms(2) B by (intro run_tests_ok) simp
      have "main_ok td T' st1 r"
        using r
      proof (elim disjE exE conjE)
        fix st2 j assume s: "run_tests T' B' st1 = (st2, None)" "loop T' B' stop j st2 = Some r"
        have "main_ok td T' st2 r" using IH [OF s(2)] B by simp
        then show ?thesis using t s(1) main_ok_seq by metis
      qed (use t in \<open>auto simp: main_ok_here\<close>)
      then show ?thesis using main_ok_trans [OF 2(2)] by simp
    qed
  qed
qed simp

lemma test_loop_returns:
  assumes "stop = 0 \<or> (\<forall>k \<ge> N. \<forall>t. clock B k = Some t \<longrightarrow> stop \<le> t)"
  shows "\<exists>r. test_loop T B stop i st = Some r"
proof (induction "iterations T - i + (N - ticks st)" arbitrary: i st rule: less_induct)
  case less
  consider e where "more_time T B stop st = Inl e"
    | m st1 where "more_time T B stop st = Inr (m, st1)" "steps st [] [] st1"
      "m \<longrightarrow> stop \<noteq> 0 \<and> (\<exists>t < stop. clock B (ticks st) = Some t) \<and> ticks st1 = ticks st + 1"
    using more_time_cases [of T B stop st False] by blast
  then show ?case
  proof cases
    case 1
    then show ?thesis by (subst test_loop.simps) simp
  next
    case 2
    obtain st2 w where t: "run_tests T B st1 = (st2, w)" by (cases "run_tests T B st1")
    have "main_ok False T st1 (st2, w)" using run_tests_ok [of False B T st1] t by simp
    then have "ticks st1 \<le> ticks st2" by (auto simp: main_ok_def steps_def)
    moreover have "ticks st \<le> ticks st1" using 2(2) by (simp add: steps_def)
    moreover have "m \<Longrightarrow> ticks st < N" using 2(3) assms by (meson linorder_not_le)
    ultimately have "i < iterations T \<or> m \<Longrightarrow>
        iterations T - (if i < iterations T then i + 1 else i) + (N - ticks st2) < iterations T - i + (N - ticks st)"
      using 2(3) by (cases m) (auto simp: diff_le_mono2 intro!: add_less_le_mono add_le_less_mono)
    then have "i < iterations T \<or> m \<Longrightarrow> \<exists>r. test_loop T B stop (if i < iterations T then i + 1 else i) st2 = Some r"
      by (rule less.hyps)
    then show ?thesis using 2(1) t by (subst test_loop.simps) (cases w; auto)
  qed
qed

lemma after_setup_ok:
  assumes "after_setup T B st = Some r" "td \<longrightarrow> tidy B"
  shows "main_ok td T st r"
proof (cases "duration T")
  case None
  then show ?thesis using assms test_loop_ok by (simp add: after_setup_def)
next
  case (Some ms)
  consider e where "get_time_ms T B st = Inl e" "main_ok td T st (ends e)"
    | t st1 where "get_time_ms T B st = Inr (t, st1)" "steps st [] [] st1"
    using get_time_cases [of T B st td] by blast
  then show ?thesis
  proof cases
    case 1
    then show ?thesis using assms(1) Some by (simp add: after_setup_def)
  next
    case 2
    then have "test_loop T B (t + ms) 0 st1 = Some r" using assms(1) Some by (simp add: after_setup_def)
    then have "main_ok td T st1 r" using assms(2) by (rule test_loop_ok)
    then show ?thesis using main_ok_trans [OF 2(2)] by simp
  qed
qed

lemma testrun_ok:
  assumes "testrun T B st = Some (st', w)" "td \<longrightarrow> tidy B"
  shows "main_ok td T st (st', Some w)"
proof -
  obtain st1 w1 where s: "do_test_setup T B st = (st1, w1)" by (cases "do_test_setup T B st")
  have ok1: "main_ok td T st (st1, w1)" using do_test_setup_ok [OF assms(2), of T st] s by simp
  show ?thesis
  proof (cases w1)
    case (Some x)
    then show ?thesis using assms(1) ok1 s by (simp add: testrun_def)
  next
    case None
    obtain r where r: "after_setup T B st1 = Some r" using assms(1) s None by (auto simp: testrun_def)
    have ok2: "main_ok td T st r" using ok1 None after_setup_ok [OF r assms(2)] main_ok_seq by metis
    obtain st2 w2 where p: "r = (st2, w2)" by (cases r)
    show ?thesis
    proof (cases w2)
      case (Some x)
      then show ?thesis using assms(1) ok2 s r p None by (simp add: testrun_def)
    next
      case w2: None
      let ?c = "if has_cleanup T then [Cleanup] else []"
      obtain l a where c: "steps st2 l (?c @ a) (fst (do_test_cleanup T B st2))" "a = [] \<or> a = [Aborted]"
        using do_test_cleanup_steps [of st2 T B] by metis
      have "st' = fst (do_test_cleanup T B st2)"
        using assms(1) s r p None w2 by (cases "do_test_cleanup T B st2") (auto simp: testrun_def split: option.splits)
      moreover have "ended td T (?c @ a) w"
        unfolding ended_def using c(2) by (intro exI [of _ "[]"] exI [of _ ?c] exI [of _ a]) auto
      ultimately have "main_ok td T st2 (st', Some w)" using c(1) main_ok_ended by blast
      then show ?thesis using ok2 p w2 main_ok_seq by metis
    qed
  qed
qed

definition clock_advances :: "test_desc \<Rightarrow> behaviour \<Rightarrow> bool" where
  "clock_advances T B \<longleftrightarrow> duration T = None \<or> (\<forall>x. \<exists>N. \<forall>k \<ge> N. \<forall>t. clock B k = Some t \<longrightarrow> x \<le> t)"

lemma testrun_returns: "clock_advances T B \<Longrightarrow> \<exists>st' w. testrun T B st = Some (st', w)"
proof -
  assume clk: "clock_advances T B"
  have "\<exists>r. after_setup T B st1 = Some r" for st1
  proof (cases "duration T")
    case None
    then show ?thesis using test_loop_returns [of 0 0] by (simp add: after_setup_def)
  next
    case (Some ms)
    then have "\<exists>r. test_loop T B x i st2 = Some r" for x i st2
      using clk test_loop_returns [of x _ B T i st2] by (metis clock_advances_def option.distinct(1))
    then show ?thesis using Some get_time_cases [of T B st1 False] by (auto simp: after_setup_def)
  qed
  moreover obtain st1 w1 where s: "do_test_setup T B st = (st1, w1)" by (cases "do_test_setup T B st")
  ultimately obtain r where "after_setup T B st1 = Some r" by blast
  then have "testrun T B st \<noteq> None" by (cases w1) (simp_all add: testrun_def s)
  then show ?thesis by auto
qed

text \<open>C9: The main test process ends, if the clock reaches every time when it runs for a duration. It calls the cleanup
  function at most once, after everything
  else. When it exits, the cleanup function has run, unless a function of the test called \<open>exit()\<close> itself; also when
  \<open>tst_brk()\<close> or a failed child ended it.\<close>
theorem testrun_cleans_up:
  assumes "clock_advances T B"
  shows "\<exists>st' w tr. testrun T B st = Some (st', w) \<and> trace st' = trace st @ tr \<and> count_list tr Cleanup \<le> 1 \<and> Started \<notin> set tr
    \<and> (Cleanup \<in> set tr \<longrightarrow> (\<exists>q. tr = q @ [Cleanup] \<or> tr = q @ [Cleanup, Aborted]))
    \<and> (has_cleanup T \<and> tidy B \<and> (\<exists>n. w = Exited n) \<longrightarrow> Cleanup \<in> set tr)"
proof -
  obtain st' w where r: "testrun T B st = Some (st', w)" using testrun_returns [OF assms] by blast
  then have "main_ok (tidy B) T st (st', Some w)" by (rule testrun_ok) simp
  then obtain l tr where "steps st l tr st'" and e: "ended (tidy B) T tr w" by (auto simp: main_ok_def)
  then have tr: "trace st' = trace st @ tr" by (simp add: steps_def)
  obtain q c a where q: "quiet q" "tr = q @ c @ a" "c = [] \<or> c = [Cleanup]" "a = [] \<or> a = [Aborted]"
    "tidy B \<and> (\<exists>n. w = Exited n) \<longrightarrow> c = (if has_cleanup T then [Cleanup] else [])"
    using e unfolding ended_def by blast
  have z: "count_list q Cleanup = 0" "Started \<notin> set q" "Cleanup \<notin> set q" using q(1) by (simp_all add: quiet_def count_list_0_iff)
  then have "count_list tr Cleanup \<le> 1" "Started \<notin> set tr" "Cleanup \<in> set tr \<longrightarrow> (\<exists>q. tr = q @ [Cleanup] \<or> tr = q @ [Cleanup, Aborted])"
    "has_cleanup T \<and> tidy B \<and> (\<exists>n. w = Exited n) \<longrightarrow> Cleanup \<in> set tr"
    using q(2-5) by auto
  then show ?thesis using r tr by blast
qed

section \<open>The library process\<close>

text \<open>No process is forked after the abort flag was set.\<close>

fun ok_trace :: "callback list \<Rightarrow> bool" where
  "ok_trace [] = True"
| "ok_trace (c # cs) = (ok_trace cs \<and> (c = Aborted \<longrightarrow> Started \<notin> set cs))"

definition lib_inv :: "run_state \<Rightarrow> bool" where
  "lib_inv st \<longleftrightarrow> counters st = fold tally (logged st) no_results \<and> abort_flag st = c_int (int (count_list (trace st) Aborted))
     \<and> ok_trace (trace st)"

definition fresh :: "run_state \<Rightarrow> bool" where
  "fresh st \<longleftrightarrow> Aborted \<notin> set (trace st)"

definition small :: "run_state \<Rightarrow> bool" where
  "small st \<longleftrightarrow> count_list (trace st) Aborted \<le> 2 ^ 31"

text \<open>The exit code belongs to the results, and to the failure that ended the process.\<close>

definition code_ok :: "int \<Rightarrow> run_state \<Rightarrow> bool" where
  "code_ok code st \<longleftrightarrow> (\<exists>ret. code = fst (exit_code False None False (Some (counters st)) ret)
     \<and> (ret = 0 \<or> (ret = TBROK \<or> ret = TCONF) \<and> ret \<in> set (logged st)))"

definition lib_good :: "lib \<Rightarrow> bool" where
  "lib_good l = (case l of Cont st \<Rightarrow> lib_inv st \<and> small st | Quit code st \<Rightarrow> lib_inv st \<and> code_ok code st | Undefined \<Rightarrow> True)"

text \<open>\<open>tst_brk()\<close> takes \<open>TBROK\<close> and \<open>TCONF\<close>, with flags for error numbers.\<close>

definition typed :: "action list \<Rightarrow> bool" where
  "typed as \<longleftrightarrow> (\<forall>a \<in> set as. case a of Main_brk t \<Rightarrow> TTYPE_RESULT t = TBROK \<or> TTYPE_RESULT t = TCONF | Exits n \<Rightarrow> False | _ \<Rightarrow> True)"

definition lib_typed :: "behaviour \<Rightarrow> bool" where
  "lib_typed B \<longleftrightarrow> (\<forall>v. typed (snd (check_cmd B v)) \<and> typed (prepare_device B v)) \<and> (\<forall>n. length (late B n) < 2 ^ 31)"

lemma inc_pow: "(tst_atomic_inc ^^ k) (c_int x) = c_int (x + int k)"
proof (induction k)
  case (Suc k)
  have "c_int (c_int (x + int k) + 1) = c_int (x + int (Suc k))" unfolding c_int_add by (simp add: algebra_simps)
  then show ?case using Suc by (simp add: tst_atomic_inc_def)
qed simp

lemma ok_trace_append: "ok_trace a \<Longrightarrow> Started \<notin> set b \<Longrightarrow> ok_trace (a @ b)"
proof (induction a)
  case Nil
  then show ?case by (induction b) auto
qed auto

lemma ok_trace_fresh: "Aborted \<notin> set a \<Longrightarrow> ok_trace (a @ [Started])"
  by (induction a) auto

lemma lib_inv_steps: "lib_inv st \<Longrightarrow> steps st l tr st' \<Longrightarrow> Started \<notin> set tr \<Longrightarrow> lib_inv st'"
  by (auto simp: lib_inv_def steps_def inc_pow ok_trace_append)

lemma inv_report: "lib_inv st \<Longrightarrow> lib_inv (report t st)"
  using lib_inv_steps [OF _ steps_report] by simp

lemma report_fields [simp]: "trace (report t st) = trace st" "abort_flag (report t st) = abort_flag st" "logged (report t st) = logged st @ [t]"
  by (simp_all add: report_def)

lemma inv_start: "lib_inv st \<Longrightarrow> fresh st \<Longrightarrow> lib_inv (st\<lparr>trace := trace st @ [Started]\<rparr>)"
  by (simp add: lib_inv_def fresh_def ok_trace_fresh)

lemma abort_fresh: "lib_inv st \<Longrightarrow> small st \<Longrightarrow> abort_flag st = 0 \<longleftrightarrow> fresh st"
proof -
  assume "lib_inv st" "small st"
  moreover have "c_int (int n) = 0 \<longleftrightarrow> n = 0" if "n \<le> 2 ^ 31" for n
  proof -
    have "c_int (int n) = 0 \<longleftrightarrow> take_bit 32 (int n) = 0"
      using signed_take_bit_eq_iff_take_bit_eq [of 31 "int n" 0] by (simp add: c_int_def)
    then show ?thesis using that by (simp add: take_bit_int_eq_self)
  qed
  ultimately show ?thesis by (simp add: lib_inv_def small_def fresh_def count_list_0_iff)
qed

lemma do_exit_good: "lib_inv st \<Longrightarrow> ret = 0 \<or> (ret = TBROK \<or> ret = TCONF) \<and> ret \<in> set (logged st) \<Longrightarrow> lib_good (do_exit ret st)"
  by (auto simp: lib_good_def do_exit_def code_ok_def)

lemma lib_brk_good: "lib_inv st \<Longrightarrow> TTYPE_RESULT t = TBROK \<or> TTYPE_RESULT t = TCONF \<Longrightarrow> lib_good (lib_brk t st)"
  by (auto simp: lib_brk_def Let_def inv_report intro!: do_exit_good)

lemma TTYPE_flags [simp]: "TTYPE_RESULT TBROK = TBROK" "TTYPE_RESULT TCONF = TCONF"
  by (simp_all add: TTYPE_RESULT_def TTYPE_MASK_def flag_defs)

lemma lib_actions_good:
  "lib_inv st \<Longrightarrow> small st \<Longrightarrow> typed as \<Longrightarrow> lib_good (lib_actions as st) \<and> (\<forall>st'. lib_actions as st = Cont st' \<longrightarrow> trace st' = trace st)"
proof (induction as arbitrary: st)
  case Nil
  then show ?case by (simp add: lib_good_def)
next
  case (Cons x as)
  then have ty: "typed as" by (simp add: typed_def)
  show ?case
  proof (cases x)
    case (Main_brk t)
    then have "TTYPE_RESULT t = TBROK \<or> TTYPE_RESULT t = TCONF" using Cons.prems(3) by (simp add: typed_def)
    then show ?thesis using lib_brk_good [OF Cons.prems(1)] Main_brk by (simp add: lib_brk_def do_exit_def Let_def)
  next
    case (Res t)
    have "lib_inv (report (TTYPE_RESULT t) st)" "small (report (TTYPE_RESULT t) st)"
      using inv_report Cons.prems(1,2) by (simp_all add: small_def)
    then show ?thesis using Cons.IH [of "report (TTYPE_RESULT t) st"] ty Res by simp
  next
    case (Exits n)
    then show ?thesis using Cons.prems(3) by (simp add: typed_def)
  qed (use Cons ty in simp_all)
qed

lemma late_good:
  "lib_inv st \<Longrightarrow> lib_inv (late_actions as st) \<and> count_list (trace (late_actions as st)) Aborted \<le> count_list (trace st) Aborted + length as"
proof (induction as st rule: late_actions.induct)
  case (2 t as st)
  then show ?case using inv_report [of st "TTYPE_RESULT t"] by fastforce
next
  case (3 t as st)
  obtain l a where "steps st l a (fst (child_brk t st))" "a = [] \<or> a = [Aborted]"
    using child_brk_steps [of st t] by (metis (full_types))
  then have "lib_inv (fst (child_brk t st))" "count_list (trace (fst (child_brk t st))) Aborted \<le> count_list (trace st) Aborted + 1"
    using lib_inv_steps [OF "3.prems", of l a] by (auto simp: steps_def)
  then show ?case using "3.IH" by fastforce
qed simp_all

lemma check_status_good: "lib_inv st \<Longrightarrow> small st \<Longrightarrow> lib_good (check_status w st)"
  by (auto simp: check_status_def lib_good_def lib_brk_good [unfolded lib_good_def] split: wstatus.splits)

lemma after_wait_good: "lib_inv st \<Longrightarrow> small st \<Longrightarrow> lib_good (after_wait T B w st)"
  using inv_report [of st TFAIL] check_status_good lib_brk_good
  by (auto simp: after_wait_def split: option.splits) (simp add: lib_good_def small_def)

lemma fork_testrun_good:
  assumes "lib_inv st" "fresh st" "lib_typed B" "fork_testrun T B st = Some r"
  shows "lib_good r"
proof (cases "fork_ok B (length (trace st))")
  case False
  then show ?thesis using assms lib_brk_good by (auto simp: fork_testrun_def)
next
  case True
  let ?st = "st\<lparr>trace := trace st @ [Started]\<rparr>"
  obtain st1 w where t: "testrun T B ?st = Some (st1, w)"
    and r: "r = after_wait T B w (late_actions (late B (length (trace st1))) st1)"
    using assms(4) True by (auto simp: fork_testrun_def)
  have "main_ok False T ?st (st1, Some w)" using testrun_ok [OF t] by simp
  then obtain l tr where s: "steps ?st l tr st1" and e: "ended False T tr w" by (auto simp: main_ok_def)
  obtain q k a where q: "quiet q" "tr = q @ k @ a" "k = [] \<or> k = [Cleanup]" "a = [] \<or> a = [Aborted]"
    using e unfolding ended_def by blast
  have "count_list q Aborted = 0" using q(1) by (simp add: quiet_def count_list_0_iff)
  then have c: "Started \<notin> set tr" "count_list tr Aborted \<le> 1" using q by (auto simp: quiet_def)
  have i1: "lib_inv st1" using lib_inv_steps [OF inv_start [OF assms(1,2)] s c(1)] .
  have z: "count_list (trace st) Aborted = 0" using assms(2) by (simp add: fresh_def count_list_0_iff)
  have "trace st1 = (trace st @ [Started]) @ tr" using s by (simp add: steps_def)
  then have n1: "count_list (trace st1) Aborted \<le> 1" using c(2) z by simp
  let ?late = "late B (length (trace st1))"
  have "length ?late < 2 ^ 31" using assms(3) by (simp add: lib_typed_def)
  then have "lib_inv (late_actions ?late st1)" "small (late_actions ?late st1)"
    using late_good [OF i1, of ?late] n1 by (simp_all add: small_def)
  then show ?thesis using r after_wait_good by simp
qed

lemma fold_report_good: "lib_inv st \<Longrightarrow> lib_inv (fold (\<lambda>_. report t) ms st) \<and> trace (fold (\<lambda>_. report t) ms st) = trace st"
  by (induction ms arbitrary: st) (simp_all add: inv_report)

lemma kver_ok_good: "lib_inv st \<Longrightarrow> lib_inv (snd (kver_ok B v st)) \<and> trace (snd (kver_ok B v st)) = trace st"
  by (simp add: kver_ok_def Let_def fold_report_good inv_report split: prod.split)

lemma check_kver_good:
  assumes "lib_inv st" "small st" "check_kver B v brk st = (l, ok)"
  shows "lib_good l \<and> (\<forall>st'. l = Cont st' \<longrightarrow> trace st' = trace st)"
proof -
  obtain k st1 where k: "kver_ok B v st = (k, st1)" by (cases "kver_ok B v st")
  then have s: "lib_inv st1" "trace st1 = trace st" using kver_ok_good [OF assms(1), of B v] by simp_all
  then have "lib_good (Cont st1)" "lib_good (Cont (report TCONF st1))" using assms(2) inv_report by (simp_all add: lib_good_def small_def)
  then show ?thesis
    using s lib_brk_good [OF s(1), of TCONF] assms(3) by (auto simp: check_kver_def k lib_brk_def do_exit_def Let_def split: if_splits)
qed

lemma run_tcase_on_fs_good:
  assumes "lib_inv st" "small st" "fresh st" "lib_typed B" "run_tcase_on_fs T B fs ty st = Some r"
  shows "lib_good r"
proof -
  obtain ok as where m: "(case mkfs_ver fs of None \<Rightarrow> (True, []) | Some v \<Rightarrow> check_cmd B v) = (ok, as)" by fastforce
  have "typed as" using m assms(4) by (auto simp: lib_typed_def typed_def split: option.splits) (metis snd_conv)
  then have a: "lib_good (lib_actions as st)" "\<And>st1. lib_actions as st = Cont st1 \<Longrightarrow> trace st1 = trace st"
    using lib_actions_good assms(1,2) by blast+
  show ?thesis
  proof (cases "lib_actions as st")
    case (Cont st1)
    then have s1: "lib_inv st1" "small st1" "trace st1 = trace st" using a by (simp_all add: lib_good_def)
    obtain l ok2 where k: "(case min_kver fs of None \<Rightarrow> (Cont st1, True) | Some v \<Rightarrow> check_kver B v False st1) = (l, ok2)" by fastforce
    have b: "lib_good l" "\<And>st2. l = Cont st2 \<Longrightarrow> trace st2 = trace st1"
      using k check_kver_good [OF s1(1,2)] s1 by (auto simp: lib_good_def split: option.splits)
    have r: "Some r = (if \<not> ok then Some (Cont st1) else case (l, ok2) of
        (Cont st, True) \<Rightarrow> (case lib_actions (prepare_device B ty) st of Cont st \<Rightarrow> fork_testrun T B st | l \<Rightarrow> Some l) | (l, _) \<Rightarrow> Some l)"
      using assms(5) unfolding run_tcase_on_fs_def m Let_def prod.case Cont lib.case k by simp
    show ?thesis
    proof (cases "ok \<and> ok2 \<and> (\<exists>st2. l = Cont st2)")
      case True
      then obtain st2 where l: "l = Cont st2" by blast
      then have s2: "lib_inv st2" "small st2" "trace st2 = trace st" using b s1 by (simp_all add: lib_good_def)
      have p: "lib_good (lib_actions (prepare_device B ty) st2)" "\<And>st3. lib_actions (prepare_device B ty) st2 = Cont st3 \<Longrightarrow> trace st3 = trace st2"
        using lib_actions_good [OF s2(1,2)] assms(4) by (auto simp: lib_typed_def)
      show ?thesis
      proof (cases "lib_actions (prepare_device B ty) st2")
        case (Cont st3)
        then have "lib_inv st3" "fresh st3" using p s2(3) assms(3) by (simp_all add: lib_good_def fresh_def)
        then show ?thesis using fork_testrun_good [of st3 B T r] r True l Cont assms(4) by simp
      qed (use r True l p in simp_all)
    next
      case False
      then show ?thesis using r b(1) s1 by (cases l) (auto simp: lib_good_def split: if_splits)
    qed
  qed (use assms(5) a(1) m in \<open>simp_all add: run_tcase_on_fs_def\<close>)
qed

lemma after_fork_fresh: "lib_good (Cont st) \<Longrightarrow> abort_flag st = 0 \<Longrightarrow> fresh st"
  using abort_fresh by (simp add: lib_good_def)

lemma fs_runs_good:
  assumes "lib_typed B"
  shows "lib_inv st \<Longrightarrow> small st \<Longrightarrow> fresh st \<Longrightarrow> fs_runs T B types found st = Some r \<Longrightarrow> lib_good r"
proof (induction types arbitrary: found st)
  case Nil
  then show ?case using lib_brk_good by (auto simp: lib_good_def split: if_splits)
next
  case (Cons ty types)
  show ?case
  proof (cases "lookup_fs_desc (filesystems T) ty (all_filesystems T)")
    case None
    then show ?thesis using Cons.prems by (auto simp: lib_good_def)
  next
    case (Some d)
    show ?thesis
    proof (cases d)
      case None
      then show ?thesis using Some Cons by simp
    next
      case fs: (Some fs)
      then obtain l where l: "run_tcase_on_fs T B fs ty st = Some l" using Cons.prems(4) Some by (auto simp: bind_eq_Some_conv)
      then have g: "lib_good l" using run_tcase_on_fs_good Cons.prems assms by blast
      show ?thesis
      proof (cases l)
        case (Cont st1)
        then show ?thesis
        proof (cases "abort_flag st1 = 0")
          case True
          then have "fresh st1" using g Cont after_fork_fresh by simp
          then show ?thesis using Cons.IH [of st1 True] Cons.prems(4) g Cont True Some fs l by (simp add: lib_good_def)
        next
          case False
          then have "r = do_exit 0 st1" using Cons.prems(4) Some fs l Cont by simp
          then show ?thesis using do_exit_good [of st1 0] g Cont by (simp add: lib_good_def [of "Cont st1"])
        qed
      qed (use g Cons.prems(4) Some fs l in simp_all)
    qed
  qed
qed

lemma run_tcases_per_fs_good:
  assumes "lib_typed B" "lib_inv st" "small st" "fresh st" "run_tcases_per_fs T B st = Some r"
  shows "lib_good r"
proof -
  have f: "lib_inv (st\<lparr>fs_types := x\<rparr>)" "small (st\<lparr>fs_types := x\<rparr>)" "fresh (st\<lparr>fs_types := x\<rparr>)" for x
    using assms(2-4) by (simp_all add: lib_inv_def small_def fresh_def)
  show ?thesis using assms(5) lib_brk_good [OF assms(2), of TBROK] lib_brk_good [OF f(1), of TCONF] fs_runs_good [OF assms(1) f]
    by (auto simp: run_tcases_per_fs_def Let_def split: option.splits if_splits)
qed

lemma variants_good:
  assumes "lib_typed B"
  shows "lib_inv st \<Longrightarrow> small st \<Longrightarrow> fresh st \<Longrightarrow> variants_loop T B n st = Some r \<Longrightarrow> lib_good r \<and> (\<forall>st. r \<noteq> Cont st)"
proof (induction n arbitrary: st)
  case 0
  then show ?case using do_exit_good by (auto simp: do_exit_def)
next
  case (Suc n)
  show ?case
  proof (cases "if all_filesystems T then Some 2 else count_fs_descs (filesystems T)")
    case None
    then show ?thesis using Suc.prems by (auto simp: lib_good_def)
  next
    case (Some k)
    then obtain l where l: "(if k > 1 then run_tcases_per_fs T B st else fork_testrun T B st) = Some l"
      and r: "(case l of Cont st \<Rightarrow> if abort_flag st \<noteq> 0 then Some (do_exit 0 st) else variants_loop T B n st | l \<Rightarrow> Some l) = Some r"
      using Suc.prems(4) by (auto simp: bind_eq_Some_conv)
    have g: "lib_good l" using l run_tcases_per_fs_good fork_testrun_good Suc.prems assms by (auto split: if_splits)
    show ?thesis
    proof (cases l)
      case (Cont st1)
      show ?thesis
      proof (cases "abort_flag st1 = 0")
        case True
        then have "fresh st1" using g Cont after_fork_fresh by simp
        then show ?thesis using Suc.IH [of st1] r g Cont True by (simp add: lib_good_def)
      next
        case False
        then have "r = do_exit 0 st1" using r Cont by simp
        then show ?thesis using do_exit_good [of st1 0] g Cont by (simp add: lib_good_def [of "Cont st1"] do_exit_def)
      qed
    qed (use g r in auto)
  qed
qed

text \<open>Every loop of the library process ends, and reads only inside a terminated array.\<close>

definition defined :: "lib option \<Rightarrow> bool" where
  "defined r \<longleftrightarrow> (\<exists>l. r = Some l \<and> l \<noteq> Undefined)"

definition terminated :: "test_desc \<Rightarrow> bool" where
  "terminated T \<longleftrightarrow> (\<forall>fss. filesystems T = Some fss \<longrightarrow> (\<exists>e \<in> set (tl fss). fs_type e = None))"

lemma lib_actions_defined: "lib_actions as st \<noteq> Undefined"
  by (induction as st rule: lib_actions.induct) (simp_all add: lib_brk_def do_exit_def Let_def)

lemma check_kver_defined: "fst (check_kver B v brk st) \<noteq> Undefined"
  by (simp add: check_kver_def lib_brk_def do_exit_def Let_def split: prod.split)

lemma fork_testrun_defined: "clock_advances T B \<Longrightarrow> defined (fork_testrun T B st)"
proof -
  assume "clock_advances T B"
  moreover have "after_wait T B w st \<noteq> Undefined" for w st
    by (simp add: after_wait_def check_status_def lib_brk_def do_exit_def Let_def split: option.split wstatus.split)
  ultimately show ?thesis
    using testrun_returns [of T B "st\<lparr>trace := trace st @ [Started]\<rparr>"]
    by (auto simp: fork_testrun_def defined_def lib_brk_def do_exit_def Let_def)
qed

lemma run_tcase_defined:
  assumes "clock_advances T B"
  shows "defined (run_tcase_on_fs T B fs ty st)"
proof -
  obtain ok as where m: "(case mkfs_ver fs of None \<Rightarrow> (True, []) | Some v \<Rightarrow> check_cmd B v) = (ok, as)" by fastforce
  have k: "(case min_kver fs of None \<Rightarrow> (Cont st, True) | Some v \<Rightarrow> check_kver B v False st) = (Undefined, b) \<longleftrightarrow> False" for st b
    using check_kver_defined by (metis fst_conv lib.distinct(3) option.case_eq_if)
  show ?thesis
    unfolding run_tcase_on_fs_def m Let_def prod.case
    using lib_actions_defined [of as st] lib_actions_defined [of "prepare_device B ty"] k fork_testrun_defined [OF assms]
    by (auto simp: defined_def split: lib.splits prod.splits bool.splits)
qed

lemma typed_prefix_some: "e \<in> set es \<Longrightarrow> fs_type e = None \<Longrightarrow> typed_prefix es \<noteq> None \<and> fs_loop fs es \<noteq> None"
  by (induction es) (auto split: option.splits)

lemma lookup_defined: "terminated T \<Longrightarrow> lookup_fs_desc (filesystems T) fs all_fs \<noteq> None \<and> count_fs_descs (filesystems T) \<noteq> None"
proof (cases "filesystems T")
  case (Some fss)
  assume "terminated T"
  then obtain e where e: "e \<in> set (tl fss)" "fs_type e = None" using Some by (auto simp: terminated_def)
  then obtain x xs where x: "fss = x # xs" "e \<in> set xs" by (cases fss) auto
  have "typed_prefix (x # xs) \<noteq> None" "fs_loop fs (x # xs) \<noteq> None" using typed_prefix_some [of e "x # xs"] x(2) e(2) by auto
  moreover have "typed_prefix xs \<noteq> None" using typed_prefix_some [OF x(2) e(2)] by simp
  ultimately show ?thesis
    by (auto simp: Some x lookup_fs_desc_def count_fs_descs_def Let_def split: option.splits if_splits)
qed (simp add: lookup_fs_desc_def count_fs_descs_def)

lemma fs_runs_defined:
  assumes "clock_advances T B" "terminated T"
  shows "defined (fs_runs T B types found st)"
proof (induction types arbitrary: found st)
  case Nil
  then show ?case by (simp add: defined_def lib_brk_def do_exit_def Let_def)
next
  case (Cons ty types)
  obtain d where d: "lookup_fs_desc (filesystems T) ty (all_filesystems T) = Some d" using lookup_defined [OF assms(2)] by blast
  show ?case
  proof (cases d)
    case (Some fs)
    obtain l where "run_tcase_on_fs T B fs ty st = Some l" "l \<noteq> Undefined"
      using run_tcase_defined [OF assms(1)] unfolding defined_def by blast
    then show ?thesis using Cons d Some by (cases l) (simp_all add: defined_def do_exit_def)
  qed (use Cons d in simp)
qed

lemma variants_defined:
  assumes "clock_advances T B" "terminated T"
  shows "defined (variants_loop T B n st)"
proof (induction n arbitrary: st)
  case (Suc n)
  obtain k where k: "(if all_filesystems T then Some 2 else count_fs_descs (filesystems T)) = Some k"
    using lookup_defined [OF assms(2)] by fastforce
  have "defined (run_tcases_per_fs T B st)" for st
    using fs_runs_defined [OF assms]
    by (auto simp: run_tcases_per_fs_def defined_def lib_brk_def do_exit_def Let_def split: option.split)
  then have "defined (if k > 1 then run_tcases_per_fs T B st else fork_testrun T B st)" using fork_testrun_defined [OF assms(1)] by simp
  then obtain l where "(if k > 1 then run_tcases_per_fs T B st else fork_testrun T B st) = Some l" "l \<noteq> Undefined"
    unfolding defined_def by blast
  then show ?case unfolding variants_loop.simps k option.case
    using Suc by (cases l) (simp_all add: defined_def do_exit_def)
qed (simp add: defined_def do_exit_def)

lemma variants_end:
  assumes "clock_advances T B" "terminated T" "lib_typed B" "lib_inv st" "small st" "fresh st"
  shows "\<exists>code st'. variants_loop T B n st = Some (Quit code st') \<and> lib_inv st' \<and> code_ok code st'"
proof -
  obtain l where l: "variants_loop T B n st = Some l" "l \<noteq> Undefined" using variants_defined [OF assms(1,2)] by (auto simp: defined_def)
  then show ?thesis using variants_good [OF assms(3-) l(1)] by (cases l) (auto simp: lib_good_def)
qed

lemma run_good:
  assumes "clock_advances T B" "terminated T" "lib_typed B" "typed as"
  shows "\<exists>code st. tst_run_tcases T B as m = Some (Quit code st) \<and> lib_inv st \<and> code_ok code st"
proof -
  have i: "lib_inv init_state" "small init_state" "fresh init_state"
    by (simp_all add: lib_inv_def init_state_def small_def fresh_def no_results_def c_int_id)
  have a: "lib_good (lib_actions as init_state)" "\<And>st. lib_actions as init_state = Cont st \<Longrightarrow> trace st = trace init_state"
    using lib_actions_good [OF i(1,2) assms(4)] by auto
  show ?thesis
  proof (cases "lib_actions as init_state")
    case (Cont st)
    let ?st = "st\<lparr>taint_mask := m\<rparr>" and ?n = "if test_variants T \<noteq> 0 then test_variants T else 1"
    have "lib_inv ?st" "small ?st" "fresh ?st" using a Cont by (simp_all add: lib_good_def lib_inv_def small_def fresh_def init_state_def)
    from variants_end [OF assms(1-3) this, of ?n] show ?thesis using Cont by (auto simp: tst_run_tcases_def)
  next
    case (Quit code st)
    then show ?thesis using a by (simp add: tst_run_tcases_def lib_good_def)
  qed (use lib_actions_defined in auto)
qed

text \<open>The bits of the exit code, as long as no counter wraps around.\<close>

definition code_says :: "int \<Rightarrow> int list \<Rightarrow> bool" where
  "code_says code l \<longleftrightarrow> (\<forall>n. bit code n \<longleftrightarrow> n = 0 \<and> TFAIL \<in> set l \<or> n = 1 \<and> TBROK \<in> set l
     \<or> n = 2 \<and> TWARN \<in> set l \<or> n = 5 \<and> TCONF \<in> set l \<and> TPASS \<notin> set l)"

lemma code_ok_says:
  assumes "lib_inv st" "code_ok code st" "length (logged st) < 2 ^ 31"
  shows "code_says code (logged st)"
proof -
  obtain ret where code: "code = fst (exit_code False None False (Some (counters st)) ret)"
    and ret: "ret = 0 \<or> (ret = TBROK \<or> ret = TCONF) \<and> ret \<in> set (logged st)" using assms(2) unfolding code_ok_def by blast
  have n: "passed (counters st) \<noteq> 0 \<longleftrightarrow> TPASS \<in> set (logged st)" "failed (counters st) \<noteq> 0 \<longleftrightarrow> TFAIL \<in> set (logged st)"
    "skipped (counters st) \<noteq> 0 \<longleftrightarrow> TCONF \<in> set (logged st)" "warnings (counters st) \<noteq> 0 \<longleftrightarrow> TWARN \<in> set (logged st)"
    "broken (counters st) \<noteq> 0 \<longleftrightarrow> TBROK \<in> set (logged st)"
    using assms(1) count_nonzero [OF assms(3)] by (simp_all add: lib_inv_def counted)
  show ?thesis
    unfolding code exit_code_eq Let_def code_says_def using ret n by (auto simp: bit_or_iff flag_bits)
qed


section \<open>Silent, passing and skipped tests\<close>

lemma tally_other: "set l \<inter> {TPASS, TFAIL, TCONF, TBROK} = {} \<Longrightarrow> results_equal r (fold tally l r)"
proof (induction l arbitrary: r)
  case (Cons t l)
  then have "results_equal (tally t r) (fold tally l (tally t r))" "results_equal r (tally t r)"
    by (auto simp: results_equal_def tally_fields)
  then show ?case by (simp add: results_equal_def)
qed (simp add: results_equal_def)

lemma main_brk_logs: "\<exists>l. logged (fst (main_brk T B t st)) = logged st @ TTYPE_RESULT t # l"
proof -
  let ?st = "report (TTYPE_RESULT t) st"
  obtain l tr where "steps ?st l tr (fst (do_test_cleanup T B ?st))" using do_test_cleanup_steps [of ?st T B] by metis
  then have "logged (fst (do_test_cleanup T B ?st)) = logged st @ TTYPE_RESULT t # l" by (simp add: steps_def)
  then show ?thesis
    by (intro exI [of _ l]) (auto simp: main_brk_def Let_def set_abort_def split: prod.splits option.splits)
qed

text \<open>C21: A call of the test function lets the test go on only after a new result other than a
  warning; a call that reports nothing ends the process and makes the test broken.\<close>
theorem test_must_report:
  assumes "c = Test_all \<or> c = Test i"
  shows "(run_one T B c st = (st', None) \<longrightarrow> (\<exists>l. logged st' = logged st @ l \<and> set l \<inter> {TPASS, TFAIL, TCONF, TBROK} \<noteq> {}))
    \<and> (does B (length (trace st)) c = [] \<and> reaps B (Suc (length (trace st))) = [] \<longrightarrow>
        (\<exists>st' w l. run_one T B c st = (st', Some w) \<and> logged st' = logged st @ TBROK # l))"
proof (intro conjI impI)
  assume n: "run_one T B c st = (st', None)"
  have "main_ok False T st (run_one T B c st)" using assms by (intro run_one_ok) auto
  then obtain l tr where s: "steps st l tr st'" using n by (auto simp: main_ok_def)
  have "\<not> results_equal (counters st) (counters st')"
    using n by (auto simp: run_one_def and_go_def Let_def ends_def split: prod.splits option.splits if_splits)
  then have "set l \<inter> {TPASS, TFAIL, TCONF, TBROK} \<noteq> {}" using s tally_other by (fastforce simp: steps_def)
  then show "\<exists>l. logged st' = logged st @ l \<and> set l \<inter> {TPASS, TFAIL, TCONF, TBROK} \<noteq> {}" using s by (auto simp: steps_def)
next
  assume "does B (length (trace st)) c = [] \<and> reaps B (Suc (length (trace st))) = []"
  then have "run_one T B c st = ends (main_brk T B TBROK (st\<lparr>trace := trace st @ [c]\<rparr>))"
    by (simp add: run_one_def run_callback_def and_go_def Let_def results_equal_def)
  then show "\<exists>st' w l. run_one T B c st = (st', Some w) \<and> logged st' = logged st @ TBROK # l"
    using main_brk_logs [of T B TBROK "st\<lparr>trace := trace st @ [c]\<rparr>"] by (simp add: ends_def)
qed

text \<open>A test whose calls only report that they pass.\<close>

definition passing :: "behaviour \<Rightarrow> bool" where
  "passing B \<longleftrightarrow> (\<forall>n. (\<forall>i. \<exists>k. 0 < k \<and> k < 2 ^ 31 \<and> does B n (Test i) = replicate k (Res TPASS))
     \<and> (\<exists>k. 0 < k \<and> k < 2 ^ 31 \<and> does B n Test_all = replicate k (Res TPASS)) \<and> does B n Setup = [] \<and> does B n Cleanup = []
     \<and> set (reaps B n) \<subseteq> {Reaped (Exited 0), Interrupted} \<and> late B n = [] \<and> fork_ok B n) \<and> caps_req B = [] \<and> caps_drop B = []"

definition plain :: "test_desc \<Rightarrow> bool" where
  "plain T \<longleftrightarrow> duration T = None \<and> taint_check T = 0 \<and> \<not> all_filesystems T \<and> filesystems T = None \<and> skip_filesystems T = None"

definition passed_on :: "run_state \<Rightarrow> callback list \<Rightarrow> run_state \<Rightarrow> bool" where
  "passed_on st tr st' \<longleftrightarrow> (\<exists>k. steps st (replicate k TPASS) tr st') \<and> c_int (passed (counters st')) = passed (counters st')"

lemma passed_on_trans: "passed_on st a st' \<Longrightarrow> passed_on st' b st'' \<Longrightarrow> passed_on st (a @ b) st''"
  unfolding passed_on_def using steps_trans replicate_add by metis

lemma passed_on_call: "passed_on st a st' \<Longrightarrow> c \<noteq> Aborted \<Longrightarrow> passed_on st (a @ [c]) (st'\<lparr>trace := trace st' @ [c]\<rparr>)"
  by (rule passed_on_trans [of _ _ st']) (auto simp: passed_on_def intro: exI [of _ 0])

lemma in_test_passes: "\<exists>st'. in_test T B (replicate k (Res TPASS)) st = (st', None) \<and> steps st (replicate k TPASS) [] st'"
proof (induction k arbitrary: st)
  case (Suc k)
  have "TTYPE_RESULT TPASS = TPASS" by (simp add: TTYPE_RESULT_def TTYPE_MASK_def flag_defs)
  then have "in_test T B (replicate (Suc k) (Res TPASS)) st = in_test T B (replicate k (Res TPASS)) (report TPASS st)" by simp
  then show ?case using Suc [of "report TPASS st"] steps_trans [OF steps_report [of st TPASS]] by fastforce
qed simp

lemma reap_passes: "set rs \<subseteq> {Reaped (Exited 0), Interrupted} \<Longrightarrow> tst_reap_children T B rs st = (st, None)"
  by (induction T B rs st rule: tst_reap_children.induct) (auto simp: check_child_status_def)

lemma run_one_passes:
  assumes "passing B" "c = Test_all \<or> c = Test i" "passed_on st0 tr st"
  shows "\<exists>st'. run_one T B c st = (st', None) \<and> passed_on st0 (tr @ [c]) st'"
proof -
  obtain k where k: "0 < k" "k < 2 ^ 31" "does B (length (trace st)) c = replicate k (Res TPASS)"
    using assms(1,2) unfolding passing_def by metis
  obtain st' where st': "in_test T B (replicate k (Res TPASS)) (st\<lparr>trace := trace st @ [c]\<rparr>) = (st', None)"
    "steps (st\<lparr>trace := trace st @ [c]\<rparr>) (replicate k TPASS) [] st'"
    using in_test_passes by blast
  have s: "steps st (replicate k TPASS) [c] st'" using steps_trans [OF steps_call st'(2)] assms(2) by auto
  have w: "c_int (passed (counters st)) = passed (counters st)" using assms(3) by (simp add: passed_on_def)
  have "passed (fold tally (replicate k TPASS) (counters st)) = c_int (passed (counters st) + int (count_list (replicate k TPASS) TPASS))"
    by (rule fold_counter) (simp_all add: tally_fields w)
  moreover have "count_list (replicate k TPASS) TPASS = k" by (induction k) simp_all
  ultimately have p: "passed (counters st') = c_int (passed (counters st) + int k)" using s by (simp add: steps_def)
  have "passed (counters st') \<noteq> passed (counters st)"
  proof
    assume "passed (counters st') = passed (counters st)"
    then have "c_int (passed (counters st) + int k) = c_int (passed (counters st))" using p w by simp
    then have "(passed (counters st) + int k) mod 4294967296 = passed (counters st) mod 4294967296"
      by (simp add: c_int_def signed_take_bit_eq_iff_take_bit_eq take_bit_eq_mod)
    then have "int k mod 4294967296 = 0" by (metis add_diff_cancel_left' mod_diff_cong diff_self mod_0)
    then show False using k(1,2) by simp
  qed
  moreover have "tst_reap_children T B (reaps B (length (trace st'))) st' = (st', None)"
    using assms(1) by (intro reap_passes) (simp add: passing_def)
  ultimately have "run_one T B c st = (st', None)"
    using k(3) st'(1) by (simp add: run_one_def run_callback_def and_go_def Let_def results_equal_def)
  moreover have "passed_on st [c] st'" using s p by (auto simp: passed_on_def c_int_add [of _ 0, simplified])
  ultimately show ?thesis using passed_on_trans [OF assms(3)] by blast
qed

definition test_calls :: "test_desc \<Rightarrow> callback list" where
  "test_calls T = (if has_test T then map Test [0..<tcnt T] else [Test_all])"

lemma run_tests_passes:
  assumes "passing B" "passed_on st0 tr st"
  shows "\<exists>st'. run_tests T B st = (st', None) \<and> passed_on st0 (tr @ test_calls T) st'"
proof -
  have "\<exists>st'. tests_loop T B is st = (st', None) \<and> passed_on st0 (tr @ map Test is) st'" for "is"
    using assms(2)
  proof (induction "is" arbitrary: tr st)
    case (Cons i "is")
    obtain st1 where "run_one T B (Test i) st = (st1, None)" "passed_on st0 (tr @ [Test i]) st1"
      using run_one_passes [OF assms(1) _ Cons.prems] by blast
    then show ?case using Cons.IH [of "tr @ [Test i]" st1] by (simp add: and_go_def)
  qed simp
  then show ?thesis
    using run_one_passes [OF assms(1) _ assms(2)] by (simp add: run_tests_def test_calls_def)
qed

lemma test_loop_passes:
  assumes "passing B" "passed_on st0 tr st"
  shows "\<exists>st'. test_loop T B 0 i st = Some (st', None)
    \<and> passed_on st0 (tr @ concat (replicate (iterations T - i) (test_calls T))) st'"
  using assms(2)
proof (induction "iterations T - i" arbitrary: i tr st)
  case 0
  then show ?case by (subst test_loop.simps) (simp add: more_time_def)
next
  case (Suc n)
  obtain st1 where s: "run_tests T B st = (st1, None)" "passed_on st0 (tr @ test_calls T) st1"
    using run_tests_passes [OF assms(1) Suc.prems] by blast
  have i: "i < iterations T" "iterations T - i = Suc (iterations T - Suc i)" using Suc.hyps(2) by linarith+
  then show ?case
    using Suc.hyps(1) [of "Suc i", OF _ s(2)] Suc.hyps(2) s(1)
    by (subst test_loop.simps) (auto simp: more_time_def)
qed

definition process_calls :: "test_desc \<Rightarrow> callback list" where
  "process_calls T = Started # (if has_setup T then [Setup] else []) @ concat (replicate (iterations T) (test_calls T))
     @ (if has_cleanup T then [Cleanup] else [])"

lemma fork_testrun_passes:
  assumes "passing B" "plain T" "passed_on st0 tr st"
  shows "\<exists>st'. fork_testrun T B st = Some (Cont st') \<and> passed_on st0 (tr @ process_calls T) st'"
proof -
  let ?a = "tr @ Started # (if has_setup T then [Setup] else [])"
  let ?st = "st\<lparr>trace := trace st @ [Started]\<rparr>"
  have d: "\<And>n. does B n Setup = []" "\<And>n. does B n Cleanup = []" "\<And>n. late B n = []" "\<And>n. fork_ok B n" "caps_req B = []" "caps_drop B = []"
    using assms(1) by (simp_all add: passing_def)
  have p: "duration T = None" "taint_check T = 0" "\<not> all_filesystems T" "skip_filesystems T = None" using assms(2) by (simp_all add: plain_def)
  have "passed_on st0 (tr @ [Started]) ?st" using passed_on_call [OF assms(3)] by simp
  then obtain st1 where 1: "do_test_setup T B ?st = (st1, None)" "passed_on st0 ?a st1"
    using passed_on_call [of st0 "tr @ [Started]" ?st Setup]
    by (cases "has_setup T") (simp_all add: do_test_setup_def p d tst_fs_in_skiplist_def and_go_def run_callback_def)
  obtain st2 where 2: "after_setup T B st1 = Some (st2, None)" "passed_on st0 (?a @ concat (replicate (iterations T) (test_calls T))) st2"
    using test_loop_passes [OF assms(1) 1(2), of T 0] by (auto simp: after_setup_def p)
  obtain st3 where 3: "do_test_cleanup T B st2 = (st3, None)" "passed_on st0 (tr @ process_calls T) st3"
    using 2(2) passed_on_call [OF 2(2), of Cleanup] by (cases "has_cleanup T") (simp_all add: do_test_cleanup_def d process_calls_def)
  then have "testrun T B ?st = Some (st3, Exited 0)" using 1(1) 2(1) by (simp add: testrun_def)
  then show ?thesis using 3(2) by (simp add: fork_testrun_def d p after_wait_def check_status_def)
qed

lemma passed_not_aborted:
  assumes "passed_on (init_state\<lparr>taint_mask := m\<rparr>) tr st" "Aborted \<notin> set tr"
  shows "abort_flag st = 0 \<and> do_exit 0 st = Quit 0 st \<and> trace st = tr \<and> set (logged st) \<subseteq> {TPASS}"
proof -
  obtain k where s: "steps (init_state\<lparr>taint_mask := m\<rparr>) (replicate k TPASS) tr st" using assms(1) by (auto simp: passed_on_def)
  have c: "counters st = fold tally (replicate k TPASS) no_results" using s by (simp add: steps_def init_state_def no_results_def)
  have n: "t \<noteq> TPASS \<Longrightarrow> count_list (replicate k TPASS) t = 0" for t by (simp add: count_list_0_iff)
  have "skipped (counters st) = 0" "failed (counters st) = 0" "warnings (counters st) = 0" "broken (counters st) = 0"
    unfolding c counted by (simp_all add: n c_int_id)
  moreover have "count_list tr Aborted = 0" using assms(2) by (simp add: count_list_0_iff)
  ultimately show ?thesis using s by (simp add: do_exit_def exit_code_eq steps_def init_state_def set_replicate_conv_if)
qed

lemma process_calls_quiet: "Aborted \<notin> set (process_calls T)"
  by (auto simp: process_calls_def test_calls_def)

lemma variants_pass:
  assumes "passing B" "plain T" "passed_on (init_state\<lparr>taint_mask := m\<rparr>) tr st" "Aborted \<notin> set tr"
  shows "\<exists>st'. variants_loop T B n st = Some (Quit 0 st') \<and> trace st' = tr @ concat (replicate n (process_calls T)) \<and> set (logged st') \<subseteq> {TPASS}"
  using assms(3,4)
proof (induction n arbitrary: tr st)
  case 0
  then show ?case using passed_not_aborted by simp
next
  case (Suc n)
  obtain st1 where f: "fork_testrun T B st = Some (Cont st1)" "passed_on (init_state\<lparr>taint_mask := m\<rparr>) (tr @ process_calls T) st1"
    using fork_testrun_passes [OF assms(1,2) Suc.prems(1)] by blast
  have q: "Aborted \<notin> set (tr @ process_calls T)" using Suc.prems(2) process_calls_quiet by simp
  have p: "filesystems T = None" "\<not> all_filesystems T" using assms(2) by (simp_all add: plain_def)
  show ?case using Suc.IH [OF f(2) q] passed_not_aborted [OF f(2) q] f(1) p by (simp add: count_fs_descs_def)
qed

text \<open>C20: A test whose functions report only that they pass is run for every variant, in a process of its own: the setup
  function, for every iteration the test function with each number, and the cleanup
  function. The exit code is 0.\<close>
theorem passing_test_runs:
  assumes "passing B" "plain T"
  shows "\<exists>st. tst_run_tcases T B [] tmask = Some (Quit 0 st) \<and> set (logged st) \<subseteq> {TPASS}
    \<and> trace st = concat (replicate (if test_variants T = 0 then 1 else test_variants T)
        (Started # (if has_setup T then [Setup] else [])
         @ concat (replicate (iterations T) (if has_test T then map Test [0..<tcnt T] else [Test_all]))
         @ (if has_cleanup T then [Cleanup] else [])))"
proof -
  let ?st = "init_state\<lparr>taint_mask := tmask\<rparr>"
  have "passed_on ?st [] ?st" by (auto simp: passed_on_def init_state_def c_int_id intro: exI [of _ 0])
  from variants_pass [OF assms this, of "if test_variants T = 0 then 1 else test_variants T"]
  obtain st where st: "variants_loop T B (if test_variants T = 0 then 1 else test_variants T) ?st = Some (Quit 0 st)"
    "trace st = concat (replicate (if test_variants T = 0 then 1 else test_variants T) (process_calls T))" "set (logged st) \<subseteq> {TPASS}"
    by auto
  have "tst_run_tcases T B [] tmask = Some (Quit 0 st)"
    using st(1) by (cases "test_variants T = 0") (simp_all add: tst_run_tcases_def del: variants_loop.simps)
  then show ?thesis using st(2,3) unfolding process_calls_def test_calls_def by blast
qed

text \<open>A test function that calls \<open>exit(0)\<close> without a result makes the whole test succeed with no result at all, and without the cleanup function.\<close>
theorem exit_in_test_passes:
  assumes "plain T" "0 < iterations T" "has_test T \<longrightarrow> 0 < tcnt T" "\<And>n. fork_ok B n" "\<And>n. late B n = []"
    "\<And>n. does B n Setup = []" "\<And>n i. does B n (Test i) = [Exits 0]" "\<And>n. does B n Test_all = [Exits 0]" "caps_req B = []" "caps_drop B = []"
  shows "\<exists>st. tst_run_tcases T B [] tmask = Some (Quit 0 st) \<and> logged st = [] \<and> Cleanup \<notin> set (trace st)"
proof -
  have p: "duration T = None" "taint_check T = 0" "\<not> all_filesystems T" "skip_filesystems T = None" "filesystems T = None"
    using assms(1) by (simp_all add: plain_def)
  let ?s = "\<lambda>st. abort_flag st = 0 \<and> counters st = no_results \<and> logged st = [] \<and> Cleanup \<notin> set (trace st)"
  have one: "c = Test_all \<or> c = Test i \<Longrightarrow> run_one T B c st = (st\<lparr>trace := trace st @ [c]\<rparr>, Some (Exited 0))" for c i st
    using assms(7,8) by (auto simp: run_one_def run_callback_def and_go_def)
  have upt: "has_test T \<Longrightarrow> [0..<tcnt T] = 0 # [1..<tcnt T]" using assms(3) by (simp add: upt_conv_Cons)
  have tests: "run_tests T B st = (st\<lparr>trace := trace st @ [if has_test T then Test 0 else Test_all]\<rparr>, Some (Exited 0))" for st
    using one [of "Test 0" 0 st] one [of Test_all 0 st] upt by (simp add: run_tests_def and_go_def)
  have loop: "test_loop T B 0 0 st = Some (st\<lparr>trace := trace st @ [if has_test T then Test 0 else Test_all]\<rparr>, Some (Exited 0))" for st
    using assms(2) by (subst test_loop.simps) (simp add: more_time_def tests)
  have fork: "?s st \<Longrightarrow> \<exists>st'. fork_testrun T B st = Some (Cont st') \<and> ?s st'" for st
    by (simp add: fork_testrun_def testrun_def do_test_setup_def p assms(4,5,6,9,10) tst_fs_in_skiplist_def and_go_def run_callback_def
        after_setup_def loop after_wait_def check_status_def)
  have "?s st \<Longrightarrow> \<exists>st'. variants_loop T B n st = Some (Quit 0 st') \<and> ?s st'" for n st
  proof (induction n arbitrary: st)
    case 0
    then show ?case by (simp add: do_exit_def exit_code_eq no_results_def)
  next
    case (Suc n)
    then show ?case using fork [OF Suc.prems] by (auto simp: p count_fs_descs_def)
  qed
  from this [of "init_state\<lparr>taint_mask := tmask\<rparr>"] show ?thesis
    by (auto simp: tst_run_tcases_def init_state_def no_results_def simp del: variants_loop.simps)
qed

text \<open>The loop over the file system descriptions ends at a default entry, which has no name, also when it is the
  first one. So its successors are never used, and a test that does not ask for all file systems is
  skipped, whatever file systems are supported.\<close>
theorem default_entry_hides_rest:
  assumes "filesystems T = Some (e # f # es)" "fs_type e = None" "fs_type f \<noteq> None" "\<exists>g \<in> set es. fs_type g = None"
    "only_fs B = None \<or> force_only_fs B = None"
  shows "lookup_fs_desc (filesystems T) type all_fs = Some (if all_fs then Some e else None)
    \<and> (\<not> all_filesystems T \<longrightarrow> (\<exists>st. tst_run_tcases T B [] tmask = Some (Quit TCONF st) \<and> trace st = [] \<and> logged st = [TCONF]))"
proof -
  have l: "lookup_fs_desc (filesystems T) type all_fs = Some (if all_fs then Some e else None)" for type all_fs
    using assms(1,2) by (simp add: lookup_fs_desc_def)
  have "\<exists>st. tst_run_tcases T B [] tmask = Some (Quit TCONF st) \<and> trace st = [] \<and> logged st = [TCONF]" if a: "\<not> all_filesystems T"
  proof -
    obtain k where "typed_prefix es = Some k" using typed_prefix_some assms(4) by blast
    then have k: "count_fs_descs (filesystems T) = Some (Suc (Suc k))" using assms(1-3) by (simp add: count_fs_descs_def)
    have runs: "fs_runs T B types False st = Some (lib_brk TCONF st)" for types st
      by (induction types) (simp_all add: l a)
    obtain types where "tst_get_supported_fs_types B (skip_filesystems T) [] = Some types"
      using assms(5) by (cases "only_fs B"; cases "force_only_fs B"; cases "the (only_fs B) = []")
        (simp_all add: tst_get_supported_fs_types_def Let_def)
    then have "run_tcases_per_fs T B (init_state\<lparr>taint_mask := tmask\<rparr>) = Some (lib_brk TCONF (init_state\<lparr>taint_mask := tmask, fs_types := types\<rparr>))"
      by (simp add: run_tcases_per_fs_def init_state_def runs Let_def)
    then show ?thesis
      using k a by (cases "test_variants T")
        (simp_all add: tst_run_tcases_def lib_brk_def do_exit_def exit_code_eq Let_def report_def update_results_def tst_atomic_inc_def init_state_def c_int_id)
  qed
  then show ?thesis using l by blast
qed

section \<open>Examples\<close>

definition example_test :: test_desc where
  "example_test = \<lparr>tcnt = 2, has_test = True, has_setup = True, has_cleanup = True, forks_child = False, all_filesystems = False,
     skip_filesystems = None, taint_check = 0, test_variants = 2, filesystems = None, iterations = 1, duration = None\<rparr>"

definition example_behaviour :: behaviour where
  "example_behaviour = \<lparr>does = (\<lambda>n c. case c of Test i \<Rightarrow> [Res TPASS] | Test_all \<Rightarrow> [Res TPASS] | _ \<Rightarrow> []), reaps = (\<lambda>n. []), late = (\<lambda>n. []),
     fork_ok = (\<lambda>n. True), clock = (\<lambda>n. Some n), cur_fs = ''ext4'', caps_req = [], caps_drop = [], tainted = (\<lambda>n. 0), release = ''6.1.0'',
     check_cmd = (\<lambda>v. (True, [])), prepare_device = (\<lambda>t. []), fs_support = (\<lambda>t. 1), only_fs = None, force_only_fs = None\<rparr>"

lemma example_ok:
  "clock_advances example_test B" "terminated example_test" "lib_typed example_behaviour" "typed []" "plain example_test"
  by (simp_all add: clock_advances_def terminated_def lib_typed_def typed_def example_test_def example_behaviour_def plain_def)

lemma example_passing: "passing example_behaviour"
  unfolding passing_def example_behaviour_def by (auto intro!: exI [of _ "Suc 0"])

theorem testrun_cleans_up_witness:
  "\<exists>st' w tr. testrun example_test example_behaviour init_state = Some (st', w) \<and> trace st' = trace init_state @ tr \<and> count_list tr Cleanup \<le> 1
    \<and> (has_cleanup example_test \<and> tidy example_behaviour \<and> (\<exists>n. w = Exited n) \<longrightarrow> Cleanup \<in> set tr)"
  using testrun_cleans_up [OF example_ok(1) [of example_behaviour], of init_state] by blast


theorem test_must_report_witness:
  "\<exists>st' w l. run_one example_test (example_behaviour\<lparr>does := \<lambda>n c. []\<rparr>) Test_all init_state = (st', Some w) \<and> logged st' = TBROK # l"
  using test_must_report [of Test_all 0 example_test "example_behaviour\<lparr>does := \<lambda>n c. []\<rparr>" init_state init_state]
  by (simp add: example_behaviour_def init_state_def)

theorem passing_test_runs_witness:
  "\<exists>st. tst_run_tcases example_test example_behaviour [] 0 = Some (Quit 0 st)
    \<and> trace st = [Started, Setup, Test 0, Test 1, Cleanup, Started, Setup, Test 0, Test 1, Cleanup]"
  using passing_test_runs [OF example_passing example_ok(5), of 0]
  by (simp add: example_test_def numeral_2_eq_2) blast

theorem exit_in_test_passes_witness:
  "\<exists>st. tst_run_tcases example_test (example_behaviour\<lparr>does := \<lambda>n c. case c of Test i \<Rightarrow> [Exits 0] | Test_all \<Rightarrow> [Exits 0] | _ \<Rightarrow> []\<rparr>) [] 0 = Some (Quit 0 st)
    \<and> logged st = [] \<and> Cleanup \<notin> set (trace st)"
  using exit_in_test_passes [OF example_ok(5), of "example_behaviour\<lparr>does := \<lambda>n c. case c of Test i \<Rightarrow> [Exits 0] | Test_all \<Rightarrow> [Exits 0] | _ \<Rightarrow> []\<rparr>" 0]
  by (simp add: example_behaviour_def example_test_def)

theorem default_entry_hides_rest_witness:
  "\<exists>st. tst_run_tcases (example_test\<lparr>filesystems := Some [empty_fs, empty_fs\<lparr>fs_type := Some ''xfs''\<rparr>, empty_fs]\<rparr>) example_behaviour [] 0 = Some (Quit TCONF st)
    \<and> trace st = [] \<and> logged st = [TCONF]"
  using default_entry_hides_rest [of "example_test\<lparr>filesystems := Some [empty_fs, empty_fs\<lparr>fs_type := Some ''xfs''\<rparr>, empty_fs]\<rparr>"
      empty_fs "empty_fs\<lparr>fs_type := Some ''xfs''\<rparr>" "[empty_fs]" example_behaviour "''xfs''" False 0]
  by (simp add: example_behaviour_def example_test_def empty_fs_def)

end
