(* ===== verification/Check_Cmd.thy ===== *)
theory Check_Cmd
  imports Test_Run
begin

text \<open>
  The check of a command and its version (\<open>tst_check_cmd()\<close> of \<open>lib/tst_cmd.c\<close>), as in
  \<open>mkfs.ext4 >= 1.43.0\<close>. Whether a command is found in \<open>$PATH\<close> and what it prints with the option
  \<open>-V\<close> are parameters.
\<close>

record tools =
  in_path :: "string \<Rightarrow> bool"
  prints_version :: "string \<Rightarrow> string option"

lemma dropWhile_blank_shorter:
  "dropWhile (\<lambda>c. c = CHR '' '') s \<noteq> [] \<Longrightarrow> length (dropWhile (\<lambda>c. c \<noteq> CHR '' '') (dropWhile (\<lambda>c. c = CHR '' '') s)) < length s"
proof -
  assume "dropWhile (\<lambda>c. c = CHR '' '') s \<noteq> []"
  then obtain c t where t: "dropWhile (\<lambda>c. c = CHR '' '') s = c # t" "c \<noteq> CHR '' ''"
    using hd_dropWhile [of "\<lambda>c. c = CHR '' ''" s] by (cases "dropWhile (\<lambda>c. c = CHR '' '') s") auto
  have "length (dropWhile (\<lambda>c. c \<noteq> CHR '' '') (c # t)) \<le> length t" using t(2) by (simp add: length_dropWhile_le)
  moreover have "length (c # t) \<le> length s" using length_dropWhile_le [of "\<lambda>c. c = CHR '' ''" s] t(1) by simp
  ultimately show ?thesis using t(1) by simp
qed

text \<open>The words that \<open>strtok_r()\<close> finds between blanks.\<close>

function blank_words :: "string \<Rightarrow> string list" where
  "blank_words s =
     (let t = dropWhile (\<lambda>c. c = CHR '' '') s in
      if t = [] then [] else takeWhile (\<lambda>c. c \<noteq> CHR '' '') t # blank_words (dropWhile (\<lambda>c. c \<noteq> CHR '' '') t))"
  by pat_completeness auto
termination by (relation "measure length") (simp_all only: in_measure wf_measure dropWhile_blank_shorter not_False_eq_True)

declare blank_words.simps [simp del]

text \<open>Three numbers with dots between them, read by \<open>%d\<close> or \<open>%u\<close>, and the text behind.\<close>

definition scan_uint :: "string \<Rightarrow> (int \<times> string) option" where
  "scan_uint s = (case strtoul s of (v, r) \<Rightarrow> if r = s then None else Some (c_int v, r))"

definition scan3 :: "(string \<Rightarrow> (int \<times> string) option) \<Rightarrow> string \<Rightarrow> (int \<times> int \<times> int \<times> string) option" where
  "scan3 f s =
     Option.bind (f s) (\<lambda>(a, r). if deref r \<noteq> CHR ''.'' then None else
     Option.bind (f (drop 1 r)) (\<lambda>(b, r). if deref r \<noteq> CHR ''.'' then None else
     Option.bind (f (drop 1 r)) (\<lambda>(c, r). Some (a, b, c, r))))"

definition version_number :: "int \<Rightarrow> int \<Rightarrow> int \<Rightarrow> int" where
  "version_number major minor patch = c_int (major * 10000 + minor * 100 + patch)"

text \<open>Literal words of a format with white space behind each of them.\<close>

fun skip_words :: "string list \<Rightarrow> string \<Rightarrow> string option" where
  "skip_words [] s = Some s"
| "skip_words (w # ws) s = (if take (length w) s = w then skip_words ws (dropWhile isspace (drop (length w) s)) else None)"

text \<open>The parsers return the version or -1, and what they report.\<close>

definition parse_version :: "string list \<Rightarrow> string option \<Rightarrow> int \<times> action list" where
  "parse_version ws text_of =
     (case text_of of
        None \<Rightarrow> (- 1, [Res TWARN])
      | Some t \<Rightarrow>
          (case Option.bind (skip_words ws t) (scan3 scan_int) of
             None \<Rightarrow> (- 1, [Res TWARN])
           | Some (major, minor, patch, _) \<Rightarrow> (version_number major minor patch, [])))"

definition mkfs_ext4_version_parser :: "tools \<Rightarrow> int \<times> action list" where
  "mkfs_ext4_version_parser P = parse_version [''mke2fs''] (prints_version P ''mkfs.ext4'')"

definition mkfs_xfs_version_parser :: "tools \<Rightarrow> int \<times> action list" where
  "mkfs_xfs_version_parser P = parse_version [''mkfs.xfs'', ''version''] (prints_version P ''mkfs.xfs'')"

definition mkfs_generic_version_table_get :: "string \<Rightarrow> int \<times> action list" where
  "mkfs_generic_version_table_get version =
     (case scan3 scan_uint version of
        None \<Rightarrow> (- 1, [Res TWARN])
      | Some (major, minor, patch, r) \<Rightarrow>
          if dropWhile isspace r \<noteq> [] then (- 1, [Res TWARN]) else (version_number major minor patch, []))"

definition version_parsers :: "tools \<Rightarrow> (string \<times> (int \<times> action list)) list" where
  "version_parsers P = [(''mkfs.ext4'', mkfs_ext4_version_parser P), (''mkfs.xfs'', mkfs_xfs_version_parser P)]"

definition compare_version :: "string \<Rightarrow> int \<Rightarrow> int \<Rightarrow> bool option" where
  "compare_version op_token ver_parser ver_get =
     (if op_token = ''>='' then Some (\<not> ver_parser < ver_get)
      else if op_token = ''>'' then Some (\<not> ver_parser \<le> ver_get)
      else if op_token = ''<='' then Some (\<not> ver_parser > ver_get)
      else if op_token = ''<'' then Some (\<not> ver_parser \<ge> ver_get)
      else if op_token = ''=='' then Some (ver_parser = ver_get)
      else if op_token = ''!='' then Some (ver_parser \<noteq> ver_get)
      else None)"

definition check_version :: "tools \<Rightarrow> string \<Rightarrow> string \<Rightarrow> string \<Rightarrow> bool \<Rightarrow> bool \<times> action list" where
  "check_version P cmd_token op_token version_token brk_nosupp =
     (case map_of (version_parsers P) cmd_token of
        None \<Rightarrow> (False, [Main_brk TBROK])
      | Some (ver_parser, as1) \<Rightarrow>
          if ver_parser < 0 then (False, as1 @ [Main_brk TBROK])
          else (case mkfs_generic_version_table_get version_token of (ver_get, as2) \<Rightarrow>
            if ver_get < 0 then (False, as1 @ as2 @ [Main_brk TBROK])
            else (case compare_version op_token ver_parser ver_get of
                None \<Rightarrow> (False, as1 @ as2 @ [Main_brk TCONF])
              | Some True \<Rightarrow> (True, as1 @ as2)
              | Some False \<Rightarrow> (False, as1 @ as2 @ [if brk_nosupp then Main_brk TCONF else Res TCONF]))))"

text \<open>\<open>None\<close> is a command that does not fit into the array \<open>parser_cmd\<close> or has no word.\<close>

definition tst_check_cmd :: "tools \<Rightarrow> string \<Rightarrow> bool \<Rightarrow> (bool \<times> action list) option" where
  "tst_check_cmd P cmd brk_nosupp =
     (if length cmd \<ge> 100 then None
      else case blank_words cmd of
        [] \<Rightarrow> None
      | cmd_token # args \<Rightarrow>
          if \<not> in_path P cmd_token then Some (False, [if brk_nosupp then Main_brk TCONF else Res TCONF])
          else Some (case args of
              [] \<Rightarrow> (True, [])
            | [op_token, version_token] \<Rightarrow> check_version P cmd_token op_token version_token brk_nosupp
            | _ \<Rightarrow> (False, [Main_brk TCONF])))"

section \<open>Versions\<close>

lemma words_cons: "w \<noteq> [] \<Longrightarrow> CHR '' '' \<notin> set w \<Longrightarrow> deref rest = CHR '' '' \<or> rest = [] \<Longrightarrow> blank_words (w @ rest) = w # blank_words rest"
proof -
  assume w: "w \<noteq> []" "CHR '' '' \<notin> set w" "deref rest = CHR '' '' \<or> rest = []"
  have "dropWhile (\<lambda>c. c = CHR '' '') (w @ rest) = w @ rest" using w(1,2) by (cases w) auto
  moreover have "takeWhile (\<lambda>c. c \<noteq> CHR '' '') (w @ rest) = w" "dropWhile (\<lambda>c. c \<noteq> CHR '' '') (w @ rest) = rest"
    using w(2,3) by (cases rest; auto simp: takeWhile_append dropWhile_append deref_def)+
  ultimately show ?thesis using w(1) by (subst blank_words.simps) simp
qed

lemma words_blank: "blank_words (CHR '' '' # s) = blank_words s"
  by (simp add: blank_words.simps [of "CHR '' '' # s"] blank_words.simps [of s])

lemma words_nil: "blank_words [] = []"
  by (subst blank_words.simps) simp

lemma scan_uint_number:
  assumes "\<not> isdigit (deref rest)" "n \<le> 2147483647"
  shows "scan_uint (dec_of_nat n @ rest) = Some (int n, rest)"
  using assms(2) number_split [OF assms(1)]
  by (simp add: scan_uint_def strtoul_def Let_def dec_val_dec_of_nat c_int_id)

lemma scan3_text:
  assumes "\<And>n rest. n \<le> 2147483647 \<Longrightarrow> \<not> isdigit (deref rest) \<Longrightarrow> f (dec_of_nat n @ rest) = Some (int n, rest)"
    "a \<le> 2147483647" "b \<le> 2147483647" "c \<le> 2147483647" "\<not> isdigit (deref rest)"
  shows "scan3 f (ver_text ''..'' [a, b, c] @ rest) = Some (int a, int b, int c, rest)"
  using assms by (simp add: scan3_def not_digit)

text \<open>Versions whose lower two numbers are below 100, and the order of their numbers.\<close>

definition ver_ok :: "nat list \<Rightarrow> bool" where
  "ver_ok v \<longleftrightarrow> length v = 3 \<and> v ! 0 < 100000 \<and> v ! 1 < 100 \<and> v ! 2 < 100"

definition ver_num :: "nat list \<Rightarrow> int" where
  "ver_num v = int (v ! 0 * 10000 + v ! 1 * 100 + v ! 2)"

lemma ver_ok_cases: "ver_ok v \<Longrightarrow> \<exists>a b c. v = [a, b, c] \<and> a < 100000 \<and> b < 100 \<and> c < 100"
  by (auto simp: ver_ok_def length_Suc_conv numeral_3_eq_3)

lemma version_number_ok: "ver_ok [a, b, c] \<Longrightarrow> version_number (int a) (int b) (int c) = ver_num [a, b, c]"
  by (simp add: version_number_def ver_ok_def ver_num_def c_int_id)

lemma ver_num_order:
  assumes "ver_ok v" "ver_ok w"
  shows "ver_num v < ver_num w \<longleftrightarrow> v < w" "ver_num v = ver_num w \<longleftrightarrow> v = w"
proof -
  obtain a b c x y z where v: "v = [a, b, c]" "b < 100" "c < 100" and w: "w = [x, y, z]" "y < 100" "z < 100"
    using assms ver_ok_cases by metis
  show "ver_num v < ver_num w \<longleftrightarrow> v < w" "ver_num v = ver_num w \<longleftrightarrow> v = w"
    using v(2,3) w(2,3) unfolding v(1) w(1) ver_num_def of_nat_less_iff of_nat_eq_iff 
    by (cases a x rule: linorder_cases; cases b y rule: linorder_cases; simp)+
qed

definition version_holds :: "string \<Rightarrow> nat list \<Rightarrow> nat list \<Rightarrow> bool" where
  "version_holds p v w \<longleftrightarrow> p = ''>='' \<and> w \<le> v \<or> p = ''>'' \<and> w < v \<or> p = ''<='' \<and> v \<le> w \<or> p = ''<'' \<and> v < w
     \<or> p = ''=='' \<and> v = w \<or> p = ''!='' \<and> v \<noteq> w"

lemma compare_version_order:
  assumes "ver_ok v" "ver_ok w" "p \<in> {''>='', ''>'', ''<='', ''<'', ''=='', ''!=''}"
  shows "compare_version p (ver_num v) (ver_num w) = Some (version_holds p v w)"
  using assms(3) ver_num_order [OF assms(1,2)] ver_num_order [OF assms(2,1)]
  by (auto simp: compare_version_def version_holds_def linorder_not_less [symmetric])

lemma table_get_text: "ver_ok w \<Longrightarrow> mkfs_generic_version_table_get (ver_text ''..'' w) = (ver_num w, [])"
proof -
  assume w: "ver_ok w"
  then obtain x y z where xyz: "w = [x, y, z]" "x < 100000" "y < 100" "z < 100" using ver_ok_cases by metis
  then have "scan3 scan_uint (ver_text ''..'' [x, y, z] @ []) = Some (int x, int y, int z, [])"
    using scan_uint_number by (intro scan3_text) (auto simp: not_digit)
  then have "scan3 scan_uint (ver_text ''..'' w) = Some (int x, int y, int z, [])" unfolding xyz(1) append_Nil2 .
  then show ?thesis using version_number_ok [of x y z] w xyz(1) by (simp add: mkfs_generic_version_table_get_def)
qed

lemma parse_version_text:
  assumes "ver_ok v" "skip_words ws t = Some (ver_text ''..'' v @ rest)" "\<not> isdigit (deref rest)"
  shows "parse_version ws (Some t) = (ver_num v, [])"
proof -
  obtain a b c where abc: "v = [a, b, c]" "a < 100000" "b < 100" "c < 100" using assms(1) ver_ok_cases by metis
  then have "scan3 scan_int (ver_text ''..'' v @ rest) = Some (int a, int b, int c, rest)"
    unfolding abc(1) using scan_int_number assms(3) by (intro scan3_text) auto
  then show ?thesis using version_number_ok [of a b c] assms(1,2) abc(1) by (simp add: parse_version_def)
qed

lemma ver_text_word: "ver_ok w \<Longrightarrow> ver_text ''..'' w \<noteq> [] \<and> CHR '' '' \<notin> set (ver_text ''..'' w) \<and> isdigit (hd (ver_text ''..'' w))"
proof -
  assume "ver_ok w"
  then obtain x y z where w: "w = [x, y, z]" using ver_ok_cases by metis
  have d: "c \<in> set (dec_of_nat n) \<Longrightarrow> isdigit c" for c n using dec_of_nat_digits [of n] by (simp add: list_all_iff)
  have "CHR '' '' \<notin> set (dec_of_nat n)" for n using d not_digit(4) by blast
  moreover have "isdigit (hd (dec_of_nat x))" using d [OF hd_in_set] dec_of_nat_ne [of x] by blast
  ultimately show ?thesis by (simp add: w)
qed

lemma ver_text_short: "ver_ok w \<Longrightarrow> length (ver_text ''..'' w) \<le> 11"
proof -
  assume "ver_ok w"
  then obtain x y z where "w = [x, y, z]" "x < 100000" "y < 100" "z < 100" using ver_ok_cases by metis
  then show ?thesis using dec_of_nat_short [of x 5] dec_of_nat_short [of y 2] dec_of_nat_short [of z 2] by simp
qed

text \<open>C34: A requirement on the version of \<open>mkfs.ext4\<close> or \<open>mkfs.xfs\<close> holds exactly when the numbers of the installed version stand in that
  relation to the wanted ones, as long as the lower two are below 100; otherwise the test is skipped, or only a skip reported.\<close>
theorem check_cmd_version:
  assumes "(cmd, pre) \<in> {(''mkfs.ext4'', ''mke2fs ''), (''mkfs.xfs'', ''mkfs.xfs version '')}"
    "in_path P cmd" "prints_version P cmd = Some (pre @ ver_text ''..'' v @ rest)" "\<not> isdigit (deref rest)" "ver_ok v" "ver_ok w"
    "p \<in> {''>='', ''>'', ''<='', ''<'', ''=='', ''!=''}"
  shows "tst_check_cmd P (cmd @ '' '' @ p @ '' '' @ ver_text ''..'' w) brk =
    Some (if version_holds p v w then (True, []) else (False, [if brk then Main_brk TCONF else Res TCONF]))"
proof -
  let ?t = "ver_text ''..'' w"
  have c: "cmd \<noteq> []" "CHR '' '' \<notin> set cmd" "p \<noteq> []" "CHR '' '' \<notin> set p" using assms(1,7) by auto
  have "blank_words ?t = [?t]" using words_cons [of ?t "[]"] ver_text_word [OF assms(6)] words_nil by simp
  then have w: "blank_words (cmd @ '' '' @ p @ '' '' @ ?t) = [cmd, p, ?t]"
    using words_cons [OF c(1,2), of "'' '' @ p @ '' '' @ ?t"] words_cons [OF c(3,4), of "'' '' @ ?t"] by (simp add: words_blank)
  obtain d ds where d: "ver_text ''..'' v = d # ds" "isdigit d" using ver_text_word [OF assms(5)] by (cases "ver_text ''..'' v") auto
  have blanks: "isspace (CHR '' '')" "\<not> isspace (CHR ''v'')" by (simp_all add: isspace_def char_between_def)
  have "map_of (version_parsers P) cmd = Some (ver_num v, [])"
    using assms(1,3) parse_version_text [OF assms(5) _ assms(4)] d digit_facts [of d] blanks
    by (auto simp: version_parsers_def mkfs_ext4_version_parser_def mkfs_xfs_version_parser_def)
  moreover have "ver_num v \<ge> 0" "ver_num w \<ge> 0" by (simp_all add: ver_num_def)
  ultimately have v: "check_version P cmd p ?t brk = (if version_holds p v w then (True, []) else (False, [if brk then Main_brk TCONF else Res TCONF]))"
    using table_get_text [OF assms(6)] compare_version_order [OF assms(5,6,7)] by (simp add: check_version_def)
  have "length (cmd @ '' '' @ p @ '' '' @ ?t) < 100" using ver_text_short [OF assms(6)] assms(1,7) by auto
  then show ?thesis unfolding tst_check_cmd_def using w v assms(2) by simp
qed

theorem check_cmd_version_witness:
  "tst_check_cmd \<lparr>in_path = (\<lambda>c. True), prints_version = (\<lambda>c. Some ''mke2fs 1.46.5 (30-Dec-2021)'')\<rparr> ''mkfs.ext4 >= 1.43.0'' False = Some (True, [])"
proof -
  let ?P = "\<lparr>in_path = (\<lambda>c. True), prints_version = (\<lambda>c. Some ''mke2fs 1.46.5 (30-Dec-2021)'')\<rparr>"
  have t: "prints_version ?P ''mkfs.ext4'' = Some (''mke2fs '' @ ver_text ''..'' [1, 46, 5] @ '' (30-Dec-2021)'')"
    and c: "''mkfs.ext4'' @ '' '' @ ''>='' @ '' '' @ ver_text ''..'' [1, 43, 0] = ''mkfs.ext4 >= 1.43.0''"
    by (simp_all add: dec_of_nat.simps digit_char_def char_of_def bit_numeral_rec bit_Suc_0_iff)
  have "version_holds ''>='' [1, 46, 5] [1, 43, 0]" by (simp add: version_holds_def)
  moreover have "tst_check_cmd ?P (''mkfs.ext4'' @ '' '' @ ''>='' @ '' '' @ ver_text ''..'' [1, 43, 0]) False =
    Some (if version_holds ''>='' [1, 46, 5] [1, 43, 0] then (True, []) else (False, [if False then Main_brk TCONF else Res TCONF]))"
    by (rule check_cmd_version [OF _ _ t]) (simp_all add: ver_ok_def not_digit)
  ultimately show ?thesis unfolding c by (simp only: if_True)
qed

end
