(* ===== verification/Test_Setup.thy ===== *)
theory Test_Setup
  imports Check_Cmd
begin

text \<open>
  The setup of the test library and its end (\<open>do_setup()\<close>, \<open>do_cleanup()\<close> and \<open>do_exit()\<close> of
  \<open>lib/tst_test.c\<close>, with \<open>lib/tst_taint.c\<close> and \<open>lib/tst_arch.c\<close>).

  The setup is a list of steps on the state of the library process. A step that calls the system or another part of
  the library asks the parameter \<open>fails\<close> whether this call, by its number, ends the process with \<open>tst_brk()\<close>, and of which type. Beside the
  variables of the source the state has the set of resources that exist in the system; a setting counts as changed when the call that changes it starts. There is a
  description of a test (the argument of \<open>tst_run_tcases()\<close> is not \<open>NULL\<close>).
\<close>

section \<open>The description of a test\<close>

text \<open>The members of \<open>struct tst_test\<close> that the setup reads, beside those of \<^typ>\<open>test_desc\<close>. Strings and pointers
  that are only tested for \<open>NULL\<close> are Boolean, arrays are lists without their terminating entry.\<close>

record setup_desc = test_desc +
  timeout :: int
  runtime :: int
  has_tconf_msg :: bool
  supported_archs :: "string list option"
  has_test_all :: bool
  has_sample :: bool
  runs_script :: bool
  child_needs_reinit :: bool
  needs_checkpoints :: bool
  needs_kconfigs :: bool
  needs_root :: bool
  needs_kver :: "string option"
  skip_in_lockdown :: bool
  skip_in_secureboot :: bool
  skip_in_compat :: bool
  needs_abi_bits :: int
  needs_cmds :: "(string \<times> bool) list"
  needs_drivers :: "string list"
  mount_device :: bool
  format_device :: bool
  needs_device :: bool
  min_cpus :: nat
  min_mem_avail :: nat
  min_swap_avail :: nat
  hugepages :: nat
  has_bufs :: bool
  asks_tmpdir :: bool
  save_restore :: "string list"
  ulimits :: "int list"
  has_mntpoint :: bool
  needs_devfs :: bool
  needs_rofs :: bool
  needs_hugetlbfs :: bool
  needs_overlay :: bool
  resource_files :: "string list option"
  restore_wallclock :: bool
  needs_cgroup_ctrls :: "string list option"
  needs_cgroup_ver :: bool
  dev_min_size :: nat

section \<open>System\<close>

datatype op =
    Make_tmpdir | Open_shm | Chmod_shm | Truncate_shm | Map_shm | Close_shm | Unlink_shm
  | Check_kconfig | Check_lockdown | Check_secureboot | Check_driver string | Check_bits
  | Reserve_hugepages | Alloc_buffers | Save_conf string | Set_ulimit int | Make_mntpoint
  | Mount_nodev | Ro_dir | Ro_file | Ro_chmod | Ro_remount | Mount_hugetlbfs
  | Acquire_device | Device_size | Check_fs | Make_fs | Mount_device | Mount_overlay
  | Copy_resource string | Save_wallclock | Read_taint | Cgroup_require string | Cgroup_init
  | Cgroup_cleanup | Umount_overlay | Umount_mntpoint | Release_device | Remove_tmpdir | Restore_conf | Restore_wallclock | Unlink_ipc

text \<open>What \<open>getopt()\<close> and the options of the test come to: \<open>exit(0)\<close>, \<open>tst_brk()\<close>, or the settings.\<close>

datatype opts = Opts_exit | Opts_brk int | Opts_set nat "nat option" int

record system =
  tools_of :: tools
  fails :: "nat \<Rightarrow> op \<Rightarrow> int option"
  arch_name :: string
  dev_shm :: bool
  opts_end :: "setup_desc \<Rightarrow> int list \<times> opts"
  kconfig_bad :: bool
  euid :: int
  lockdown :: int
  secureboot :: int
  kernel_bits :: int
  abi :: int
  driver_missing :: "string \<Rightarrow> bool"
  ncpus :: nat
  available_mem :: nat
  available_swap :: nat
  mounted_nodev :: bool
  mount_fails :: "string \<Rightarrow> bool"
  hugepages_dir :: bool
  dev_size :: nat
  dev_fs_type :: string
  fs_supported :: "string \<Rightarrow> bool"
  taint_value :: "32 word"

datatype resource = Shm_file | Shm_map | Tmp_dir | Mount | Overlay | Device | Saved_conf | Saved_clock | Cgroups

record setup_state =
  desc :: setup_desc
  rs :: run_state
  calls :: nat
  mapped :: bool
  tmpdir_created :: bool
  mntpoint_mounted :: bool
  ovl_mounted :: bool
  dev_acquired :: bool
  fs_name :: string
  held :: "resource set"

text \<open>A step lets the setup go on, calls \<open>tst_brk()\<close>, calls \<open>exit()\<close>, or leaves an array.\<close>

datatype setup_result = Going setup_state | Stopped int setup_state | Quits int setup_state | Crashed

fun run_steps :: "(setup_state \<Rightarrow> setup_result) list \<Rightarrow> setup_state \<Rightarrow> setup_result" where
  "run_steps [] s = Going s"
| "run_steps (f # fs) s = (case f s of Going s \<Rightarrow> run_steps fs s | r \<Rightarrow> r)"

definition do_op :: "system \<Rightarrow> op \<Rightarrow> (setup_state \<Rightarrow> setup_state) \<Rightarrow> setup_state \<Rightarrow> setup_result" where
  "do_op E c effect s =
     (let s' = s\<lparr>calls := calls s + 1\<rparr> in
      case fails E (calls s) c of Some ttype \<Rightarrow> Stopped ttype s' | None \<Rightarrow> Going (effect s'))"

definition call :: "system \<Rightarrow> op \<Rightarrow> setup_state \<Rightarrow> setup_result" where
  "call E c = do_op E c (\<lambda>s. s)"

definition acquire :: "resource \<Rightarrow> setup_state \<Rightarrow> setup_state" where
  "acquire r s = s\<lparr>held := insert r (held s)\<rparr>"

definition discard :: "resource \<Rightarrow> setup_state \<Rightarrow> setup_state" where
  "discard r s = s\<lparr>held := held s - {r}\<rparr>"

definition stop_if :: "(setup_desc \<Rightarrow> bool) \<Rightarrow> int \<Rightarrow> setup_state \<Rightarrow> setup_result" where
  "stop_if P ttype s = (if P (desc s) then Stopped ttype s else Going s)"

definition only_if :: "(setup_desc \<Rightarrow> bool) \<Rightarrow> (setup_state \<Rightarrow> setup_result) \<Rightarrow> setup_state \<Rightarrow> setup_result" where
  "only_if P f s = (if P (desc s) then f s else Going s)"

definition for_all :: "(setup_desc \<Rightarrow> 'a list) \<Rightarrow> ('a \<Rightarrow> setup_state \<Rightarrow> setup_result) \<Rightarrow> setup_state \<Rightarrow> setup_result" where
  "for_all xs f s = run_steps (map f (xs (desc s))) s"

definition set_desc :: "(setup_desc \<Rightarrow> setup_desc) \<Rightarrow> setup_state \<Rightarrow> setup_result" where
  "set_desc f s = Going (s\<lparr>desc := f (desc s)\<rparr>)"

section \<open>Steps of the setup\<close>

definition arch_type_list :: "string list" where
  "arch_type_list = [''x86'', ''x86_64'', ''ia64'', ''ppc'', ''ppc64'', ''s390'', ''s390x'', ''arm'', ''aarch64'', ''sparc'']"

definition is_valid_arch_name :: "string \<Rightarrow> bool" where
  "is_valid_arch_name name \<longleftrightarrow> name \<in> set arch_type_list"

definition tst_is_on_arch :: "system \<Rightarrow> string list option \<Rightarrow> int + bool" where
  "tst_is_on_arch E archlist =
     (case archlist of
        None \<Rightarrow> Inr True
      | Some l \<Rightarrow> if list_all is_valid_arch_name l then Inr (arch_name E \<in> set l) else Inl TBROK)"

definition check_arch :: "system \<Rightarrow> setup_state \<Rightarrow> setup_result" where
  "check_arch E s =
     (case tst_is_on_arch E (supported_archs (desc s)) of
        Inl ttype \<Rightarrow> Stopped ttype s
      | Inr ok \<Rightarrow> if supported_archs (desc s) \<noteq> None \<and> \<not> ok then Stopped TCONF s else Going s)"

text \<open>The timer tests replace the functions of the test and have seven test cases.\<close>

definition tst_timer_test_setup :: "setup_desc \<Rightarrow> setup_desc" where
  "tst_timer_test_setup d = d\<lparr>has_setup := True, has_cleanup := True, has_test := True, tcnt := 7, has_sample := False\<rparr>"

definition assert_test_fn :: "setup_state \<Rightarrow> setup_result" where
  "assert_test_fn s =
     (let d = desc s; cnt = of_bool (has_test d) + of_bool (has_test_all d) + of_bool (has_sample d) :: nat in
      if cnt = 0 then Stopped TBROK s
      else if cnt \<noteq> 1 then Stopped TBROK s
      else if has_test d \<and> tcnt d = 0 then Stopped TBROK s
      else if \<not> has_test d \<and> tcnt d \<noteq> 0 then Stopped TBROK s
      else Going s)"

definition setup_ipc :: "system \<Rightarrow> setup_state \<Rightarrow> setup_result" where
  "setup_ipc E = run_steps
     [\<lambda>s. if dev_shm E \<or> tmpdir_created s then Going s
          else do_op E Make_tmpdir (\<lambda>s. acquire Tmp_dir (s\<lparr>tmpdir_created := True\<rparr>)) s,
      do_op E Open_shm (acquire Shm_file),
      call E Chmod_shm,
      call E Truncate_shm,
      do_op E Map_shm (acquire Shm_map),
      call E Close_shm,
      \<lambda>s. Going (s\<lparr>mapped := True\<rparr>),
      \<lambda>s. if needs_checkpoints (desc s) \<or> child_needs_reinit (desc s) then Going s
          else do_op E Unlink_shm (discard Shm_file) s]"

definition parse_options :: "system \<Rightarrow> setup_state \<Rightarrow> setup_result" where
  "parse_options E s =
     (case opts_end E (desc s) of (reports, r) \<Rightarrow>
      let s = s\<lparr>rs := fold report reports (rs s)\<rparr> in
      case r of
        Opts_exit \<Rightarrow> Quits 0 s
      | Opts_brk ttype \<Rightarrow> Stopped ttype s
      | Opts_set n d r \<Rightarrow> set_desc (\<lambda>t. t\<lparr>iterations := n, duration := d, runtime := r\<rparr>) s)"

text \<open>Up to the shared memory and the options.\<close>

definition first_steps :: "system \<Rightarrow> (setup_state \<Rightarrow> setup_result) list" where
  "first_steps E =
     [stop_if (\<lambda>d. timeout d < - 1) TBROK,
      stop_if (\<lambda>d. runtime d < 0) TBROK,
      stop_if has_tconf_msg TCONF,
      check_arch E,
      only_if has_sample (set_desc tst_timer_test_setup),
      only_if runs_script (set_desc (\<lambda>d. d\<lparr>child_needs_reinit := True, forks_child := True\<rparr>)),
      assert_test_fn,
      setup_ipc E,
      parse_options E]"

definition require_kver :: "behaviour \<Rightarrow> string option \<Rightarrow> setup_state \<Rightarrow> setup_result" where
  "require_kver B kver s =
     (case kver of
        None \<Rightarrow> Going s
      | Some v \<Rightarrow> (case kver_ok B v (rs s) of (ok, st) \<Rightarrow> if ok then Going (s\<lparr>rs := st\<rparr>) else Stopped TCONF (s\<lparr>rs := st\<rparr>)))"

text \<open>\<open>tst_check_cmd()\<close> reports and may call \<open>tst_brk()\<close>; an optional command is only reported.\<close>

fun check_cmd_actions :: "action list \<Rightarrow> setup_state \<Rightarrow> setup_result" where
  "check_cmd_actions [] s = Going s"
| "check_cmd_actions (Res t # as) s = check_cmd_actions as (s\<lparr>rs := report (TTYPE_RESULT t) (rs s)\<rparr>)"
| "check_cmd_actions (Main_brk t # as) s = Stopped t s"
| "check_cmd_actions (_ # as) s = check_cmd_actions as s"

definition needs_cmd :: "system \<Rightarrow> string \<Rightarrow> bool \<Rightarrow> setup_state \<Rightarrow> setup_result" where
  "needs_cmd E cmd brk_nosupp s =
     (case tst_check_cmd (tools_of E) cmd brk_nosupp of None \<Rightarrow> Crashed | Some (_, as) \<Rightarrow> check_cmd_actions as s)"

text \<open>What the test requires of the system.\<close>

definition require_steps :: "system \<Rightarrow> behaviour \<Rightarrow> (setup_state \<Rightarrow> setup_result) list" where
  "require_steps E B =
     [only_if needs_kconfigs (call E Check_kconfig),
      stop_if (\<lambda>d. needs_kconfigs d \<and> kconfig_bad E) TCONF,
      stop_if (\<lambda>d. needs_root d \<and> euid E \<noteq> 0) TCONF,
      \<lambda>s. require_kver B (needs_kver (desc s)) s,
      only_if skip_in_lockdown (call E Check_lockdown),
      stop_if (\<lambda>d. skip_in_lockdown d \<and> lockdown E > 0) TCONF,
      only_if skip_in_secureboot (call E Check_secureboot),
      stop_if (\<lambda>d. skip_in_secureboot d \<and> secureboot E > 0) TCONF,
      only_if skip_in_compat (call E Check_bits),
      stop_if (\<lambda>d. skip_in_compat d \<and> abi E \<noteq> kernel_bits E) TCONF,
      stop_if (\<lambda>d. needs_abi_bits d \<noteq> 0 \<and> needs_abi_bits d \<noteq> 32 \<and> needs_abi_bits d \<noteq> 64) TBROK,
      stop_if (\<lambda>d. needs_abi_bits d \<noteq> 0 \<and> needs_abi_bits d \<noteq> abi E) TCONF,
      for_all needs_cmds (\<lambda>(cmd, optional). needs_cmd E cmd (\<not> optional)),
      for_all needs_drivers (\<lambda>name. run_steps [call E (Check_driver name), stop_if (\<lambda>d. driver_missing E name) TCONF]),
      only_if mount_device (set_desc (\<lambda>d. d\<lparr>format_device := True\<rparr>)),
      only_if format_device (set_desc (\<lambda>d. d\<lparr>needs_device := True\<rparr>)),
      only_if all_filesystems (set_desc (\<lambda>d. d\<lparr>needs_device := True\<rparr>)),
      stop_if (\<lambda>d. min_cpus d > ncpus E) TCONF,
      stop_if (\<lambda>d. min_mem_avail d > available_mem E div 1024) TCONF,
      stop_if (\<lambda>d. min_swap_avail d > available_swap E div 1024) TCONF]"

definition needs_tmpdir :: "setup_desc \<Rightarrow> bool" where
  "needs_tmpdir d \<longleftrightarrow> asks_tmpdir d \<or> needs_device d \<or> has_mntpoint d \<or> resource_files d \<noteq> None \<or> needs_checkpoints d"

definition resource_steps :: "system \<Rightarrow> (setup_state \<Rightarrow> setup_result) list" where
  "resource_steps E =
     [only_if (\<lambda>d. hugepages d \<noteq> 0) (\<lambda>s. call E Reserve_hugepages (acquire Saved_conf s)),
      only_if has_bufs (call E Alloc_buffers),
      \<lambda>s. if needs_tmpdir (desc s) \<and> \<not> tmpdir_created s
          then do_op E Make_tmpdir (\<lambda>s. acquire Tmp_dir (s\<lparr>tmpdir_created := True\<rparr>)) s else Going s,
      for_all save_restore (\<lambda>path s. call E (Save_conf path) (acquire Saved_conf s)),
      for_all (\<lambda>d. takeWhile (\<lambda>r. r \<noteq> 0) (ulimits d)) (\<lambda>r. call E (Set_ulimit r)),
      only_if has_mntpoint (call E Make_mntpoint)]"

definition set_mounted :: "setup_state \<Rightarrow> setup_state" where
  "set_mounted s = acquire Mount (s\<lparr>mntpoint_mounted := True\<rparr>)"

text \<open>\<open>mount()\<close> that fails is only reported, with the result 1.\<close>

definition prepare_and_mount_ro_fs :: "system \<Rightarrow> string \<Rightarrow> setup_state \<Rightarrow> setup_result" where
  "prepare_and_mount_ro_fs E fs s =
     (if mount_fails E fs then Going s
      else run_steps [call E Ro_dir, call E Ro_file, call E Ro_chmod, call E Ro_remount] (set_mounted s))"

definition limit_tmpfs_mount_size :: "system \<Rightarrow> setup_state \<Rightarrow> setup_result" where
  "limit_tmpfs_mount_size E s =
     (let tmpfs_size = (if dev_min_size (desc s) = 0 then 32 else dev_size E mod 2 ^ 32) in
      if fs_name s \<noteq> ''tmpfs'' then Going s
      else if available_mem E div 1024 < tmpfs_size * 2 mod 2 ^ 32 then Stopped TCONF s else Going s)"

definition prepare_device_steps :: "system \<Rightarrow> setup_state \<Rightarrow> setup_result" where
  "prepare_device_steps E = run_steps
     [only_if format_device (call E Make_fs),
      \<lambda>s. if needs_rofs (desc s) then prepare_and_mount_ro_fs E (fs_name s) s
          else only_if mount_device (run_steps [limit_tmpfs_mount_size E, do_op E Mount_device set_mounted]) s]"

definition default_fs_type :: "system \<Rightarrow> setup_desc \<Rightarrow> string" where
  "default_fs_type E d =
     (case filesystems d of Some (e # _) \<Rightarrow> (case fs_type e of Some t \<Rightarrow> t | None \<Rightarrow> dev_fs_type E) | _ \<Rightarrow> dev_fs_type E)"

definition first_fs :: "setup_desc \<Rightarrow> tst_fs" where
  "first_fs d = (case filesystems d of Some (e # _) \<Rightarrow> e | _ \<Rightarrow> empty_fs)"

text \<open>The only file system of the test is checked and prepared here.\<close>

definition prepare_single_fs :: "system \<Rightarrow> behaviour \<Rightarrow> setup_state \<Rightarrow> setup_result" where
  "prepare_single_fs E B s =
     (case count_fs_descs (filesystems (desc s)) of None \<Rightarrow> Crashed | Some n \<Rightarrow>
      if \<not> all_filesystems (desc s) \<and> n \<le> 1 then
        run_steps
          [call E Check_fs,
           \<lambda>s. if fs_supported E (fs_name s) then Going s else Stopped TCONF s,
           \<lambda>s. case mkfs_ver (first_fs (desc s)) of None \<Rightarrow> Going s | Some v \<Rightarrow> needs_cmd E v True s,
           \<lambda>s. require_kver B (min_kver (first_fs (desc s))) s,
           prepare_device_steps E] s
      else Going s)"

definition acquire_device :: "system \<Rightarrow> behaviour \<Rightarrow> setup_state \<Rightarrow> setup_result" where
  "acquire_device E B s =
     (if needs_device (desc s) \<and> \<not> mntpoint_mounted s then
        run_steps
          [do_op E Acquire_device (\<lambda>s. acquire Device (s\<lparr>dev_acquired := True\<rparr>)),
           call E Device_size,
           \<lambda>s. Going (s\<lparr>fs_name := default_fs_type E (desc s)\<rparr>),
           prepare_single_fs E B] s
      else Going s)"

definition mount_steps :: "system \<Rightarrow> behaviour \<Rightarrow> (setup_state \<Rightarrow> setup_result) list" where
  "mount_steps E B =
     [stop_if (\<lambda>d. (needs_devfs d \<or> needs_rofs d \<or> mount_device d \<or> all_filesystems d \<or> needs_hugetlbfs d) \<and> \<not> has_mntpoint d) TBROK,
      stop_if (\<lambda>d. of_bool (needs_rofs d) + of_bool (needs_devfs d) + of_bool (needs_device d) + of_bool (needs_hugetlbfs d) > (1 :: nat)) TBROK,
      only_if (\<lambda>d. needs_devfs d \<and> mounted_nodev E) (do_op E Mount_nodev set_mounted),
      only_if needs_rofs (\<lambda>s.
        if mount_fails E ''tmpfs'' then set_desc (\<lambda>d. d\<lparr>needs_device := True, format_device := True\<rparr>) s
        else prepare_and_mount_ro_fs E ''tmpfs'' s),
      stop_if (\<lambda>d. needs_hugetlbfs d \<and> \<not> hugepages_dir E) TCONF,
      only_if needs_hugetlbfs (do_op E Mount_hugetlbfs set_mounted),
      acquire_device E B,
      stop_if (\<lambda>d. needs_overlay d \<and> \<not> mount_device d) TBROK,
      \<lambda>s. if needs_overlay (desc s) \<and> \<not> mntpoint_mounted s then Stopped TBROK s else Going s,
      \<lambda>s. if needs_overlay (desc s) \<and> \<not> ovl_mounted s
          then do_op E Mount_overlay (\<lambda>s. acquire Overlay (s\<lparr>ovl_mounted := True\<rparr>)) s else Going s]"

text \<open>\<open>tst_taint_init()\<close>.\<close>

definition tst_taint_check_kver :: "behaviour \<Rightarrow> 32 word \<Rightarrow> run_state \<Rightarrow> bool \<times> run_state" where
  "tst_taint_check_kver B tmask st =
     (let cmp = (\<lambda>r1 r2. case tst_kvercmp (release B) r1 r2 0 of (c, ms) \<Rightarrow> (c < 0, fold (\<lambda>_. report TWARN) ms st)) in
      if bit tmask 18 then cmp 6 0
      else if bit tmask 16 then cmp 4 15
      else if bit tmask 15 then cmp 4 0
      else (False, st))"

definition TST_TAINT_W :: "32 word" where "TST_TAINT_W = push_bit 9 1"

definition taint_start :: "behaviour \<Rightarrow> 32 word \<Rightarrow> run_state \<Rightarrow> run_state" where
  "taint_start B tmask st =
     (case tst_taint_check_kver B tmask st of (too_old, st) \<Rightarrow>
      (if too_old then report TCONF st else st)\<lparr>taint_mask := tmask\<rparr>)"

definition taint_finish :: "32 word \<Rightarrow> run_state \<Rightarrow> bool \<times> run_state" where
  "taint_finish taint st =
     (let st = (if taint AND TST_TAINT_W \<noteq> 0 then report TCONF st else st);
          tmask = (if taint AND TST_TAINT_W \<noteq> 0 then taint_mask st AND NOT TST_TAINT_W else taint_mask st);
          st = st\<lparr>taint_mask := tmask\<rparr> in
      (taint AND tmask = 0, st))"

definition tst_taint_init :: "system \<Rightarrow> behaviour \<Rightarrow> setup_state \<Rightarrow> setup_result" where
  "tst_taint_init E B s =
     (let tmask = taint_check (desc s) in
      if tmask = 0 then Stopped TBROK s
      else run_steps
        [\<lambda>s. Going (s\<lparr>rs := taint_start B tmask (rs s)\<rparr>),
         call E Read_taint,
         \<lambda>s. case taint_finish (taint_value E) (rs s) of (ok, st) \<Rightarrow>
           if ok then Going (s\<lparr>rs := st\<rparr>) else Stopped TBROK (s\<lparr>rs := st\<rparr>)] s)"

definition do_cgroup_requires :: "system \<Rightarrow> setup_state \<Rightarrow> setup_result" where
  "do_cgroup_requires E = run_steps
     [for_all (\<lambda>d. the (needs_cgroup_ctrls d)) (\<lambda>ctrl s. call E (Cgroup_require ctrl) (acquire Cgroups s)),
      \<lambda>s. call E Cgroup_init (acquire Cgroups s)]"

definition last_steps :: "system \<Rightarrow> behaviour \<Rightarrow> (setup_state \<Rightarrow> setup_result) list" where
  "last_steps E B =
     [for_all (\<lambda>d. case resource_files d of None \<Rightarrow> [] | Some l \<Rightarrow> l) (\<lambda>path. call E (Copy_resource path)),
      only_if restore_wallclock (do_op E Save_wallclock (acquire Saved_clock)),
      only_if (\<lambda>d. taint_check d \<noteq> 0) (tst_taint_init E B),
      \<lambda>s. if needs_cgroup_ctrls (desc s) \<noteq> None then do_cgroup_requires E s
          else if needs_cgroup_ver (desc s) then Stopped TBROK s else Going s]"

definition setup_steps :: "system \<Rightarrow> behaviour \<Rightarrow> (setup_state \<Rightarrow> setup_result) list" where
  "setup_steps E B = first_steps E @ require_steps E B @ resource_steps E @ mount_steps E B @ last_steps E B"

definition start_state :: "setup_desc \<Rightarrow> setup_state" where
  "start_state d = \<lparr>desc = d, rs = init_state, calls = 0, mapped = False, tmpdir_created = False, mntpoint_mounted = False,
     ovl_mounted = False, dev_acquired = False, fs_name = [], held = {}\<rparr>"

definition do_setup :: "system \<Rightarrow> behaviour \<Rightarrow> setup_desc \<Rightarrow> setup_result" where
  "do_setup E B d = run_steps (setup_steps E B) (start_state d)"

section \<open>The end of the library process\<close>

text \<open>A call that only warns when it fails.\<close>

definition release_or_warn :: "system \<Rightarrow> op \<Rightarrow> resource set \<Rightarrow> setup_state \<Rightarrow> setup_result" where
  "release_or_warn E c r s =
     (let s' = s\<lparr>calls := calls s + 1\<rparr> in
      Going (if fails E (calls s) c \<noteq> None then s'\<lparr>rs := report TWARN (rs s)\<rparr> else s'\<lparr>held := held s - r\<rparr>))"

definition cleanup_ipc :: "system \<Rightarrow> setup_state \<Rightarrow> setup_result" where
  "cleanup_ipc E = run_steps
     [\<lambda>s. if Shm_file \<in> held s then release_or_warn E Unlink_ipc {Shm_file} s else Going s,
      \<lambda>s. Going (if mapped s then s\<lparr>mapped := False, held := held s - {Shm_map}\<rparr> else s)]"

definition umount_steps :: "system \<Rightarrow> (setup_state \<Rightarrow> setup_result) list" where
  "umount_steps E =
     [only_if (\<lambda>d. needs_cgroup_ctrls d \<noteq> None) (do_op E Cgroup_cleanup (discard Cgroups)),
      \<lambda>s. if ovl_mounted s then do_op E Umount_overlay (discard Overlay) s else Going s,
      \<lambda>s. if mntpoint_mounted s then release_or_warn E Umount_mntpoint {Mount} s else Going s]"

definition restore_steps :: "system \<Rightarrow> (setup_state \<Rightarrow> setup_result) list" where
  "restore_steps E =
     [\<lambda>s. if needs_device (desc s) \<and> dev_acquired s then release_or_warn E Release_device {Device} s else Going s,
      \<lambda>s. if tmpdir_created s then release_or_warn E Remove_tmpdir {Tmp_dir} s else Going s,
      \<lambda>s. if Saved_conf \<in> held s then release_or_warn E Restore_conf {Saved_conf} s else Going s,
      \<lambda>s. if restore_wallclock (desc s) \<and> Saved_clock \<in> held s then release_or_warn E Restore_wallclock {Saved_clock} s else Going s]"

definition do_cleanup :: "system \<Rightarrow> setup_state \<Rightarrow> setup_result" where
  "do_cleanup E = run_steps (umount_steps E @ restore_steps E @ [cleanup_ipc E])"

text \<open>\<open>tst_brk()\<close> in the clean-up comes back to \<open>do_exit()\<close>. \<open>None\<close> is a process that does not end.\<close>

partial_function (option) exit_library :: "system \<Rightarrow> int \<Rightarrow> setup_state \<Rightarrow> (int \<times> setup_state) option" where
  "exit_library E ret s =
     (let code = fst (exit_code False None False (Some (counters (rs s))) ret) in
      case do_cleanup E s of
        Going s' \<Rightarrow> Some (code, s')
      | Stopped ttype s' \<Rightarrow> exit_library E (TTYPE_RESULT ttype) (s'\<lparr>rs := report (TTYPE_RESULT ttype) (rs s')\<rparr>)
      | Quits n s' \<Rightarrow> Some (n, s')
      | Crashed \<Rightarrow> None)"

text \<open>\<open>tst_brk()\<close> before the shared memory is mapped ends the process at once.\<close>

definition brk_library :: "system \<Rightarrow> int \<Rightarrow> setup_state \<Rightarrow> (int \<times> setup_state) option" where
  "brk_library E ttype s =
     (if \<not> mapped s then Some (TTYPE_RESULT ttype, s)
      else exit_library E (TTYPE_RESULT ttype) (s\<lparr>rs := report (TTYPE_RESULT ttype) (rs s)\<rparr>))"

section \<open>Contracts of steps\<close>

declare run_steps.simps [simp del]

text \<open>What a step does to the state before it, as a relation that holds when nothing happens and can be composed: then the combinators
  of the steps keep it.\<close>

locale step_contract =
  fixes R :: "setup_state \<Rightarrow> setup_result \<Rightarrow> bool" and ok :: "(setup_state \<Rightarrow> setup_result) \<Rightarrow> bool"
  assumes ok_iff: "ok f \<longleftrightarrow> (\<forall>s. R s (f s))"
    and R_refl: "R s (Going s)"
    and R_trans: "R s (Going s1) \<Longrightarrow> R s1 r \<Longrightarrow> R s r"
begin

lemma okD: "ok f \<Longrightarrow> R s (f s)"
  by (simp add: ok_iff)

lemma ok_Going: "ok Going"
  by (simp add: ok_iff R_refl)

lemma ok_run: "\<forall>f \<in> set fs. ok f \<Longrightarrow> ok (run_steps fs)"
proof -
  assume k: "\<forall>f \<in> set fs. ok f"
  have "R s (run_steps fs s)" for s
    using k
  proof (induction fs arbitrary: s)
    case (Cons f fs)
    have "R s (f s)" using Cons.prems okD by simp
    then show ?case using Cons R_trans by (cases "f s") (simp_all add: run_steps.simps)
  qed (simp add: run_steps.simps R_refl)
  then show ?thesis by (simp add: ok_iff)
qed

lemma ok_if: "ok f \<Longrightarrow> ok g \<Longrightarrow> ok (\<lambda>s. if P s then f s else g s)"
  by (simp add: ok_iff)

lemma ok_only_if: "ok f \<Longrightarrow> ok (only_if P f)"
  by (simp add: ok_iff only_if_def R_refl)

lemma ok_for_all: "(\<And>x. ok (f x)) \<Longrightarrow> ok (for_all xs f)"
proof -
  assume "\<And>x. ok (f x)"
  then have "ok (run_steps (map f ys))" for ys by (intro ok_run) auto
  then show ?thesis by (simp add: ok_iff for_all_def)
qed

lemma ok_dep: "(\<And>x. ok (f x)) \<Longrightarrow> ok (\<lambda>s. f (g s) s)"
  by (simp add: ok_iff)

lemma ok_after: "ok f \<Longrightarrow> (\<And>s. R s (Going (g s))) \<Longrightarrow> ok (\<lambda>s. f (g s))"
  using R_trans unfolding ok_iff by blast

end

section \<open>What the setup leaves alone\<close>

text \<open>The members of the description that no step changes. The shared memory stays mapped.\<close>

definition core :: "setup_desc \<Rightarrow> setup_desc" where
  "core d = d\<lparr>child_needs_reinit := False, forks_child := False, has_setup := False, has_cleanup := False, has_test := False,
     tcnt := 0, has_sample := False, needs_device := False, format_device := False, iterations := 0, duration := None, runtime := 0\<rparr>"

definition keeps :: "(setup_state \<Rightarrow> setup_result) \<Rightarrow> bool" where
  "keeps f \<longleftrightarrow> (\<forall>s s'. f s = Going s' \<longrightarrow> core (desc s') = core (desc s) \<and> (mapped s \<longrightarrow> mapped s'))"

interpretation kp: step_contract "\<lambda>s r. \<forall>s'. r = Going s' \<longrightarrow> core (desc s') = core (desc s) \<and> (mapped s \<longrightarrow> mapped s')" keeps
  by unfold_locales (simp_all add: keeps_def)

lemmas keeps_run = kp.ok_run and keeps_if = kp.ok_if and keeps_only_if = kp.ok_only_if and keeps_for_all = kp.ok_for_all
  and keeps_dep = kp.ok_dep

lemma keepsD: "keeps f \<Longrightarrow> f s = Going s' \<Longrightarrow> core (desc s') = core (desc s) \<and> (mapped s \<longrightarrow> mapped s')"
  by (simp add: keeps_def)

lemma keeps_op: "(\<And>s. desc (g s) = desc s \<and> (mapped s \<longrightarrow> mapped (g s))) \<Longrightarrow> keeps (do_op E c g)"
  by (auto simp: keeps_def do_op_def Let_def split: option.splits)

lemma keeps_call: "keeps (call E c)"
  unfolding call_def by (rule keeps_op) simp

lemma keeps_stop_if: "keeps (stop_if P t)"
  by (simp add: keeps_def stop_if_def)

lemma keeps_set_desc: "(\<And>d. core (f d) = core d) \<Longrightarrow> keeps (set_desc f)"
  by (simp add: keeps_def set_desc_def)

lemma keeps_Going: "(\<And>s. desc (g s) = desc s \<and> (mapped s \<longrightarrow> mapped (g s))) \<Longrightarrow> keeps (\<lambda>s. Going (g s))"
  by (simp add: keeps_def)

lemma desc_updates [simp]:
  "desc (acquire r s) = desc s" "desc (discard r s) = desc s" "desc (set_mounted s) = desc s"
  "mapped (acquire r s) = mapped s" "mapped (discard r s) = mapped s" "mapped (set_mounted s) = mapped s"
  by (simp_all add: acquire_def discard_def set_mounted_def)

lemma core_updates [simp]:
  "core (d\<lparr>needs_device := b\<rparr>) = core d" "core (d\<lparr>format_device := b\<rparr>) = core d" "core (tst_timer_test_setup d) = core d"
  "core (d\<lparr>child_needs_reinit := b, forks_child := b'\<rparr>) = core d" "core (d\<lparr>iterations := n, duration := t, runtime := r\<rparr>) = core d"
  "core (d\<lparr>needs_device := b, format_device := b'\<rparr>) = core d"
  by (simp_all add: core_def tst_timer_test_setup_def)

lemma check_cmd_desc: "check_cmd_actions as s = Going s' \<Longrightarrow> desc s' = desc s \<and> mapped s' = mapped s"
  by (induction as s rule: check_cmd_actions.induct) auto

lemma keeps_special:
  "keeps (check_arch E)" "keeps assert_test_fn" "keeps (parse_options E)" "keeps (needs_cmd E c b)" "keeps (limit_tmpfs_mount_size E)"
  "keeps (require_kver B v)"
proof -
  show "keeps (check_arch E)" by (auto simp: keeps_def check_arch_def split: sum.splits if_splits)
  show "keeps assert_test_fn" by (auto simp: keeps_def assert_test_fn_def Let_def split: if_splits)
  show "keeps (parse_options E)" by (auto simp: keeps_def parse_options_def set_desc_def Let_def split: prod.splits opts.splits)
  show "keeps (needs_cmd E c b)" by (auto simp: keeps_def needs_cmd_def dest: check_cmd_desc split: option.splits prod.splits)
  show "keeps (limit_tmpfs_mount_size E)" by (auto simp: keeps_def limit_tmpfs_mount_size_def Let_def split: if_splits)
  show "keeps (require_kver B v)" by (auto simp: keeps_def require_kver_def split: option.splits prod.splits if_splits)
qed

lemma keeps_parts:
  "keeps (setup_ipc E)" "keeps (prepare_and_mount_ro_fs E x)" "keeps (do_cgroup_requires E)" "keeps (tst_taint_init E B)"
proof -
  show "keeps (setup_ipc E)" unfolding setup_ipc_def
    by (rule keeps_run) (simp add: keeps_op keeps_call keeps_if keeps_Going)
  have "keeps (run_steps [call E Ro_dir, call E Ro_file, call E Ro_chmod, call E Ro_remount])" by (rule keeps_run) (simp add: keeps_call)
  then show "keeps (prepare_and_mount_ro_fs E x)" by (simp add: keeps_def prepare_and_mount_ro_fs_def)
  show "keeps (do_cgroup_requires E)" unfolding do_cgroup_requires_def
    by (rule keeps_run) (simp add: keeps_for_all kp.ok_after [OF keeps_call])
  have "keeps (\<lambda>s. case taint_finish t (rs s) of (ok, st) \<Rightarrow> if ok then Going (s\<lparr>rs := st\<rparr>) else Stopped TBROK (s\<lparr>rs := st\<rparr>))" for t
    by (auto simp: keeps_def split: prod.splits if_splits)
  then have "keeps (run_steps [\<lambda>s. Going (s\<lparr>rs := taint_start B m (rs s)\<rparr>), call E Read_taint,
      \<lambda>s. case taint_finish t (rs s) of (ok, st) \<Rightarrow> if ok then Going (s\<lparr>rs := st\<rparr>) else Stopped TBROK (s\<lparr>rs := st\<rparr>)])" for m t
    by (intro keeps_run) (simp add: keeps_call keeps_Going)
  then show "keeps (tst_taint_init E B)" by (simp add: keeps_def tst_taint_init_def Let_def)
qed

lemma keeps_device: "keeps (prepare_device_steps E)" "keeps (prepare_single_fs E B)" "keeps (acquire_device E B)"
proof -
  have "keeps (run_steps [limit_tmpfs_mount_size E, do_op E Mount_device set_mounted])" by (rule keeps_run) (simp add: keeps_special keeps_op)
  then show p: "keeps (prepare_device_steps E)" unfolding prepare_device_steps_def
    by (intro keeps_run) (simp add: keeps_only_if keeps_call keeps_if keeps_dep [of "prepare_and_mount_ro_fs E"] keeps_parts)
  have "keeps (\<lambda>s. case mkfs_ver (first_fs (desc s)) of None \<Rightarrow> Going s | Some v \<Rightarrow> needs_cmd E v True s)"
    using keepsD [OF keeps_special(4)] by (auto simp: keeps_def split: option.splits)
  moreover have "keeps (\<lambda>s. if fs_supported E (fs_name s) then Going s else Stopped TCONF s)" by (simp add: keeps_def)
  ultimately have "keeps (run_steps [call E Check_fs, \<lambda>s. if fs_supported E (fs_name s) then Going s else Stopped TCONF s,
      \<lambda>s. case mkfs_ver (first_fs (desc s)) of None \<Rightarrow> Going s | Some v \<Rightarrow> needs_cmd E v True s,
      \<lambda>s. require_kver B (min_kver (first_fs (desc s))) s, prepare_device_steps E])"
    using p by (intro keeps_run) (simp add: keeps_call keeps_dep [of "require_kver B"] keeps_special)
  then show s: "keeps (prepare_single_fs E B)"
    unfolding prepare_single_fs_def by (auto simp: keeps_def split: option.splits)
  have "keeps (run_steps [do_op E Acquire_device (\<lambda>s. acquire Device (s\<lparr>dev_acquired := True\<rparr>)), call E Device_size,
      \<lambda>s. Going (s\<lparr>fs_name := default_fs_type E (desc s)\<rparr>), prepare_single_fs E B])"
    using s by (intro keeps_run) (simp add: keeps_op keeps_call keeps_Going)
  then show "keeps (acquire_device E B)" unfolding acquire_device_def by (simp add: keeps_def)
qed

lemma keeps_same: "keeps Going" "keeps (Stopped t)"
  by (simp_all add: keeps_def)

lemma setup_keeps: "\<forall>f \<in> set (setup_steps E B). keeps f"
proof -
  have "\<forall>f \<in> set (first_steps E). keeps f"
    by (simp add: first_steps_def keeps_stop_if keeps_special keeps_only_if keeps_set_desc keeps_parts)
  moreover have d: "keeps (run_steps [call E (Check_driver name), stop_if (\<lambda>d. driver_missing E name) TCONF])" for name
    by (rule keeps_run) (simp add: keeps_call keeps_stop_if)
  have "\<forall>f \<in> set (require_steps E B). keeps f"
    by (simp add: require_steps_def keeps_stop_if keeps_special keeps_only_if keeps_set_desc keeps_call keeps_dep [of "require_kver B"]
        keeps_for_all d split_beta)
  moreover have "\<forall>f \<in> set (resource_steps E). keeps f"
    by (simp add: resource_steps_def keeps_only_if keeps_call keeps_op keeps_for_all keeps_if keeps_same kp.ok_after [OF keeps_call])
  moreover have "\<forall>f \<in> set (mount_steps E B). keeps f"
    by (simp add: mount_steps_def keeps_stop_if keeps_only_if keeps_op keeps_if keeps_set_desc keeps_parts keeps_device keeps_same)
  moreover have "\<forall>f \<in> set (last_steps E B). keeps f"
    by (simp add: last_steps_def keeps_only_if keeps_op keeps_call keeps_if keeps_parts keeps_same keeps_for_all)
  ultimately show ?thesis by (auto simp: setup_steps_def)
qed

text \<open>What a step of the list establishes stays.\<close>

lemma step_maps:
  assumes "run_steps fs s = Going s'" "f \<in> set fs" "\<forall>g \<in> set fs. keeps g" "\<And>s1 s2. f s1 = Going s2 \<Longrightarrow> mapped s2"
  shows "mapped s'"
  using assms(1-3)
proof (induction fs arbitrary: s)
  case (Cons g fs)
  then obtain s1 where g: "g s = Going s1" "run_steps fs s1 = Going s'" by (cases "g s") (simp_all add: run_steps.simps)
  show ?case
  proof (cases "f = g")
    case True
    then have "mapped s1" using assms(4) g(1) by blast
    then show ?thesis using keepsD [OF keeps_run g(2)] Cons.prems(3) by simp
  qed (use Cons g in auto)
qed simp

lemma setup_maps:
  assumes "do_setup E B d = Going s"
  shows "mapped s"
proof (rule step_maps [OF assms [unfolded do_setup_def] _ setup_keeps])
  show "setup_ipc E \<in> set (setup_steps E B)" by (simp add: setup_steps_def first_steps_def)
  show "mapped s2" if "setup_ipc E s1 = Going s2" for s1 s2
    by (rule step_maps [OF that [unfolded setup_ipc_def], of "\<lambda>s. Going (s\<lparr>mapped := True\<rparr>)"])
      (auto simp: keeps_op keeps_call keeps_if keeps_Going keeps_same)
qed

text \<open>Every step of a setup that goes on has gone on, with the members of the description it started from.\<close>

lemma step_ran:
  assumes "run_steps fs s = Going s'" "f \<in> set fs" "\<forall>g \<in> set fs. keeps g"
  shows "\<exists>s1 s2. f s1 = Going s2 \<and> core (desc s1) = core (desc s)"
  using assms
proof (induction fs arbitrary: s)
  case (Cons g fs)
  then obtain s1 where g: "g s = Going s1" "run_steps fs s1 = Going s'" by (cases "g s") (simp_all add: run_steps.simps)
  have c: "core (desc s1) = core (desc s)" using Cons.prems(3) keepsD [of g s s1] g(1) by simp
  show ?case
  proof (cases "f = g")
    case False
    then show ?thesis using Cons.IH [OF g(2)] Cons.prems(2,3) c by simp
  qed (use g(1) in auto)
qed (simp add: run_steps.simps)

lemma setup_ran: "do_setup E B d = Going s \<Longrightarrow> f \<in> set (setup_steps E B) \<Longrightarrow> \<exists>s1 s2. f s1 = Going s2 \<and> core (desc s1) = core d"
  using step_ran [OF _ _ setup_keeps, of E B "start_state d" s f] by (simp add: do_setup_def start_state_def)

lemma setup_guard:
  assumes "do_setup E B d = Going s" "stop_if P t \<in> set (setup_steps E B)" "\<And>d. P (core d) \<longleftrightarrow> P d"
  shows "\<not> P d"
proof -
  obtain s1 s2 where "stop_if P t s1 = Going s2" "core (desc s1) = core d" using setup_ran [OF assms(1,2)] by blast
  moreover from this(1) have "\<not> P (desc s1)" by (simp add: stop_if_def split: if_splits)
  ultimately show ?thesis using assms(3) by metis
qed

lemma core_select:
  "timeout (core d) = timeout d" "has_tconf_msg (core d) = has_tconf_msg d" "supported_archs (core d) = supported_archs d"
  "needs_kconfigs (core d) = needs_kconfigs d" "needs_root (core d) = needs_root d" "needs_kver (core d) = needs_kver d" "skip_in_lockdown (core d) = skip_in_lockdown d"
  "skip_in_secureboot (core d) = skip_in_secureboot d" "skip_in_compat (core d) = skip_in_compat d" "needs_abi_bits (core d) = needs_abi_bits d" "needs_drivers (core d) = needs_drivers d"
  "min_cpus (core d) = min_cpus d" "min_mem_avail (core d) = min_mem_avail d" "min_swap_avail (core d) = min_swap_avail d" "has_mntpoint (core d) = has_mntpoint d"
  "needs_devfs (core d) = needs_devfs d" "needs_rofs (core d) = needs_rofs d" "needs_hugetlbfs (core d) = needs_hugetlbfs d" "needs_overlay (core d) = needs_overlay d"
  "mount_device (core d) = mount_device d" "all_filesystems (core d) = all_filesystems d" "restore_wallclock (core d) = restore_wallclock d" "needs_cgroup_ctrls (core d) = needs_cgroup_ctrls d"
  "needs_cgroup_ver (core d) = needs_cgroup_ver d"
  by (simp_all add: core_def)

lemma core_fields:
  assumes "core d' = core d"
  shows "timeout d' = timeout d" "has_tconf_msg d' = has_tconf_msg d" "supported_archs d' = supported_archs d" "needs_kconfigs d' = needs_kconfigs d"
    "needs_root d' = needs_root d" "needs_kver d' = needs_kver d" "skip_in_lockdown d' = skip_in_lockdown d" "skip_in_secureboot d' = skip_in_secureboot d"
    "skip_in_compat d' = skip_in_compat d" "needs_abi_bits d' = needs_abi_bits d" "needs_drivers d' = needs_drivers d" "min_cpus d' = min_cpus d"
    "min_mem_avail d' = min_mem_avail d" "min_swap_avail d' = min_swap_avail d" "has_mntpoint d' = has_mntpoint d" "needs_devfs d' = needs_devfs d"
    "needs_rofs d' = needs_rofs d" "needs_hugetlbfs d' = needs_hugetlbfs d" "needs_overlay d' = needs_overlay d" "mount_device d' = mount_device d"
    "all_filesystems d' = all_filesystems d" "restore_wallclock d' = restore_wallclock d" "needs_cgroup_ctrls d' = needs_cgroup_ctrls d"
    "needs_cgroup_ver d' = needs_cgroup_ver d"
  by (simp_all only: core_select [of d, symmetric] core_select [of d', symmetric] assms)

lemma kver_ok_state: "fst (kver_ok B v st) = fst (kver_ok B v st')"
  by (simp add: kver_ok_def Let_def split: prod.split)

lemma run_steps_each: "run_steps (map f xs) s = Going s' \<Longrightarrow> x \<in> set xs \<Longrightarrow> \<exists>s1 s2. f x s1 = Going s2"
proof (induction xs arbitrary: s)
  case (Cons y xs)
  then obtain s1 where "f y s = Going s1" "run_steps (map f xs) s1 = Going s'" by (cases "f y s") (simp_all add: run_steps.simps)
  then show ?case using Cons by auto
qed simp

lemma setup_list:
  "set (setup_steps E B) = set (first_steps E @ require_steps E B @ resource_steps E @ mount_steps E B @ last_steps E B)"
  by (simp add: setup_steps_def)

lemmas setup_members = setup_list [unfolded first_steps_def require_steps_def resource_steps_def mount_steps_def last_steps_def append.simps list.set]

text \<open>The guards of the setup that depend on nothing but the description.\<close>

definition setup_stops :: "system \<Rightarrow> ((setup_desc \<Rightarrow> bool) \<times> int) list" where
  "setup_stops E =
     [(\<lambda>d. timeout d < - 1, TBROK), (has_tconf_msg, TCONF), (\<lambda>d. needs_kconfigs d \<and> kconfig_bad E, TCONF), (\<lambda>d. needs_root d \<and> euid E \<noteq> 0, TCONF),
      (\<lambda>d. skip_in_lockdown d \<and> lockdown E > 0, TCONF), (\<lambda>d. skip_in_secureboot d \<and> secureboot E > 0, TCONF),
      (\<lambda>d. skip_in_compat d \<and> abi E \<noteq> kernel_bits E, TCONF), (\<lambda>d. needs_abi_bits d \<noteq> 0 \<and> needs_abi_bits d \<noteq> abi E, TCONF),
      (\<lambda>d. min_cpus d > ncpus E, TCONF), (\<lambda>d. min_mem_avail d > available_mem E div 1024, TCONF),
      (\<lambda>d. min_swap_avail d > available_swap E div 1024, TCONF), (\<lambda>d. needs_hugetlbfs d \<and> \<not> hugepages_dir E, TCONF),
      (\<lambda>d. needs_overlay d \<and> \<not> mount_device d, TBROK),
      (\<lambda>d. (needs_devfs d \<or> needs_rofs d \<or> mount_device d \<or> all_filesystems d \<or> needs_hugetlbfs d) \<and> \<not> has_mntpoint d, TBROK)]"

lemma setup_stops_member: "\<forall>(P, t) \<in> set (setup_stops E). stop_if P t \<in> set (setup_steps E B)"
  unfolding setup_stops_def setup_members list.set ball_simps prod.case
  by (intro conjI TrueI) ((rule insertI1 | rule insertI2)+)

lemma setup_guards:
  assumes "do_setup E B d = Going s"
  shows "\<forall>(P, t) \<in> set (setup_stops E). \<not> P d"
proof (intro ballI case_prodI2)
  fix x P t assume x: "x \<in> set (setup_stops E)" "x = (P, t)"
  have "\<forall>(P, t) \<in> set (setup_stops E). \<forall>d. P (core d) \<longleftrightarrow> P d" by (simp add: setup_stops_def core_select)
  then have "P (core d) \<longleftrightarrow> P d" for d using x by blast
  moreover have "stop_if P t \<in> set (setup_steps E B)" using bspec [OF setup_stops_member x(1)] x(2) by simp
  ultimately show "\<not> P d" using setup_guard [OF assms] by blast
qed


section \<open>Resources\<close>

text \<open>The clean-up knows of every resource. In the setup, moreover, the counters belong to the results and no process was started.\<close>

definition tracked :: "setup_state \<Rightarrow> bool" where
  "tracked s \<longleftrightarrow> (Overlay \<in> held s \<longrightarrow> ovl_mounted s) \<and> (Mount \<in> held s \<longrightarrow> mntpoint_mounted s)
     \<and> (Device \<in> held s \<longrightarrow> dev_acquired s \<and> needs_device (desc s)) \<and> (Tmp_dir \<in> held s \<longrightarrow> tmpdir_created s)
     \<and> (Cgroups \<in> held s \<longrightarrow> needs_cgroup_ctrls (desc s) \<noteq> None) \<and> (Saved_clock \<in> held s \<longrightarrow> restore_wallclock (desc s))"

definition known :: "setup_state \<Rightarrow> bool" where
  "known s \<longleftrightarrow> tracked s \<and> lib_inv (rs s) \<and> trace (rs s) = []"

definition ends_known :: "setup_result \<Rightarrow> bool" where
  "ends_known r = (case r of Going s \<Rightarrow> known s | Stopped t s \<Rightarrow> known s | Quits n s \<Rightarrow> known s | Crashed \<Rightarrow> True)"

definition safe :: "(setup_state \<Rightarrow> setup_result) \<Rightarrow> bool" where
  "safe f \<longleftrightarrow> (\<forall>s. known s \<longrightarrow> ends_known (f s))"

lemma ends_known_simps [simp]: "ends_known (Going s) = known s" "ends_known (Stopped t s) = known s" "ends_known (Quits n s) = known s" "ends_known Crashed"
  by (simp_all add: ends_known_def tracked_def)

interpretation sf: step_contract "\<lambda>s r. known s \<longrightarrow> ends_known r" safe
  by unfold_locales (simp_all add: safe_def)

lemmas safe_run = sf.ok_run and safe_if = sf.ok_if and safe_only_if = sf.ok_only_if and safe_for_all = sf.ok_for_all
  and safe_dep = sf.ok_dep

lemma safe_op: "(\<And>s. known s \<Longrightarrow> known (g s)) \<Longrightarrow> safe (do_op E c g)"
proof -
  assume g: "\<And>s. known s \<Longrightarrow> known (g s)"
  have "known s \<Longrightarrow> known (s\<lparr>calls := n\<rparr>)" for s n by (simp add: known_def tracked_def)
  then show ?thesis using g by (simp add: safe_def do_op_def Let_def split: option.split)
qed

lemma safe_call: "safe (call E c)"
  unfolding call_def by (rule safe_op)

lemma safe_basic: "safe (stop_if P t)" "safe Going" "safe (Stopped t)"
  by (simp_all add: safe_def stop_if_def)

lemma safe_set_desc:
  "(\<And>d. (needs_device d \<longrightarrow> needs_device (f d)) \<and> needs_cgroup_ctrls (f d) = needs_cgroup_ctrls d \<and> restore_wallclock (f d) = restore_wallclock d)
     \<Longrightarrow> safe (set_desc f)"
  by (auto simp: safe_def set_desc_def known_def tracked_def)

lemma safe_Going: "(\<And>s. known s \<Longrightarrow> known (g s)) \<Longrightarrow> safe (\<lambda>s. Going (g s))"
  by (simp add: safe_def)

text \<open>A state reached by reports only.\<close>

definition reported :: "run_state \<Rightarrow> run_state \<Rightarrow> bool" where
  "reported st st' \<longleftrightarrow> trace st' = trace st \<and> (lib_inv st \<longrightarrow> lib_inv st')"

lemma reported_refl: "reported st st"
  by (simp add: reported_def)

lemma reported_report: "reported st (report t st)"
  by (simp add: reported_def inv_report)

lemma reported_fold: "reported st (fold report l st)" "reported st (fold (\<lambda>_. report t) ms st)"
proof -
  have step: "reported (report x st) st' \<Longrightarrow> reported st st'" for x st st' by (simp add: reported_def inv_report)
  show "reported st (fold report l st)"
    by (induction l arbitrary: st) (auto simp: reported_refl intro: step)
  show "reported st (fold (\<lambda>_. report t) ms st)"
    by (induction ms arbitrary: st) (auto simp: reported_refl intro: step)
qed

lemma known_rs: "known s \<Longrightarrow> reported (rs s) st \<Longrightarrow> known (s\<lparr>rs := st\<rparr>)"
  by (simp add: known_def tracked_def reported_def)

lemma known_updates:
  "known s \<Longrightarrow> known (set_mounted s)" "known s \<Longrightarrow> known (acquire Saved_conf s)" "known s \<Longrightarrow> known (acquire Shm_file s)"
  "known s \<Longrightarrow> known (acquire Shm_map s)" "known s \<Longrightarrow> known (discard r s)" "known s \<Longrightarrow> known (acquire Tmp_dir (s\<lparr>tmpdir_created := True\<rparr>))"
  "known s \<Longrightarrow> known (acquire Overlay (s\<lparr>ovl_mounted := True\<rparr>))" "known s \<Longrightarrow> known (s\<lparr>mapped := b\<rparr>)" "known s \<Longrightarrow> known (s\<lparr>fs_name := x\<rparr>)"
  by (auto simp: known_def tracked_def set_mounted_def acquire_def discard_def)

lemma reported_trans: "reported a b \<Longrightarrow> reported b c \<Longrightarrow> reported a c"
  by (simp add: reported_def)

lemma reported_if: "reported st (if c then report t st else st)"
  by (simp add: reported_def inv_report)

lemma reported_kver: "reported st (snd (kver_ok B v st))"
proof (cases "tst_parse_kver v")
  case (fields ret v1 v2 v3)
  let ?st = "if ret \<noteq> 0 then report TWARN st else st"
  show ?thesis
    using reported_trans [OF reported_if [of st "ret \<noteq> 0" TWARN] reported_fold(2) [of ?st]] fields
    by (simp add: kver_ok_def Let_def split_beta split del: if_split)
qed

lemma safe_special:
  "safe (check_arch E)" "safe assert_test_fn" "safe (parse_options E)" "safe (needs_cmd E c b)" "safe (limit_tmpfs_mount_size E)"
  "safe (require_kver B v)"
proof -
  show "safe (check_arch E)" by (simp add: safe_def check_arch_def split: sum.split)
  show "safe assert_test_fn" by (simp add: safe_def assert_test_fn_def Let_def)
  have "known s \<Longrightarrow> known (s\<lparr>rs := fold report l (rs s)\<rparr>)" for s l by (simp add: known_rs reported_fold)
  moreover have "known s \<Longrightarrow> known (s\<lparr>rs := fold report l (rs s), desc := (desc s)\<lparr>iterations := n, duration := x, runtime := y\<rparr>\<rparr>)" for s l n x y
    using reported_fold(1) [of "rs s" l] by (auto simp: known_def tracked_def reported_def)
  ultimately show "safe (parse_options E)"
    by (simp add: safe_def parse_options_def set_desc_def Let_def split: prod.split opts.split)
  have "known s \<Longrightarrow> ends_known (check_cmd_actions as s)" for as s
    by (induction as s rule: check_cmd_actions.induct) (simp_all add: known_rs reported_report)
  then show "safe (needs_cmd E c b)" by (simp add: safe_def needs_cmd_def split: option.split prod.split)
  show "safe (limit_tmpfs_mount_size E)" by (simp add: safe_def limit_tmpfs_mount_size_def Let_def)
  show "safe (require_kver B v)"
    using reported_kver by (auto simp: safe_def require_kver_def split: option.split prod.split intro: known_rs) (metis known_rs snd_conv)+
qed

lemma safe_tmpdir: "safe (do_op E Make_tmpdir (\<lambda>s. acquire Tmp_dir (s\<lparr>tmpdir_created := True\<rparr>)))"
  by (rule safe_op) (rule known_updates)

lemma safe_parts: "safe (setup_ipc E)" "safe (prepare_and_mount_ro_fs E x)" "safe (tst_taint_init E B)"
proof -
  show "safe (setup_ipc E)" unfolding setup_ipc_def
    by (rule safe_run) (simp add: safe_tmpdir safe_op safe_call safe_if safe_basic safe_Going known_updates)
  have "safe (run_steps [call E Ro_dir, call E Ro_file, call E Ro_chmod, call E Ro_remount])" by (rule safe_run) (simp add: safe_call)
  then show "safe (prepare_and_mount_ro_fs E x)" by (simp add: safe_def prepare_and_mount_ro_fs_def known_updates)
  have m: "reported st (st'\<lparr>taint_mask := x\<rparr>) \<longleftrightarrow> reported st st'" for st st' x by (simp add: reported_def lib_inv_def)
  have f: "reported st (snd (taint_finish t st))" for t st by (simp add: taint_finish_def Let_def m reported_report) (simp add: reported_def lib_inv_def)
  have g: "known (s\<lparr>rs := taint_start B x (rs s)\<rparr>)" if "known s" for s x
  proof -
    have "reported st (snd (tst_taint_check_kver B x st))" for st
      by (simp add: tst_taint_check_kver_def Let_def split_beta reported_fold reported_refl)
    then have "reported st (taint_start B x st)" for st
      unfolding taint_start_def split_beta m using reported_trans [OF _ reported_if] by blast
    then show ?thesis using that by (simp add: known_rs)
  qed
  have "safe (\<lambda>s. case taint_finish t (rs s) of (ok, st) \<Rightarrow> if ok then Going (s\<lparr>rs := st\<rparr>) else Stopped TBROK (s\<lparr>rs := st\<rparr>))" for t
    using f known_rs by (auto simp: safe_def split: prod.split) (metis snd_conv)+
  then have "safe (run_steps [\<lambda>s. Going (s\<lparr>rs := taint_start B m (rs s)\<rparr>), call E Read_taint,
      \<lambda>s. case taint_finish t (rs s) of (ok, st) \<Rightarrow> if ok then Going (s\<lparr>rs := st\<rparr>) else Stopped TBROK (s\<lparr>rs := st\<rparr>)])" for m t
    using g by (intro safe_run) (simp add: safe_call safe_Going)
  then show "safe (tst_taint_init E B)" by (simp add: safe_def tst_taint_init_def Let_def)
qed

lemma safe_device_parts: "safe (prepare_device_steps E)" "safe (prepare_single_fs E B)"
proof -
  have "safe (run_steps [limit_tmpfs_mount_size E, do_op E Mount_device set_mounted])"
    by (rule safe_run) (simp add: safe_special safe_op known_updates)
  then show p: "safe (prepare_device_steps E)" unfolding prepare_device_steps_def
    by (intro safe_run) (simp add: safe_only_if safe_call safe_if safe_dep [of "prepare_and_mount_ro_fs E"] safe_parts)
  have "safe (\<lambda>s. case mkfs_ver (first_fs (desc s)) of None \<Rightarrow> Going s | Some v \<Rightarrow> needs_cmd E v True s)"
    using safe_special(4) by (simp add: safe_def split: option.split)
  moreover have "safe (\<lambda>s. if fs_supported E (fs_name s) then Going s else Stopped TCONF s)" by (simp add: safe_def)
  ultimately have "safe (run_steps [call E Check_fs, \<lambda>s. if fs_supported E (fs_name s) then Going s else Stopped TCONF s,
      \<lambda>s. case mkfs_ver (first_fs (desc s)) of None \<Rightarrow> Going s | Some v \<Rightarrow> needs_cmd E v True s,
      \<lambda>s. require_kver B (min_kver (first_fs (desc s))) s, prepare_device_steps E])"
    using p by (intro safe_run) (simp add: safe_call safe_dep [of "require_kver B"] safe_special)
  then show "safe (prepare_single_fs E B)" unfolding prepare_single_fs_def by (simp add: safe_def split: option.split)
qed

definition ends_asked :: "setup_result \<Rightarrow> bool" where
  "ends_asked r = (case r of Going s \<Rightarrow> known s \<and> needs_cgroup_ctrls (desc s) \<noteq> None | Stopped t s \<Rightarrow> known s | _ \<Rightarrow> False)"

lemma ends_asked_call: "known s \<Longrightarrow> needs_cgroup_ctrls (desc s) \<noteq> None \<Longrightarrow> ends_asked (call E x (acquire Cgroups s))"
  by (simp add: ends_asked_def call_def do_op_def Let_def known_def tracked_def acquire_def split: option.split)

lemma ends_asked_for_all:
  assumes "known s" "needs_cgroup_ctrls (desc s) \<noteq> None"
  shows "ends_asked (for_all xs (\<lambda>ctrl s. call E (Cgroup_require ctrl) (acquire Cgroups s)) s)"
proof -
  have "ends_asked (run_steps (map (\<lambda>ctrl s. call E (Cgroup_require ctrl) (acquire Cgroups s)) ys) s)" for ys
    using assms
  proof (induction ys arbitrary: s)
    case (Cons y ys)
    then show ?case using ends_asked_call [OF Cons.prems, of E "Cgroup_require y"]
      by (cases "call E (Cgroup_require y) (acquire Cgroups s)") (simp_all add: run_steps.simps ends_asked_def)
  qed (simp add: run_steps.simps ends_asked_def)
  then show ?thesis by (simp add: for_all_def)
qed

text \<open>The device and the control groups are acquired where the description asks for them.\<close>

lemma safe_asked: "safe (acquire_device E B)"
  "safe (\<lambda>s. if needs_cgroup_ctrls (desc s) \<noteq> None then do_cgroup_requires E s else if needs_cgroup_ver (desc s) then Stopped TBROK s else Going s)"
  "safe (only_if restore_wallclock (do_op E Save_wallclock (acquire Saved_clock)))"
proof -
  have "ends_known (do_op E Acquire_device (\<lambda>s. acquire Device (s\<lparr>dev_acquired := True\<rparr>)) s)" if "known s" "needs_device (desc s)" for s
    using that by (simp add: do_op_def Let_def known_def tracked_def acquire_def split: option.split)
  moreover have "safe (run_steps [call E Device_size, \<lambda>s. Going (s\<lparr>fs_name := default_fs_type E (desc s)\<rparr>), prepare_single_fs E B])"
    by (rule safe_run) (simp add: safe_call safe_Going known_updates safe_device_parts)
  ultimately show "safe (acquire_device E B)" unfolding acquire_device_def
    by (auto simp: safe_def run_steps.simps(2) [of "do_op E Acquire_device _"] split: setup_result.split) force+
  have "ends_known (do_cgroup_requires E s)" if "known s" "needs_cgroup_ctrls (desc s) \<noteq> None" for s
  proof -
    have p: "run_steps [f, g] s = (case f s of Going s1 \<Rightarrow> g s1 | r \<Rightarrow> r)" for f g
      by (cases "f s") (simp_all add: run_steps.simps split: setup_result.split)
    have "ends_asked r \<Longrightarrow> ends_known r" for r by (cases r) (simp_all add: ends_asked_def)
    then show ?thesis
      using ends_asked_for_all [OF that, of "\<lambda>d. the (needs_cgroup_ctrls d)" E] ends_asked_call [of _ E Cgroup_init]
      unfolding do_cgroup_requires_def p
      by (cases "for_all (\<lambda>d. the (needs_cgroup_ctrls d)) (\<lambda>ctrl s. call E (Cgroup_require ctrl) (acquire Cgroups s)) s")
        (simp_all add: ends_asked_def [of "Going _"] ends_asked_def [of "Stopped _ _"] ends_asked_def [of "Quits _ _"])
  qed
  then show "safe (\<lambda>s. if needs_cgroup_ctrls (desc s) \<noteq> None then do_cgroup_requires E s else if needs_cgroup_ver (desc s) then Stopped TBROK s else Going s)"
    by (simp add: safe_def)
  show "safe (only_if restore_wallclock (do_op E Save_wallclock (acquire Saved_clock)))"
    by (simp add: safe_def only_if_def do_op_def Let_def known_def tracked_def acquire_def split: option.split)
qed

lemma setup_safe: "safe (run_steps (setup_steps E B))"
proof -
  have "\<forall>f \<in> set (first_steps E). safe f"
    by (simp add: first_steps_def safe_basic safe_special safe_only_if safe_set_desc safe_parts tst_timer_test_setup_def)
  moreover have d: "safe (run_steps [call E (Check_driver name), stop_if (\<lambda>d. driver_missing E name) TCONF])" for name
    by (rule safe_run) (simp add: safe_call safe_basic)
  have "\<forall>f \<in> set (require_steps E B). safe f"
    by (simp add: require_steps_def safe_basic safe_special safe_only_if safe_set_desc safe_call safe_dep [of "require_kver B"]
        safe_for_all d split_beta)
  moreover have "\<forall>f \<in> set (resource_steps E). safe f"
    by (simp add: resource_steps_def safe_only_if safe_call safe_tmpdir safe_for_all safe_if safe_basic sf.ok_after [OF safe_call] known_updates)
  moreover have "\<forall>f \<in> set (mount_steps E B). safe f"
    by (simp add: mount_steps_def safe_basic safe_only_if safe_op safe_if safe_set_desc safe_parts safe_asked known_updates)
  moreover have "\<forall>f \<in> set (last_steps E B). safe f"
    by (simp add: last_steps_def safe_only_if safe_asked safe_call safe_parts safe_for_all del: not_None_eq)
  ultimately show ?thesis unfolding setup_steps_def by (intro safe_run) auto
qed

lemma setup_known: "ends_known (do_setup E B d)"
proof -
  have "known (start_state d)" by (simp add: known_def tracked_def start_state_def lib_inv_def init_state_def no_results_def c_int_id)
  then show ?thesis using setup_safe [of E B] by (simp add: safe_def do_setup_def)
qed

section \<open>The end of the process\<close>

definition cleanup_works :: "system \<Rightarrow> bool" where
  "cleanup_works E \<longleftrightarrow> (\<forall>n. \<forall>c \<in> {Cgroup_cleanup, Umount_overlay, Umount_mntpoint, Release_device, Remove_tmpdir, Restore_conf, Restore_wallclock, Unlink_ipc}.
     fails E n c = None)"

text \<open>A step of the clean-up that takes resources away, and nothing else.\<close>

definition takes :: "(setup_state \<Rightarrow> setup_result) \<Rightarrow> resource set \<Rightarrow> bool" where
  "takes f R \<longleftrightarrow> (\<forall>s. tracked s \<longrightarrow> (\<exists>s'. f s = Going s' \<and> tracked s' \<and> held s' = held s - R \<and> rs s' = rs s \<and> mapped s' = mapped s))"

lemma takes_run: "list_all2 takes fs Rs \<Longrightarrow> takes (run_steps fs) (\<Union> (set Rs))"
proof -
  assume a: "list_all2 takes fs Rs"
  have "tracked s \<Longrightarrow> \<exists>s'. run_steps fs s = Going s' \<and> tracked s' \<and> held s' = held s - \<Union> (set Rs) \<and> rs s' = rs s \<and> mapped s' = mapped s" for s
    using a
  proof (induction arbitrary: s rule: list_all2_induct)
    case (Cons f fs R Rs)
    then obtain s1 where s1: "f s = Going s1" "tracked s1" "held s1 = held s - R" "rs s1 = rs s" "mapped s1 = mapped s" by (auto simp: takes_def)
    then show ?case using Cons.IH [OF s1(2)] by (auto simp: run_steps.simps)
  qed (simp add: run_steps.simps)
  then show ?thesis by (simp add: takes_def)
qed

lemma takes_warn: "(\<And>n. fails E n c = None) \<Longrightarrow> takes (release_or_warn E c R) R"
  by (auto simp: takes_def release_or_warn_def Let_def tracked_def)

lemma takes_op: "(\<And>n. fails E n c = None) \<Longrightarrow> takes (do_op E c (discard r)) {r}"
  by (auto simp: takes_def do_op_def Let_def tracked_def discard_def)

lemma takes_if: "takes f R \<Longrightarrow> (\<And>s. tracked s \<Longrightarrow> \<not> P s \<Longrightarrow> R \<inter> held s = {}) \<Longrightarrow> takes (\<lambda>s. if P s then f s else Going s) R"
  by (simp add: takes_def) (metis Diff_triv inf_commute)

lemma cleanup_takes:
  assumes "cleanup_works E"
  shows "\<exists>s'. tracked s \<and> mapped s \<longrightarrow> do_cleanup E s = Going s' \<and> held s' = {} \<and> rs s' = rs s"
proof -
  let ?fs = "umount_steps E @ restore_steps E"
  have w: "c \<in> {Cgroup_cleanup, Umount_overlay, Umount_mntpoint, Release_device, Remove_tmpdir, Restore_conf, Restore_wallclock, Unlink_ipc} \<Longrightarrow> fails E n c = None" for n c
    using assms by (auto simp: cleanup_works_def)
  have o: "only_if P f = (\<lambda>s. if P (desc s) then f s else Going s)" for P f by (simp add: only_if_def fun_eq_iff)
  have "list_all2 takes ?fs [{Cgroups}, {Overlay}, {Mount}, {Device}, {Tmp_dir}, {Saved_conf}, {Saved_clock}]"
    unfolding umount_steps_def restore_steps_def append.simps o list_all2_Cons list_all2_Nil
    by (intro conjI takes_if takes_op takes_warn TrueI) (auto simp: w tracked_def)
  note t = takes_run [OF this]
  have r: "run_steps (fs @ [g]) s = (case run_steps fs s of Going s1 \<Rightarrow> g s1 | r \<Rightarrow> r)" for fs g s
    by (induction fs arbitrary: s) (auto simp: run_steps.simps split: setup_result.split)
  have d: "do_cleanup E s = (case run_steps ?fs s of Going s1 \<Rightarrow> cleanup_ipc E s1 | r \<Rightarrow> r)" for s
    using r [of ?fs "cleanup_ipc E" s] by (simp add: do_cleanup_def)
  have "\<exists>s'. do_cleanup E s = Going s' \<and> held s' = {} \<and> rs s' = rs s" if ks: "tracked s" "mapped s"
  proof -
    obtain s1 where s1: "run_steps ?fs s = Going s1" "mapped s1" "rs s1 = rs s"
      "held s1 = held s - \<Union> (set [{Cgroups}, {Overlay}, {Mount}, {Device}, {Tmp_dir}, {Saved_conf}, {Saved_clock}])"
      using t ks unfolding takes_def by blast
    have "r = Shm_file \<or> r = Shm_map" if "r \<in> held s1" for r using that s1(4) by (cases r) auto
    then have "held s1 - {Shm_file} - {Shm_map} = {}" "Shm_file \<notin> held s1 \<Longrightarrow> held s1 - {Shm_map} = {}" by auto
    then show ?thesis
      unfolding d s1(1) using s1(2,3) by (auto simp: cleanup_ipc_def run_steps.simps release_or_warn_def Let_def w)
  qed
  then show ?thesis by blast
qed


text \<open>\<open>tst_brk()\<close> before the shared memory is mapped ends the process without the clean-up. So when there is
  no \<open>/dev/shm\<close> and the file in the temporary directory cannot be created, the directory stays.\<close>
theorem early_failure_leaks:
  assumes "\<not> dev_shm E" "fails E 0 Make_tmpdir = None" "fails E 1 Open_shm = Some ttype" "- 1 \<le> timeout d" "0 \<le> runtime d" "\<not> has_tconf_msg d"
    "supported_archs d = None" "\<not> has_sample d" "has_test_all d" "\<not> has_test d" "tcnt d = 0"
  shows "\<exists>s. do_setup E B d = Stopped ttype s \<and> brk_library E ttype s = Some (TTYPE_RESULT ttype, s) \<and> Tmp_dir \<in> held s"
proof -
  let ?d = "if runs_script d then d\<lparr>child_needs_reinit := True, forks_child := True\<rparr> else d"
  let ?s = "start_state d\<lparr>desc := ?d\<rparr>"
  have f: "first_steps E = take 7 (first_steps E) @ setup_ipc E # drop 8 (first_steps E)" by (simp add: first_steps_def)
  have app: "run_steps (fs @ g # gs) s = (case run_steps fs s of Going s1 \<Rightarrow> run_steps (g # gs) s1 | r \<Rightarrow> r)" for fs g gs s
    by (induction fs arbitrary: s) (auto simp: run_steps.simps split: setup_result.split)
  have "run_steps (take 7 (first_steps E)) (start_state d) = Going ?s"
    using assms(4-) by (simp add: first_steps_def run_steps.simps stop_if_def check_arch_def tst_is_on_arch_def only_if_def set_desc_def
        assert_test_fn_def start_state_def Let_def)
  moreover obtain s where s: "setup_ipc E ?s = Stopped ttype s" "\<not> mapped s" "Tmp_dir \<in> held s"
    using assms(1-3) by (simp add: setup_ipc_def run_steps.simps do_op_def Let_def start_state_def acquire_def)
  ultimately have "do_setup E B d = Stopped ttype s"
    unfolding do_setup_def setup_steps_def by (subst f) (simp add: app run_steps.simps(2) [of "setup_ipc E"])
  then show ?thesis using s(2,3) by (simp add: brk_library_def)
qed

text \<open>Steps that always go on and only add results.\<close>

definition adds_results :: "(setup_state \<Rightarrow> setup_result) \<Rightarrow> bool" where
  "adds_results f \<longleftrightarrow> (\<forall>s. \<exists>s' l. f s = Going s' \<and> logged (rs s') = logged (rs s) @ l)"

interpretation ar: step_contract "\<lambda>s r. \<exists>s' l. r = Going s' \<and> logged (rs s') = logged (rs s) @ l" adds_results
  by unfold_locales (auto simp: adds_results_def)

lemma adds_warn: "adds_results (release_or_warn E c R)"
  by (simp add: adds_results_def release_or_warn_def Let_def)

text \<open>When unmounting the overlay file system fails again and again, \<open>do_exit()\<close> calls itself and the process never
  ends. When only the mount point cannot be unmounted, the warning comes after the exit code was determined: it does not appear there.\<close>
theorem cleanup_failures:
  "(needs_cgroup_ctrls (desc s) = None \<and> ovl_mounted s \<and> (\<forall>n. fails E n Umount_overlay \<noteq> None) \<longrightarrow> exit_library E ret s = None)
   \<and> (needs_cgroup_ctrls (desc s) = None \<and> \<not> ovl_mounted s \<and> mntpoint_mounted s \<and> (\<forall>n. fails E n Umount_mntpoint \<noteq> None) \<longrightarrow>
      (\<exists>s'. exit_library E ret s = Some (fst (exit_code False None False (Some (counters (rs s))) ret), s') \<and> TWARN \<in> set (logged (rs s'))))"
proof (intro conjI impI)
  assume a: "needs_cgroup_ctrls (desc s) = None \<and> ovl_mounted s \<and> (\<forall>n. fails E n Umount_overlay \<noteq> None)"
  have False if r: "exit_library E ret s = Some r" for r
    using r
  proof (rule exit_library.raw_induct [where P = "\<lambda>E ret s r. needs_cgroup_ctrls (desc s) = None \<and> ovl_mounted s
      \<and> (\<forall>n. fails E n Umount_overlay \<noteq> None) \<longrightarrow> False", rotated, THEN mp])
    fix exit_library E ret s r
    assume IH: "\<And>E ret s r. exit_library E ret s = Some r \<Longrightarrow> needs_cgroup_ctrls (desc s) = None \<and> ovl_mounted s
        \<and> (\<forall>n. fails E n Umount_overlay \<noteq> None) \<longrightarrow> False"
      and step: "(let code = fst (exit_code False None False (Some (counters (rs s))) ret) in case do_cleanup E s of
        Going s' \<Rightarrow> Some (code, s')
      | Stopped ttype s' \<Rightarrow> exit_library E (TTYPE_RESULT ttype) (s'\<lparr>rs := report (TTYPE_RESULT ttype) (rs s')\<rparr>)
      | Quits n s' \<Rightarrow> Some (n, s') | Crashed \<Rightarrow> None) = Some r"
    show "needs_cgroup_ctrls (desc s) = None \<and> ovl_mounted s \<and> (\<forall>n. fails E n Umount_overlay \<noteq> None) \<longrightarrow> False"
    proof
      assume p: "needs_cgroup_ctrls (desc s) = None \<and> ovl_mounted s \<and> (\<forall>n. fails E n Umount_overlay \<noteq> None)"
      then obtain t where t: "fails E (calls s) Umount_overlay = Some t" by blast
      have "do_cleanup E s = Stopped t (s\<lparr>calls := calls s + 1\<rparr>)"
        using p t by (simp add: do_cleanup_def umount_steps_def run_steps.simps only_if_def do_op_def Let_def)
      then have "exit_library E (TTYPE_RESULT t) (s\<lparr>calls := calls s + 1, rs := report (TTYPE_RESULT t) (rs s)\<rparr>) = Some r"
        using step by (simp add: Let_def)
      then show False using IH p by fastforce
    qed
  qed (use a in simp)
  then show "exit_library E ret s = None" by (cases "exit_library E ret s") auto
next
  assume a: "needs_cgroup_ctrls (desc s) = None \<and> \<not> ovl_mounted s \<and> mntpoint_mounted s \<and> (\<forall>n. fails E n Umount_mntpoint \<noteq> None)"
  let ?s = "s\<lparr>calls := calls s + 1, rs := report TWARN (rs s)\<rparr>"
  have "adds_results (\<lambda>s. Going (if mapped s then s\<lparr>mapped := False, held := held s - {Shm_map}\<rparr> else s))" by (simp add: adds_results_def)
  then have "adds_results (cleanup_ipc E)" unfolding cleanup_ipc_def by (intro ar.ok_run) (simp add: ar.ok_if ar.ok_Going adds_warn)
  then have "adds_results (run_steps (restore_steps E @ [cleanup_ipc E]))"
    by (intro ar.ok_run) (simp add: restore_steps_def ar.ok_if ar.ok_Going adds_warn)
  then obtain s' l where s': "run_steps (restore_steps E @ [cleanup_ipc E]) ?s = Going s'" "logged (rs s') = logged (rs ?s) @ l"
    unfolding adds_results_def by blast
  have three: "f s = Going s \<Longrightarrow> g s = Going s \<Longrightarrow> h s = Going s1 \<Longrightarrow> run_steps (f # g # h # fs) s = run_steps fs s1" for f g h fs s1
    by (simp add: run_steps.simps)
  have "do_cleanup E s = run_steps (restore_steps E @ [cleanup_ipc E]) ?s"
    unfolding do_cleanup_def umount_steps_def append.simps
    by (rule three) (use a in \<open>auto simp: only_if_def release_or_warn_def Let_def\<close>)
  then have "do_cleanup E s = Going s'" "TWARN \<in> set (logged (rs s'))" using s' by simp_all
  then show "\<exists>s'. exit_library E ret s = Some (fst (exit_code False None False (Some (counters (rs s))) ret), s') \<and> TWARN \<in> set (logged (rs s'))"
    by (subst exit_library.simps) (simp add: Let_def)
qed

text \<open>After \<open>tst_taint_init()\<close> the check of a run finds the kernel tainted only by a flag that the test asked for and
  that was not set at the start.\<close>
theorem taint_is_new:
  assumes "tst_taint_init E B s = Going s'" "tst_taint_check taint (rs s') = Some flags" "flags \<noteq> 0"
  shows "\<exists>n. bit flags n \<and> bit (taint_check (desc s)) n \<and> bit taint n \<and> \<not> bit (taint_value E) n"
proof -
  let ?s = "s\<lparr>rs := taint_start B (taint_check (desc s)) (rs s), calls := calls s + 1\<rparr>"
  have m: "taint_mask (rs ?s) = taint_check (desc s)" by (simp add: taint_start_def split: prod.split)
  have "taint_finish (taint_value E) (rs ?s) = (True, rs s')"
    using assms(1) by (auto simp: tst_taint_init_def Let_def run_steps.simps call_def do_op_def split: if_splits option.splits prod.splits)
  then have f: "fst (taint_finish (taint_value E) (rs ?s))" and r: "rs s' = snd (taint_finish (taint_value E) (rs ?s))" by simp_all
  have t: "taint_value E AND taint_mask (rs s') = 0" "taint_mask (rs s') = taint_mask (rs ?s) \<or> taint_mask (rs s') = taint_mask (rs ?s) AND NOT TST_TAINT_W"
    using f unfolding r by (simp_all add: taint_finish_def Let_def report_def)
  have fl: "flags = taint AND taint_mask (rs s')" using assms(2) by (simp add: tst_taint_check_def split: if_splits)
  obtain n where n: "bit flags n" using assms(3) by (metis bit_eqI bit_0_eq bot_apply bot_bool_def)
  have "bit taint n" "bit (taint_mask (rs s')) n" using n fl by (simp_all add: bit_and_iff)
  moreover have "\<not> bit (taint_value E) n" using t(1) calculation(2) by (metis bit_and_iff bit_0_eq bot_apply bot_bool_def)
  moreover have "bit (taint_check (desc s)) n" using t(2) m calculation(2) by (auto simp: bit_and_iff)
  ultimately show ?thesis using n by blast
qed

section \<open>Examples\<close>

definition example_desc :: setup_desc where
  "example_desc = \<lparr>tcnt = 0, has_test = False, has_setup = True, has_cleanup = True, forks_child = False, all_filesystems = False,
     skip_filesystems = None, taint_check = 128, test_variants = 2, filesystems = None, iterations = 1, duration = None,
     timeout = 0, runtime = 0, has_tconf_msg = False, supported_archs = None, has_test_all = True, has_sample = False, runs_script = False,
     child_needs_reinit = False, needs_checkpoints = False, needs_kconfigs = False, needs_root = True, needs_kver = None, skip_in_lockdown = False,
     skip_in_secureboot = False, skip_in_compat = False, needs_abi_bits = 0, needs_cmds = [], needs_drivers = [], mount_device = False,
     format_device = False, needs_device = False, min_cpus = 1, min_mem_avail = 0, min_swap_avail = 0, hugepages = 0, has_bufs = False,
     asks_tmpdir = True, save_restore = [], ulimits = [], has_mntpoint = False, needs_devfs = False, needs_rofs = False, needs_hugetlbfs = False,
     needs_overlay = False, resource_files = None, restore_wallclock = False, needs_cgroup_ctrls = None, needs_cgroup_ver = False, dev_min_size = 0\<rparr>"

definition example_system :: system where
  "example_system = \<lparr>tools_of = \<lparr>in_path = (\<lambda>c. True), prints_version = (\<lambda>c. None)\<rparr>, fails = (\<lambda>n c. None), arch_name = ''x86_64'', dev_shm = True,
     opts_end = (\<lambda>d. ([], Opts_set 1 None 0)), kconfig_bad = False, euid = 0, lockdown = 0, secureboot = 0, kernel_bits = 64, abi = 64,
     driver_missing = (\<lambda>n. False), ncpus = 4, available_mem = 1000000, available_swap = 0, mounted_nodev = False, mount_fails = (\<lambda>t. False),
     hugepages_dir = True, dev_size = 300, dev_fs_type = ''ext2'', fs_supported = (\<lambda>t. True), taint_value = 0\<rparr>"

lemmas setup_eval = do_setup_def setup_steps_def first_steps_def require_steps_def resource_steps_def mount_steps_def last_steps_def run_steps.simps
  stop_if_def only_if_def for_all_def set_desc_def do_op_def call_def Let_def start_state_def check_arch_def tst_is_on_arch_def assert_test_fn_def
  setup_ipc_def parse_options_def require_kver_def acquire_device_def tst_taint_init_def taint_start_def taint_finish_def tst_taint_check_kver_def
  acquire_def discard_def needs_tmpdir_def example_system_def example_desc_def



theorem early_failure_leaks_witness:
  "\<exists>s. do_setup (example_system\<lparr>dev_shm := False, fails := \<lambda>n c. if c = Open_shm then Some TBROK else None\<rparr>) example_behaviour example_desc = Stopped TBROK s
    \<and> Tmp_dir \<in> held s"
proof -
  have d: "- 1 \<le> timeout example_desc" "0 \<le> runtime example_desc" "\<not> has_tconf_msg example_desc" "supported_archs example_desc = None"
    "\<not> has_sample example_desc" "has_test_all example_desc" "\<not> has_test example_desc" "tcnt example_desc = 0" by (simp_all add: example_desc_def)
  show ?thesis
    using early_failure_leaks [of "example_system\<lparr>dev_shm := False, fails := \<lambda>n c. if c = Open_shm then Some TBROK else None\<rparr>" TBROK,
        OF _ _ _ d, of example_behaviour] by auto
qed

theorem cleanup_failures_witness:
  "exit_library (example_system\<lparr>fails := \<lambda>n c. Some TBROK\<rparr>) 0 (start_state example_desc\<lparr>ovl_mounted := True\<rparr>) = None"
proof -
  have "needs_cgroup_ctrls example_desc = None" by (simp add: example_desc_def)
  then show ?thesis
    using cleanup_failures [of "start_state example_desc\<lparr>ovl_mounted := True\<rparr>" "example_system\<lparr>fails := \<lambda>n c. Some TBROK\<rparr>" 0]
    by (simp add: start_state_def)
qed

theorem taint_is_new_witness:
  "\<exists>n. bit (128 :: 32 word) n \<and> bit (taint_check example_desc) n \<and> \<not> bit (taint_value example_system) n"
proof -
  let ?s = "start_state example_desc"
  obtain s' where "tst_taint_init example_system example_behaviour ?s = Going s'" "tst_taint_check 128 (rs s') = Some 128"
    by (simp add: setup_eval bit_numeral_rec tst_taint_check_def)
  from taint_is_new [OF this] show ?thesis by (auto simp: start_state_def)
qed

end
